(* ===== verification/Prelude.thy ===== *)
theory Prelude
  imports Main
begin

text \<open>
  Shared vocabulary of the development: the result type of C code, checked machine
  integers, C strings in fixed-size buffers, and the generic lemmas the component
  theories use.
\<close>

section \<open>Results of C code\<close>

text \<open>
  A C function either returns a value, or runs into undefined behaviour or ends the process
  (an error, with its kind), or never returns (it loops or blocks for ever). The three
  outcomes are \<open>Some (Inr x)\<close>, \<open>Some (Inl e)\<close> and \<open>None\<close>. With \<open>None\<close> as the value of
  a loop that does not end, the loops of the source are \<open>partial_function (option)\<close>, and
  a theorem that a call returns is an equation with \<open>ok\<close>.
\<close>

datatype c_error =
    Null_Deref          \<comment> \<open>access through a null pointer\<close>
  | Bad_Deref           \<comment> \<open>access through a pointer to no live object (freed or never allocated)\<close>
  | Uninit_Read         \<comment> \<open>read of an indeterminate value\<close>
  | Out_Of_Bounds       \<comment> \<open>access outside an array or buffer\<close>
  | Signed_Overflow
  | Div_By_Zero
  | Bad_Longjmp         \<comment> \<open>longjmp into a function that has returned\<close>
  | Assert_Failed
  | Exit_Call int       \<comment> \<open>exit() with this status\<close>

type_synonym 'a res = "(c_error + 'a) option"

definition ok :: "'a \<Rightarrow> 'a res" where
  "ok x = Some (Inr x)"

definition err :: "c_error \<Rightarrow> 'a res" where
  "err e = Some (Inl e)"

definition rbind :: "'a res \<Rightarrow> ('a \<Rightarrow> 'b res) \<Rightarrow> 'b res" where
  "rbind m f = Option.bind m (\<lambda>r. case r of Inl e \<Rightarrow> Some (Inl e) | Inr x \<Rightarrow> f x)"

named_theorems res_simps \<open>rewriting of results\<close>

lemma rbind_ok [simp, res_simps]: "rbind (ok x) f = f x"
  by (simp add: rbind_def ok_def)

lemma rbind_err [simp, res_simps]: "rbind (err e) f = err e"
  by (simp add: rbind_def err_def)

lemma rbind_None [simp, res_simps]: "rbind None f = None"
  by (simp add: rbind_def)

lemma ok_inject [simp]: "ok x = ok y \<longleftrightarrow> x = y"
  by (simp add: ok_def)

lemma err_inject [simp]: "err x = err y \<longleftrightarrow> x = y"
  by (simp add: err_def)

lemma ok_neq [simp]: "ok x \<noteq> err e" "err e \<noteq> ok x" "ok x \<noteq> None" "None \<noteq> ok x"
    "err e \<noteq> None" "None \<noteq> err e"
  by (simp_all add: ok_def err_def)

lemma res_cases [case_names ok err none]:
  obtains x where "r = ok x" | e where "r = err e" | "r = None"
  by (cases r; auto simp: ok_def err_def elim: sumE)

lemma res_eq_Some: "ok x = Some y \<longleftrightarrow> y = Inr x" "err e = Some y \<longleftrightarrow> y = Inl e"
  by (auto simp: ok_def err_def)

lemma rbind_eq_ok: "rbind m f = ok y \<longleftrightarrow> (\<exists>x. m = ok x \<and> f x = ok y)"
  by (cases m rule: res_cases) auto

lemma rbind_eq_err:
  "rbind m f = err e \<longleftrightarrow> m = err e \<or> (\<exists>x. m = ok x \<and> f x = err e)"
  by (cases m rule: res_cases) auto

lemma rbind_eq_None: "rbind m f = None \<longleftrightarrow> m = None \<or> (\<exists>x. m = ok x \<and> f x = None)"
  by (cases m rule: res_cases) auto

lemma rbind_assoc: "rbind (rbind m f) g = rbind m (\<lambda>x. rbind (f x) g)"
  by (cases m rule: res_cases) auto

lemma rbind_if: "rbind (if b then m else m') f = (if b then rbind m f else rbind m' f)"
  by simp

lemma rbind_mono [partial_function_mono]:
  assumes "mono_option B" and "\<And>y. mono_option (\<lambda>f. C y f)"
  shows "mono_option (\<lambda>f. rbind (B f) (\<lambda>y. C y f))"
  unfolding rbind_def
proof (rule bind_mono [OF assms(1)])
  fix y
  show "mono_option (\<lambda>f. case y of Inl e \<Rightarrow> Some (Inl e) | Inr x \<Rightarrow> C x f)"
    by (cases y) (auto simp: monotone_def option.leq_refl intro: assms(2) [unfolded monotone_def, rule_format])
qed

section \<open>Signed machine integers\<close>

text \<open>
  An \<open>int\<close> of the source is 32 bits wide. Its value is an HOL integer and every addition
  whose result does not fit is undefined behaviour, as in C.
\<close>

definition INT_MAX :: int where "INT_MAX = 2147483647"
definition INT_MIN :: int where "INT_MIN = -2147483648"

definition int_ok :: "int \<Rightarrow> bool" where
  "int_ok i \<longleftrightarrow> INT_MIN \<le> i \<and> i \<le> INT_MAX"

definition c_add :: "int \<Rightarrow> int \<Rightarrow> int res" where
  "c_add x y = (if int_ok (x + y) then ok (x + y) else err Signed_Overflow)"

lemma c_add_ok [simp]: "int_ok (x + y) \<Longrightarrow> c_add x y = ok (x + y)"
  by (simp add: c_add_def)

lemma c_add_eq_ok: "c_add x y = ok z \<longleftrightarrow> int_ok z \<and> z = x + y"
  by (auto simp: c_add_def)

lemma c_add_overflow: "\<not> int_ok (x + y) \<Longrightarrow> c_add x y = err Signed_Overflow"
  by (simp add: c_add_def)

lemma int_ok_nat: "int n \<le> INT_MAX \<Longrightarrow> int_ok (int n)"
  by (simp add: int_ok_def INT_MIN_def)

lemma int_ok_small: "-2147483648 \<le> i \<Longrightarrow> i \<le> 2147483647 \<Longrightarrow> int_ok i"
  by (simp add: int_ok_def INT_MIN_def INT_MAX_def)

section \<open>Strings in buffers\<close>

text \<open>
  A character array is the list of its bytes. The string it holds ends at the first zero
  byte; library calls that walk past the end of the array are out of bounds.
\<close>

abbreviation NUL :: char where "NUL \<equiv> CHR 0x00"

text \<open>A string literal of the source, with its terminator.\<close>

definition lit :: "string \<Rightarrow> char list" where
  "lit s = s @ [NUL]"

text \<open>\<open>strcmp(a, b) == 0\<close>: reads both arrays up to the first difference or terminator.\<close>

fun c_streq :: "char list \<Rightarrow> char list \<Rightarrow> bool res" where
  "c_streq (a # as) (b # bs) =
     (if a \<noteq> b then ok False else if a = NUL then ok True else c_streq as bs)"
| "c_streq _ _ = err Out_Of_Bounds"

text \<open>The string held by an array, as any \<open>%s\<close> or copy reads it.\<close>

definition cstr :: "char list \<Rightarrow> string res" where
  "cstr buf = (if NUL \<in> set buf then ok (takeWhile (\<lambda>c. c \<noteq> NUL) buf) else err Out_Of_Bounds)"

text \<open>\<open>strcpy\<close> of a string into an array: the bytes after the terminator stay.\<close>

definition c_strcpy :: "char list \<Rightarrow> string \<Rightarrow> char list res" where
  "c_strcpy buf s =
     (if length s < length buf then ok (s @ NUL # drop (Suc (length s)) buf)
      else err Out_Of_Bounds)"

lemma takeWhile_nul: "NUL \<notin> set s \<Longrightarrow> takeWhile (\<lambda>c. c \<noteq> NUL) (s @ NUL # r) = s"
  by (induction s) auto

lemma cstr_append [simp]: "NUL \<notin> set s \<Longrightarrow> cstr (s @ NUL # r) = ok s"
  by (simp add: cstr_def takeWhile_nul)

lemma cstr_obtain:
  assumes "cstr buf = ok s"
  obtains r where "buf = s @ NUL # r" "NUL \<notin> set s"
proof -
  from assms have N: "NUL \<in> set buf" and s: "s = takeWhile (\<lambda>c. c \<noteq> NUL) buf"
    by (auto simp: cstr_def split: if_splits)
  from split_list_first [OF N] obtain ys r where r: "buf = ys @ NUL # r" "NUL \<notin> set ys" by blast
  with s have "s = ys" using takeWhile_nul by simp
  with r show thesis using that by simp
qed

lemma cstr_length: "cstr buf = ok s \<Longrightarrow> length s < length buf"
  by (erule cstr_obtain) simp

lemma cstr_no_nul: "cstr buf = ok s \<Longrightarrow> NUL \<notin> set s"
  by (erule cstr_obtain) simp

lemma c_strcpy_fits [simp]:
  "length s < length buf \<Longrightarrow> c_strcpy buf s = ok (s @ NUL # drop (Suc (length s)) buf)"
  by (simp add: c_strcpy_def)

lemma c_strcpy_overflow: "length buf \<le> length s \<Longrightarrow> c_strcpy buf s = err Out_Of_Bounds"
  by (simp add: c_strcpy_def)

lemma c_strcpy_length: "c_strcpy buf s = ok buf' \<Longrightarrow> length buf' = length buf"
  by (auto simp: c_strcpy_def split: if_splits)

lemma c_streq_strings:
  "NUL \<notin> set s \<Longrightarrow> NUL \<notin> set t \<Longrightarrow> c_streq (s @ NUL # r) (t @ [NUL]) = ok (s = t)"
proof (induction s arbitrary: t)
  case Nil
  then show ?case by (cases t) auto
next
  case (Cons a s)
  then show ?case by (cases t) auto
qed

lemma c_streq_cstr:
  assumes "cstr buf = ok s" and "NUL \<notin> set t"
  shows "c_streq buf (lit t) = ok (s = t)"
proof -
  from assms(1) obtain r where "buf = s @ NUL # r" and "NUL \<notin> set s"
    by (rule cstr_obtain)
  then show ?thesis
    using assms(2) by (simp add: lit_def c_streq_strings)
qed

section \<open>Decimal output\<close>

text \<open>The digits \<open>printf\<close> writes for \<open>%ld\<close>.\<close>

definition digit :: "nat \<Rightarrow> char" where
  "digit n = char_of (48 + n)"

fun dec_nat :: "nat \<Rightarrow> string" where
  "dec_nat n = (if n < 10 then [digit n] else dec_nat (n div 10) @ [digit (n mod 10)])"

declare dec_nat.simps [simp del]

definition dec_int :: "int \<Rightarrow> string" where
  "dec_int i = (if i < 0 then CHR ''-'' # dec_nat (nat (- i)) else dec_nat (nat i))"

lemma digit_inject: "a < 10 \<Longrightarrow> b < 10 \<Longrightarrow> digit a = digit b \<longleftrightarrow> a = b"
  by (simp add: digit_def)

lemma digit_not_minus: "a < 10 \<Longrightarrow> digit a \<noteq> CHR ''-''"
proof
  assume "a < 10" and "digit a = CHR ''-''"
  then have "of_char (digit a) = (of_char (CHR ''-'') :: nat)" by simp
  with \<open>a < 10\<close> show False by (simp add: digit_def)
qed

lemma dec_nat_nonempty: "dec_nat n \<noteq> []" "[] \<noteq> dec_nat n"
  by (simp_all add: dec_nat.simps [of n])

lemma dec_nat_last: "last (dec_nat n) = digit (n mod 10)"
  by (subst dec_nat.simps) simp

lemma dec_nat_butlast: "butlast (dec_nat n) = (if n < 10 then [] else dec_nat (n div 10))"
  by (subst dec_nat.simps) simp

lemma dec_nat_inject: "dec_nat a = dec_nat b \<Longrightarrow> a = b"
proof (induction a arbitrary: b rule: less_induct)
  case (less a)
  from less.prems have "digit (a mod 10) = digit (b mod 10)"
    by (metis dec_nat_last)
  then have m: "a mod 10 = b mod 10"
    by (simp add: digit_inject)
  from less.prems have bl: "(if a < 10 then [] else dec_nat (a div 10)) =
      (if b < 10 then [] else dec_nat (b div 10))"
    by (metis dec_nat_butlast)
  show ?case
  proof (cases "a < 10")
    case True
    with bl have "b < 10" by (auto simp: dec_nat_nonempty split: if_splits)
    with True m show ?thesis by simp
  next
    case False
    with bl have "\<not> b < 10" and "dec_nat (a div 10) = dec_nat (b div 10)"
      by (auto simp: dec_nat_nonempty split: if_splits)
    with False less.IH [of "a div 10" "b div 10"] have "a div 10 = b div 10" by simp
    with m show ?thesis by (metis mult_div_mod_eq)
  qed
qed

lemma dec_nat_no_minus: "CHR ''-'' \<notin> set (dec_nat n)"
proof (induction n rule: dec_nat.induct)
  case (1 n)
  then show ?case
    by (subst dec_nat.simps) (auto dest: digit_not_minus [rotated] simp: digit_not_minus [symmetric])
qed

lemma dec_int_inject: "dec_int i = dec_int j \<Longrightarrow> i = j"
proof -
  assume eq: "dec_int i = dec_int j"
  have minus: "CHR ''-'' \<in> set (dec_int k) \<longleftrightarrow> k < 0" for k
    by (simp add: dec_int_def dec_nat_no_minus)
  from eq have "i < 0 \<longleftrightarrow> j < 0"
    by (metis minus)
  with eq have "dec_nat (nat \<bar>i\<bar>) = dec_nat (nat \<bar>j\<bar>)"
    by (auto simp: dec_int_def split: if_splits)
  then have "nat \<bar>i\<bar> = nat \<bar>j\<bar>"
    by (rule dec_nat_inject)
  with \<open>i < 0 \<longleftrightarrow> j < 0\<close> show "i = j" by linarith
qed

lemma dec_nat_length: "n < 10 ^ Suc k \<Longrightarrow> length (dec_nat n) \<le> Suc k"
proof (induction k arbitrary: n)
  case 0
  then show ?case by (simp add: dec_nat.simps [of n])
next
  case (Suc k)
  then have "n div 10 < 10 ^ Suc k" by (simp add: less_mult_imp_div_less)
  then have "length (dec_nat (n div 10)) \<le> Suc k" by (rule Suc.IH)
  then show ?case by (simp add: dec_nat.simps [of n])
qed

lemma dec_int_length: "int_ok i \<Longrightarrow> length (dec_int i) \<le> 11"
proof -
  assume "int_ok i"
  then have "\<bar>i\<bar> \<le> 2147483648"
    by (auto simp: int_ok_def INT_MIN_def INT_MAX_def)
  then have "nat \<bar>i\<bar> < 10 ^ Suc 9" by (simp add: nat_less_iff)
  from dec_nat_length [OF this] show ?thesis
    by (auto simp: dec_int_def split: if_splits)
qed

section \<open>Decimal input\<close>

text \<open>\<open>atoi\<close>: white space, a sign, digits. A value that does not fit an \<open>int\<close> is undefined.\<close>

definition is_space :: "char \<Rightarrow> bool" where
  "is_space c \<longleftrightarrow> c \<in> set [CHR '' '', CHR 0x09, CHR 0x0A, CHR 0x0B, CHR 0x0C, CHR 0x0D]"

fun digits_value :: "string \<Rightarrow> int \<Rightarrow> int" where
  "digits_value [] v = v"
| "digits_value (c # cs) v =
     (if 48 \<le> (of_char c :: nat) \<and> (of_char c :: nat) < 58
      then digits_value cs (10 * v + int (of_char c - 48)) else v)"

definition c_atoi :: "string \<Rightarrow> int res" where
  "c_atoi s =
     (let v = (case dropWhile is_space s of
          [] \<Rightarrow> 0
        | c # cs \<Rightarrow> if c = CHR ''-'' then - digits_value cs 0
                    else if c = CHR ''+'' then digits_value cs 0
                    else digits_value (c # cs) 0)
      in if int_ok v then ok v else err Signed_Overflow)"

lemma of_char_digit: "n < 10 \<Longrightarrow> (of_char (digit n) :: nat) = 48 + n"
  by (simp add: digit_def)

lemma digits_value_dec: "digits_value (dec_nat n @ s) v =
    digits_value s (v * 10 ^ length (dec_nat n) + int n)"
proof (induction n arbitrary: s v rule: dec_nat.induct)
  case (1 n)
  show ?case
  proof (cases "n < 10")
    case True
    then show ?thesis by (simp add: dec_nat.simps [of n] of_char_digit mult.commute)
  next
    case False
    have n: "int n = 10 * int (n div 10) + int (n mod 10)" by (metis mult_div_mod_eq of_nat_add of_nat_mult of_nat_numeral)
    show ?thesis
      using False 1 [OF False, of "digit (n mod 10) # s" v]
      by (simp add: dec_nat.simps [of n] of_char_digit) (simp add: n algebra_simps)
  qed
qed

lemma dec_nat_head: "\<exists>k<10. \<exists>s. dec_nat n = digit k # s"
proof (induction n rule: dec_nat.induct)
  case (1 n)
  show ?case
  proof (cases "n < 10")
    case True
    then show ?thesis by (intro exI [of _ n]) (simp add: dec_nat.simps [of n])
  next
    case False
    with 1 obtain k s where "k < 10" "dec_nat (n div 10) = digit k # s" by blast
    with False show ?thesis by (intro exI [of _ k]) (simp add: dec_nat.simps [of n])
  qed
qed

lemma atoi_dec_nat: "int n \<le> INT_MAX \<Longrightarrow> c_atoi (dec_nat n) = ok (int n)"
proof -
  assume n: "int n \<le> INT_MAX"
  obtain k s where k: "k < 10" "dec_nat n = digit k # s" using dec_nat_head by blast
  have c: "(of_char (digit k) :: nat) = 48 + k" using of_char_digit [OF k(1)] .
  have ns: "\<not> is_space (digit k)" "digit k \<noteq> CHR ''-''" "digit k \<noteq> CHR ''+''"
    using c by (auto simp: is_space_def)
  have "digits_value (dec_nat n) 0 = int n" using digits_value_dec [of n "[]" 0] by simp
  then have "digits_value (digit k # s) 0 = int n" unfolding k(2) .
  with ns int_ok_nat [OF n] show ?thesis
    unfolding c_atoi_def k(2) by (simp del: digits_value.simps)
qed

section \<open>Named pipes\<close>

text \<open>
  Opening one end of a FIFO fails, blocks for ever (the FIFO exists and nobody opens its other end)
  or succeeds.
\<close>

datatype open_result = Open_Fails | Open_Blocks | Opened

end
