(* ===== verification/ChatList.thy ===== *)
theory ChatList
  imports Prelude
begin

text \<open>
  The generic doubly linked list of the chat server (\<open>pp_1_server/list.h\<close> and
  \<open>pp_1_server/list.c\<close>; the copy in \<open>test_2/\<close> has the same code) over an explicit heap:
  the operations as the code writes them, pointer by pointer, and the proof that they
  implement sequences.
\<close>

section \<open>The heap\<close>

type_synonym addr = nat

record node =
  nd_data :: "addr option"
  nd_prev :: "addr option"
  nd_next :: "addr option"

text \<open>
  Addresses come from a bump allocator, so that an address is never reused and an access
  to a freed object is always visible. \<open>nodes\<close> are the live \<open>node\<close> structs, \<open>blocks\<close> the
  live element blocks (\<open>Some None\<close> is a block that has not been written), \<open>avail\<close> the
  number of allocations that still succeed.
\<close>

record 'a mem =
  nodes :: "addr \<Rightarrow> node option"
  blocks :: "addr \<Rightarrow> 'a option option"
  brk :: addr
  avail :: nat

record 'a clist =
  l_head :: "addr option"
  l_tail :: "addr option"
  l_length :: int
  l_elem_size :: nat
  l_compare :: "'a \<Rightarrow> 'a \<Rightarrow> int"
  l_free :: "'a mem \<Rightarrow> addr \<Rightarrow> 'a mem res"

definition malloc_raw :: "'a mem \<Rightarrow> 'a mem \<times> addr option" where
  "malloc_raw m =
     (if avail m = 0 then (m, None)
      else (m\<lparr>brk := Suc (brk m), avail := avail m - 1\<rparr>, Some (brk m)))"

definition malloc_node :: "'a mem \<Rightarrow> 'a mem \<times> addr option" where
  "malloc_node m =
     (case malloc_raw m of
        (m1, None) \<Rightarrow> (m1, None)
      | (m1, Some a) \<Rightarrow>
          (m1\<lparr>nodes := (nodes m1)(a \<mapsto> \<lparr>nd_data = None, nd_prev = None, nd_next = None\<rparr>)\<rparr>, Some a))"

definition malloc_block :: "'a mem \<Rightarrow> 'a mem \<times> addr option" where
  "malloc_block m =
     (case malloc_raw m of
        (m1, None) \<Rightarrow> (m1, None)
      | (m1, Some a) \<Rightarrow> (m1\<lparr>blocks := (blocks m1)(a \<mapsto> None)\<rparr>, Some a))"

text \<open>Reading and writing the fields of the node a pointer points to.\<close>

definition load :: "'a mem \<Rightarrow> addr option \<Rightarrow> node res" where
  "load m p = (case p of None \<Rightarrow> err Null_Deref
     | Some a \<Rightarrow> (case nodes m a of None \<Rightarrow> err Bad_Deref | Some n \<Rightarrow> ok n))"

definition store :: "'a mem \<Rightarrow> addr option \<Rightarrow> (node \<Rightarrow> node) \<Rightarrow> 'a mem res" where
  "store m p f = (case p of None \<Rightarrow> err Null_Deref
     | Some a \<Rightarrow> (case nodes m a of None \<Rightarrow> err Bad_Deref
         | Some n \<Rightarrow> ok (m\<lparr>nodes := (nodes m)(a \<mapsto> f n)\<rparr>)))"

definition load_data :: "'a mem \<Rightarrow> addr option \<Rightarrow> 'a res" where
  "load_data m p = (case p of None \<Rightarrow> err Null_Deref
     | Some a \<Rightarrow> (case blocks m a of None \<Rightarrow> err Bad_Deref
         | Some None \<Rightarrow> err Uninit_Read | Some (Some v) \<Rightarrow> ok v))"

text \<open>\<open>memcpy(new->data, data, element_size)\<close>: one element is copied into the block.\<close>

definition store_data :: "'a mem \<Rightarrow> addr option \<Rightarrow> 'a \<Rightarrow> 'a mem res" where
  "store_data m p v = (case p of None \<Rightarrow> err Null_Deref
     | Some a \<Rightarrow> (case blocks m a of None \<Rightarrow> err Bad_Deref
         | Some _ \<Rightarrow> ok (m\<lparr>blocks := (blocks m)(a \<mapsto> Some v)\<rparr>)))"

definition free_node :: "'a mem \<Rightarrow> addr option \<Rightarrow> 'a mem res" where
  "free_node m p = (case p of None \<Rightarrow> ok m
     | Some a \<Rightarrow> (case nodes m a of None \<Rightarrow> err Bad_Deref
         | Some _ \<Rightarrow> ok (m\<lparr>nodes := (nodes m)(a := None)\<rparr>)))"

section \<open>The operations of list.c\<close>

text \<open>
  The parameter \<open>L\<close> of \<open>list_init\<close> is overwritten before it is used; the struct is
  allocated again inside.
\<close>

definition list_init ::
  "'a mem \<Rightarrow> nat \<Rightarrow> ('a mem \<Rightarrow> addr \<Rightarrow> 'a mem res) \<Rightarrow> ('a \<Rightarrow> 'a \<Rightarrow> int) \<Rightarrow> ('a mem \<times> 'a clist) res"
where
  "list_init m element_size free_fn compare_fn =
     (case malloc_raw m of (m1, L) \<Rightarrow>
      if L = None then err (Exit_Call 1) else
      (case malloc_node m1 of (m2, hp) \<Rightarrow>
      (case malloc_node m2 of (m3, tp) \<Rightarrow>
      if hp = None \<or> tp = None then err (Exit_Call 1) else
      rbind (store m3 hp (\<lambda>n. n\<lparr>nd_next := tp\<rparr>)) (\<lambda>m4.
      rbind (store m4 hp (\<lambda>n. n\<lparr>nd_prev := None\<rparr>)) (\<lambda>m5.
      rbind (store m5 hp (\<lambda>n. n\<lparr>nd_data := None\<rparr>)) (\<lambda>m6.
      rbind (store m6 tp (\<lambda>n. n\<lparr>nd_next := None\<rparr>)) (\<lambda>m7.
      rbind (store m7 tp (\<lambda>n. n\<lparr>nd_prev := hp\<rparr>)) (\<lambda>m8.
      rbind (store m8 tp (\<lambda>n. n\<lparr>nd_data := None\<rparr>)) (\<lambda>m9.
      ok (m9, \<lparr>l_head = hp, l_tail = tp, l_length = 0, l_elem_size = element_size,
               l_compare = compare_fn, l_free = free_fn\<rparr>))))))))))"

definition list_front :: "'a mem \<Rightarrow> 'a clist \<Rightarrow> addr option res" where
  "list_front m L = rbind (load m (l_head L)) (\<lambda>n. ok (nd_next n))"

definition list_back :: "'a mem \<Rightarrow> 'a clist \<Rightarrow> addr option res" where
  "list_back m L = rbind (load m (l_tail L)) (\<lambda>n. ok (nd_prev n))"

definition list_push_front :: "'a mem \<Rightarrow> 'a clist \<Rightarrow> 'a \<Rightarrow> ('a mem \<times> 'a clist) res" where
  "list_push_front m L x =
     (case malloc_node m of (m1, new) \<Rightarrow>
      (case malloc_block m1 of (m2, d) \<Rightarrow>
      rbind (store m2 new (\<lambda>n. n\<lparr>nd_data := d\<rparr>)) (\<lambda>m3.
      rbind (store m3 new (\<lambda>n. n\<lparr>nd_prev := l_head L\<rparr>)) (\<lambda>m4.
      rbind (store_data m4 d x) (\<lambda>m5.
      rbind (load m5 (l_head L)) (\<lambda>hp. let p = l_head L; temp = nd_next hp in
      rbind (store m5 p (\<lambda>n. n\<lparr>nd_next := new\<rparr>)) (\<lambda>m6.
      rbind (store m6 new (\<lambda>n. n\<lparr>nd_prev := p\<rparr>)) (\<lambda>m7.
      rbind (store m7 new (\<lambda>n. n\<lparr>nd_next := temp\<rparr>)) (\<lambda>m8.
      rbind (store m8 temp (\<lambda>n. n\<lparr>nd_prev := new\<rparr>)) (\<lambda>m9.
      rbind (c_add (l_length L) 1) (\<lambda>len.
      ok (m9, L\<lparr>l_length := len\<rparr>))))))))))))"

definition list_push_back :: "'a mem \<Rightarrow> 'a clist \<Rightarrow> 'a \<Rightarrow> ('a mem \<times> 'a clist) res" where
  "list_push_back m L x =
     (case malloc_node m of (m1, new) \<Rightarrow>
      (case malloc_block m1 of (m2, d) \<Rightarrow>
      rbind (store m2 new (\<lambda>n. n\<lparr>nd_data := d\<rparr>)) (\<lambda>m3.
      rbind (store m3 new (\<lambda>n. n\<lparr>nd_next := l_tail L\<rparr>)) (\<lambda>m4.
      rbind (store_data m4 d x) (\<lambda>m5.
      rbind (load m5 (l_tail L)) (\<lambda>tp. let p = nd_prev tp in
      rbind (store m5 p (\<lambda>n. n\<lparr>nd_next := new\<rparr>)) (\<lambda>m6.
      rbind (store m6 new (\<lambda>n. n\<lparr>nd_next := l_tail L\<rparr>)) (\<lambda>m7.
      rbind (store m7 new (\<lambda>n. n\<lparr>nd_prev := p\<rparr>)) (\<lambda>m8.
      rbind (store m8 (l_tail L) (\<lambda>n. n\<lparr>nd_prev := new\<rparr>)) (\<lambda>m9.
      rbind (c_add (l_length L) 1) (\<lambda>len.
      ok (m9, L\<lparr>l_length := len\<rparr>))))))))))))"

definition list_pop_front :: "'a mem \<Rightarrow> 'a clist \<Rightarrow> ('a mem \<times> 'a clist) res" where
  "list_pop_front m L =
     rbind (load m (l_head L)) (\<lambda>hp.
     if nd_next hp = l_tail L then ok (m, L)
     else let temp = nd_next hp in
       rbind (load m temp) (\<lambda>tn. let p = nd_next tn in
       rbind (store m (l_head L) (\<lambda>n. n\<lparr>nd_next := p\<rparr>)) (\<lambda>m1.
       rbind (store m1 p (\<lambda>n. n\<lparr>nd_prev := l_head L\<rparr>)) (\<lambda>m2.
       rbind (free_node m2 temp) (\<lambda>m3.
       rbind (c_add (l_length L) (-1)) (\<lambda>len.
       ok (m3, L\<lparr>l_length := len\<rparr>)))))))"

definition list_remove_node :: "'a mem \<Rightarrow> 'a clist \<Rightarrow> addr option \<Rightarrow> ('a mem \<times> 'a clist) res" where
  "list_remove_node m L p =
     (if p = l_head L then ok (m, L)
      else if p = l_tail L then ok (m, L)
      else let temp = p in
       rbind (load m p) (\<lambda>pn. let q = nd_prev pn; r = nd_next pn in
       rbind (store m q (\<lambda>n. n\<lparr>nd_next := r\<rparr>)) (\<lambda>m1.
       rbind (store m1 r (\<lambda>n. n\<lparr>nd_prev := q\<rparr>)) (\<lambda>m2.
       rbind (free_node m2 temp) (\<lambda>m3.
       rbind (c_add (l_length L) (-1)) (\<lambda>len.
       ok (m3, L\<lparr>l_length := len\<rparr>)))))))"

partial_function (option) remove_pid_loop ::
  "'a mem \<Rightarrow> 'a clist \<Rightarrow> 'a \<Rightarrow> addr option \<Rightarrow> ('a mem \<times> 'a clist) res" where
  "remove_pid_loop m L x p =
     rbind (load m p) (\<lambda>n.
     if nd_next n = None then ok (m, L)
     else rbind (load_data m (nd_data n)) (\<lambda>v.
       if v = x then list_remove_node m L p
       else remove_pid_loop m L x (nd_next n)))"

definition list_remove_pid :: "'a mem \<Rightarrow> 'a clist \<Rightarrow> 'a \<Rightarrow> ('a mem \<times> 'a clist) res" where
  "list_remove_pid m L x = rbind (list_front m L) (\<lambda>p. remove_pid_loop m L x p)"

definition list_pop_back :: "'a mem \<Rightarrow> 'a clist \<Rightarrow> ('a mem \<times> 'a clist) res" where
  "list_pop_back m L =
     rbind (load m (l_tail L)) (\<lambda>tp.
     if nd_prev tp = l_head L then ok (m, L)
     else let temp = nd_prev tp in
       rbind (load m temp) (\<lambda>tn. let p = nd_prev tn in
       rbind (store m (l_tail L) (\<lambda>n. n\<lparr>nd_prev := p\<rparr>)) (\<lambda>m1.
       rbind (store m1 p (\<lambda>n. n\<lparr>nd_next := l_tail L\<rparr>)) (\<lambda>m2.
       rbind (free_node m2 temp) (\<lambda>m3.
       rbind (c_add (l_length L) (-1)) (\<lambda>len.
       ok (m3, L\<lparr>l_length := len\<rparr>)))))))"

partial_function (option) contains_loop ::
  "'a mem \<Rightarrow> 'a clist \<Rightarrow> 'a \<Rightarrow> addr option \<Rightarrow> bool res" where
  "contains_loop m L x p =
     rbind (load m p) (\<lambda>n.
     if nd_next n = None then ok False
     else rbind (load_data m (nd_data n)) (\<lambda>v.
       if l_compare L v x = 0 then ok True
       else contains_loop m L x (nd_next n)))"

text \<open>The assertion on \<open>L\<close> and its comparison function holds by typing here.\<close>

definition list_contains :: "'a mem \<Rightarrow> 'a clist \<Rightarrow> 'a \<Rightarrow> bool res" where
  "list_contains m L x =
     rbind (load m (l_head L)) (\<lambda>n. contains_loop m L x (nd_next n))"

section \<open>The list a heap represents\<close>

named_theorems heap_simps \<open>symbolic execution of heap accesses\<close>

lemma load_Some [heap_simps]: "nodes m a = Some n \<Longrightarrow> load m (Some a) = ok n"
  by (simp add: load_def)

lemma load_None [heap_simps]: "load m None = err Null_Deref"
  by (simp add: load_def)

lemma load_dead [heap_simps]: "nodes m a = None \<Longrightarrow> load m (Some a) = err Bad_Deref"
  by (simp add: load_def)

lemma store_Some [heap_simps]:
  "nodes m a = Some n \<Longrightarrow> store m (Some a) f = ok (m\<lparr>nodes := (nodes m)(a \<mapsto> f n)\<rparr>)"
  by (simp add: store_def)

lemma store_None [heap_simps]: "store m None f = err Null_Deref"
  by (simp add: store_def)

lemma load_data_Some [heap_simps]: "blocks m b = Some (Some v) \<Longrightarrow> load_data m (Some b) = ok v"
  by (simp add: load_data_def)

lemma store_data_Some [heap_simps]:
  "blocks m b = Some w \<Longrightarrow> store_data m (Some b) v = ok (m\<lparr>blocks := (blocks m)(b \<mapsto> Some v)\<rparr>)"
  by (simp add: store_data_def)

lemma free_node_Some [heap_simps]:
  "nodes m a = Some n \<Longrightarrow> free_node m (Some a) = ok (m\<lparr>nodes := (nodes m)(a := None)\<rparr>)"
  by (simp add: free_node_def)

lemma malloc_raw_ok [heap_simps]:
  "0 < avail m \<Longrightarrow>
   malloc_raw m = (m\<lparr>brk := Suc (brk m), avail := avail m - 1\<rparr>, Some (brk m))"
  by (simp add: malloc_raw_def)

lemma malloc_node_ok [heap_simps]:
  "0 < avail m \<Longrightarrow>
   malloc_node m =
     (m\<lparr>nodes := (nodes m)(brk m \<mapsto> \<lparr>nd_data = None, nd_prev = None, nd_next = None\<rparr>),
        brk := Suc (brk m), avail := avail m - 1\<rparr>, Some (brk m))"
  by (simp add: malloc_node_def malloc_raw_def)

lemma malloc_block_ok [heap_simps]:
  "0 < avail m \<Longrightarrow>
   malloc_block m =
     (m\<lparr>blocks := (blocks m)(brk m \<mapsto> None), brk := Suc (brk m), avail := avail m - 1\<rparr>,
      Some (brk m))"
  by (simp add: malloc_block_def malloc_raw_def)

text \<open>
  One node with its links and its element (\<open>None\<close> for the two sentinels, whose data pointer
  is null), and a run of linked nodes between the address before it and the one after it.
\<close>

definition dnode :: "'a mem \<Rightarrow> addr \<Rightarrow> addr option \<Rightarrow> addr option \<Rightarrow> 'a option \<Rightarrow> bool" where
  "dnode m a p n x \<longleftrightarrow> (\<exists>nd. nodes m a = Some nd \<and> nd_prev nd = p \<and> nd_next nd = n \<and>
     (case x of None \<Rightarrow> nd_data nd = None
      | Some v \<Rightarrow> \<exists>b. nd_data nd = Some b \<and> blocks m b = Some (Some v)))"

definition first_or :: "(addr \<times> 'b) list \<Rightarrow> addr option \<Rightarrow> addr option" where
  "first_or l n = (case l of [] \<Rightarrow> n | e # _ \<Rightarrow> Some (fst e))"

definition last_or :: "addr option \<Rightarrow> (addr \<times> 'b) list \<Rightarrow> addr option" where
  "last_or p l = (if l = [] then p else Some (fst (last l)))"

lemma first_or_simps [simp]: "first_or [] n = n" "first_or (e # l) n = Some (fst e)"
    "first_or (l @ r) n = first_or l (first_or r n)"
  by (simp_all add: first_or_def split: list.splits)

lemma last_or_simps [simp]: "last_or p [] = p" "last_or p (l @ [e]) = Some (fst e)"
    "last_or p (e # l) = last_or (Some (fst e)) l"
  by (simp_all add: last_or_def)

fun seg :: "'a mem \<Rightarrow> addr option \<Rightarrow> (addr \<times> 'a option) list \<Rightarrow> addr option \<Rightarrow> bool" where
  "seg m p [] n \<longleftrightarrow> True"
| "seg m p (e # l) n \<longleftrightarrow> dnode m (fst e) p (first_or l n) (snd e) \<and> seg m (Some (fst e)) l n"

lemma seg_append: "seg m p (l @ r) n \<longleftrightarrow> seg m p l (first_or r n) \<and> seg m (last_or p l) r n"
  by (induction l arbitrary: p) auto

definition blocks_ext :: "'a mem \<Rightarrow> 'a mem \<Rightarrow> bool" where
  "blocks_ext m m' \<longleftrightarrow> (\<forall>b v. blocks m b = Some (Some v) \<longrightarrow> blocks m' b = Some (Some v))"

lemma blocks_ext_same [simp]: "blocks m' = blocks m \<Longrightarrow> blocks_ext m m'"
  by (simp add: blocks_ext_def)

lemma dnode_frame:
  assumes "dnode m a p n x" and "blocks_ext m m'"
    and "\<And>nd. nodes m a = Some nd \<Longrightarrow>
      \<exists>nd'. nodes m' a = Some nd' \<and> nd_data nd' = nd_data nd \<and> nd_prev nd' = p' \<and> nd_next nd' = n'"
  shows "dnode m' a p' n' x"
  using assms unfolding dnode_def blocks_ext_def
  by (cases x) fastforce+

lemma seg_frame:
  assumes "seg m p l n" and "blocks_ext m m'"
    and "\<And>a. a \<in> fst ` set l \<Longrightarrow> nodes m' a = nodes m a"
  shows "seg m' p l n"
  using assms(1,3)
proof (induction l arbitrary: p)
  case (Cons e l)
  from Cons.prems(1) have "dnode m (fst e) p (first_or l n) (snd e)" by simp
  then have "dnode m' (fst e) p (first_or l n) (snd e)"
    by (rule dnode_frame [OF _ assms(2)])
      (use Cons.prems \<open>dnode m (fst e) p (first_or l n) (snd e)\<close> in \<open>auto simp: dnode_def\<close>)
  with Cons show ?case by auto
qed simp

text \<open>Linking a node in, and unlinking one: the pointer surgery of every operation.\<close>

lemma seg_insert:
  assumes seg: "seg m p0 (l1 @ (q, xq) # (r, xr) # l2) n0"
    and dist: "distinct (map fst (l1 @ (q, xq) # (r, xr) # l2))"
    and new: "new \<notin> fst ` set (l1 @ (q, xq) # (r, xr) # l2)"
    and ext: "blocks_ext m m'" and blk: "blocks m' d = Some (Some x)"
    and q: "nodes m q = Some qn" and r: "nodes m r = Some rn"
    and nodes': "\<And>a. nodes m' a =
      (if a = new then Some \<lparr>nd_data = Some d, nd_prev = Some q, nd_next = Some r\<rparr>
       else if a = q then Some (qn\<lparr>nd_next := Some new\<rparr>)
       else if a = r then Some (rn\<lparr>nd_prev := Some new\<rparr>) else nodes m a)"
  shows "seg m' p0 (l1 @ (q, xq) # (new, Some x) # (r, xr) # l2) n0"
proof -
  from seg have s1: "seg m p0 l1 (Some q)" and dq: "dnode m q (last_or p0 l1) (Some r) xq"
    and dr: "dnode m r (Some q) (first_or l2 n0) xr" and s2: "seg m (Some r) l2 n0"
    by (auto simp: seg_append)
  have "seg m' p0 l1 (Some q)"
    by (rule seg_frame [OF s1 ext]) (use dist new in \<open>auto simp: nodes'\<close>)
  moreover have "seg m' (Some r) l2 n0"
    by (rule seg_frame [OF s2 ext]) (use dist new in \<open>auto simp: nodes'\<close>)
  moreover have "dnode m' q (last_or p0 l1) (Some new) xq"
    by (rule dnode_frame [OF dq ext]) (use q dq new in \<open>auto simp: nodes' dnode_def\<close>)
  moreover have "dnode m' r (Some new) (first_or l2 n0) xr"
    by (rule dnode_frame [OF dr ext]) (use r dr new dist in \<open>auto simp: nodes' dnode_def\<close>)
  moreover have "dnode m' new (Some q) (Some r) (Some x)"
    by (simp add: dnode_def nodes' blk)
  ultimately show ?thesis by (simp add: seg_append)
qed

lemma seg_delete:
  assumes seg: "seg m p0 (l1 @ (q, xq) # (a, xa) # (r, xr) # l2) n0"
    and dist: "distinct (map fst (l1 @ (q, xq) # (a, xa) # (r, xr) # l2))"
    and ext: "blocks_ext m m'"
    and q: "nodes m q = Some qn" and r: "nodes m r = Some rn"
    and nodes': "\<And>b. nodes m' b =
      (if b = a then None else if b = q then Some (qn\<lparr>nd_next := Some r\<rparr>)
       else if b = r then Some (rn\<lparr>nd_prev := Some q\<rparr>) else nodes m b)"
  shows "seg m' p0 (l1 @ (q, xq) # (r, xr) # l2) n0"
proof -
  from seg have s1: "seg m p0 l1 (Some q)" and dq: "dnode m q (last_or p0 l1) (Some a) xq"
    and dr: "dnode m r (Some a) (first_or l2 n0) xr" and s2: "seg m (Some r) l2 n0"
    by (auto simp: seg_append)
  have "seg m' p0 l1 (Some q)"
    by (rule seg_frame [OF s1 ext]) (use dist in \<open>auto simp: nodes'\<close>)
  moreover have "seg m' (Some r) l2 n0"
    by (rule seg_frame [OF s2 ext]) (use dist in \<open>auto simp: nodes'\<close>)
  moreover have "dnode m' q (last_or p0 l1) (Some r) xq"
    by (rule dnode_frame [OF dq ext]) (use q dq dist in \<open>auto simp: nodes' dnode_def\<close>)
  moreover have "dnode m' r (Some q) (first_or l2 n0) xr"
    by (rule dnode_frame [OF dr ext]) (use r dr dist in \<open>auto simp: nodes' dnode_def\<close>)
  ultimately show ?thesis by (simp add: seg_append)
qed

text \<open>
  The whole list: head sentinel, the elements with their node addresses, tail sentinel, as
  drawn in the header comment of \<open>list.h\<close>.
\<close>

definition entries :: "addr \<Rightarrow> addr \<Rightarrow> (addr \<times> 'a) list \<Rightarrow> (addr \<times> 'a option) list" where
  "entries h t ps = (h, None) # map (\<lambda>(a, v). (a, Some v)) ps @ [(t, None)]"

definition fresh_brk :: "'a mem \<Rightarrow> bool" where
  "fresh_brk m \<longleftrightarrow> (\<forall>a \<ge> brk m. nodes m a = None \<and> blocks m a = None)"

definition lrep :: "'a mem \<Rightarrow> 'a clist \<Rightarrow> (addr \<times> 'a) list \<Rightarrow> bool" where
  "lrep m L ps \<longleftrightarrow> (\<exists>h t. l_head L = Some h \<and> l_tail L = Some t \<and>
     distinct (map fst (entries h t ps)) \<and> seg m None (entries h t ps) None \<and>
     l_length L = int (length ps) \<and> fresh_brk m)"

definition list_rep :: "'a mem \<Rightarrow> 'a clist \<Rightarrow> 'a list \<Rightarrow> bool" where
  "list_rep m L xs \<longleftrightarrow> (\<exists>ps. lrep m L ps \<and> map snd ps = xs)"

definition ptr :: "'a clist \<Rightarrow> (addr \<times> 'a) list \<Rightarrow> addr option" where
  "ptr L ps = first_or ps (l_tail L)"

lemma entries_split:
  "entries h t (ps1 @ ps2) =
     ((h, None) # map (\<lambda>(a, v). (a, Some v)) ps1) @ (map (\<lambda>(a, v). (a, Some v)) ps2 @ [(t, None)])"
  by (simp add: entries_def)

lemma entries_gap:
  \<comment> \<open>the two nodes around a position\<close>
  obtains l1 q xq r xr l2 where
    "(h, None) # map (\<lambda>(a, v). (a, Some v)) ps1 = l1 @ [(q, xq)]"
    "map (\<lambda>(a, v). (a, Some v)) ps2 @ [(t, None)] = (r, xr) # l2"
proof -
  obtain l1 e where "(h, None) # map (\<lambda>(a, v). (a, Some v)) ps1 = l1 @ [e]"
    by (metis list.distinct(1) rev_exhaust)
  moreover obtain f l2 where "map (\<lambda>(a, v). (a, Some v)) ps2 @ [(t, None)] = f # l2"
    by (metis append_is_Nil_conv list.distinct(1) list.exhaust)
  ultimately show thesis using that by (metis surj_pair)
qed

lemma first_or_map [simp]: "first_or (map (\<lambda>(a, v). (a, Some v)) ps) n = first_or ps n"
  by (cases ps) auto

lemma last_or_map [simp]: "last_or p (map (\<lambda>(a, v). (a, Some v)) ps) = last_or p ps"
  by (cases ps rule: rev_cases) auto

lemma ptr_simps [simp]: "ptr L [] = l_tail L" "ptr L (e # ps) = Some (fst e)"
  by (simp_all add: ptr_def)

lemma lrep_length: "lrep m L ps \<Longrightarrow> l_length L = int (length ps)"
  by (auto simp: lrep_def)

lemma list_rep_length: "list_rep m L xs \<Longrightarrow> l_length L = int (length xs)"
  by (auto simp: list_rep_def lrep_length)

text \<open>What a traversal sees at each kind of node.\<close>

lemma lrep_node:
  assumes "lrep m L (ps1 @ (a, v) # ps2)"
  shows "\<exists>n. load m (Some a) = ok n \<and> nd_next n = ptr L ps2 \<and> nd_next n \<noteq> None \<and>
    load_data m (nd_data n) = ok v"
proof -
  from assms obtain h t where L: "l_tail L = Some t"
    and "seg m None (entries h t (ps1 @ (a, v) # ps2)) None"
    by (auto simp: lrep_def)
  then have "\<exists>p. dnode m a p (first_or ps2 (Some t)) (Some v)"
    by (auto simp: entries_def seg_append)
  with L show ?thesis
    by (auto simp: dnode_def ptr_def heap_simps) (auto simp: first_or_def split: list.splits)
qed

lemma lrep_tail: "lrep m L ps \<Longrightarrow>
  \<exists>n. load m (l_tail L) = ok n \<and> nd_next n = None \<and> nd_data n = None \<and> nd_prev n = last_or (l_head L) ps"
  by (auto simp: lrep_def entries_def seg_append dnode_def heap_simps)

lemma lrep_head: "lrep m L ps \<Longrightarrow>
  \<exists>n. load m (l_head L) = ok n \<and> nd_next n = ptr L ps \<and> nd_data n = None"
  by (auto simp: lrep_def entries_def dnode_def heap_simps ptr_def)

lemma lrep_front: "lrep m L ps \<Longrightarrow> list_front m L = ok (ptr L ps)"
  using lrep_head [of m L ps] by (auto simp: list_front_def)

lemma lrep_back: "lrep m L ps \<Longrightarrow> list_back m L = ok (last_or (l_head L) ps)"
  using lrep_tail [of m L ps] by (auto simp: list_back_def)

lemma lrep_ends:
  assumes "lrep m L (ps1 @ (a, v) # ps2)"
  shows "l_head L \<noteq> Some a" "l_tail L \<noteq> Some a" "l_head L \<noteq> l_tail L"
  using assms by (auto simp: lrep_def entries_def)

section \<open>What the operations do\<close>

subsection \<open>Insertion\<close>

lemma lrep_insert:
  assumes rep: "lrep m L (ps1 @ ps2)" and new: "brk m \<le> new"
    and gap: "(h, None) # map (\<lambda>(a, v). (a, Some v)) ps1 = l1 @ [(q, xq)]"
      "map (\<lambda>(a, v). (a, Some v)) ps2 @ [(t, None)] = (r, xr) # l2"
    and ends: "l_head L = Some h" "l_tail L = Some t"
    and qr: "nodes m q = Some qn" "nodes m r = Some rn"
    and blks: "blocks m' = (blocks m)(d \<mapsto> Some x)" and d: "brk m \<le> d"
    and nodes': "\<And>a. nodes m' a =
      (if a = new then Some \<lparr>nd_data = Some d, nd_prev = Some q, nd_next = Some r\<rparr>
       else if a = q then Some (qn\<lparr>nd_next := Some new\<rparr>)
       else if a = r then Some (rn\<lparr>nd_prev := Some new\<rparr>) else nodes m a)"
    and brk: "new < brk m'" "d < brk m'" "brk m \<le> brk m'"
    and L': "l_head L' = l_head L" "l_tail L' = l_tail L" "l_length L' = l_length L + 1"
  shows "lrep m' L' (ps1 @ (new, x) # ps2)"
proof -
  let ?E = "entries h t (ps1 @ ps2)"
  have E: "?E = l1 @ (q, xq) # (r, xr) # l2"
    unfolding entries_split gap by simp
  have E': "entries h t (ps1 @ (new, x) # ps2) = l1 @ (q, xq) # (new, Some x) # (r, xr) # l2"
    using gap by (simp add: entries_def)
  from rep ends have dist: "distinct (map fst ?E)" and seg: "seg m None ?E None"
    and fr: "fresh_brk m" and len: "l_length L = int (length (ps1 @ ps2))"
    by (auto simp: lrep_def)
  have live: "nodes m a \<noteq> None" if "a \<in> fst ` set ?E" for a
  proof -
    from that obtain u e w where "?E = u @ e # w" and "fst e = a"
      by (metis (no_types, lifting) imageE split_list)
    with seg show ?thesis by (auto simp: seg_append dnode_def)
  qed
  moreover have "nodes m new = None"
    using fr new by (simp add: fresh_brk_def)
  ultimately have newE: "new \<notin> fst ` set ?E" by blast
  have ext: "blocks_ext m m'"
    using fr d by (auto simp: blocks_ext_def blks fresh_brk_def)
  have "seg m' None (l1 @ (q, xq) # (new, Some x) # (r, xr) # l2) None"
    by (rule seg_insert [OF seg [unfolded E] dist [unfolded E] newE [unfolded E] ext _ qr nodes'])
      (simp add: blks)
  moreover have "distinct (map fst (l1 @ (q, xq) # (new, Some x) # (r, xr) # l2))"
    using dist newE unfolding E by auto
  moreover have "fresh_brk m'"
    using fr brk qr by (auto simp: fresh_brk_def nodes' blks)
  ultimately show ?thesis
    using ends len L' by (simp add: lrep_def E')
qed

lemma lrep_live:
  assumes "lrep m L ps" and "entries h t ps = u @ e # w" and "l_head L = Some h" "l_tail L = Some t"
  shows "\<exists>n. nodes m (fst e) = Some n \<and> fst e < brk m"
proof -
  from assms have "nodes m (fst e) \<noteq> None" and "fresh_brk m"
    by (auto simp: lrep_def seg_append dnode_def)
  then show ?thesis by (force simp: fresh_brk_def not_le [symmetric])
qed

definition push_result :: "'a mem \<Rightarrow> 'a clist \<Rightarrow> (addr \<times> 'a) list \<Rightarrow> 'a mem \<times> 'a clist \<Rightarrow> bool" where
  "push_result m L ps r \<longleftrightarrow> snd r = L\<lparr>l_length := l_length L + 1\<rparr> \<and>
     lrep (fst r) (snd r) ps \<and> avail (fst r) = avail m - 2"

lemma push_back_lrep:
  assumes rep: "lrep m L ps" and av: "2 \<le> avail m" and len: "int_ok (l_length L + 1)"
  shows "\<exists>r. list_push_back m L x = ok r \<and> push_result m L (ps @ [(brk m, x)]) r"
proof -
  from rep obtain h t where ends: "l_head L = Some h" "l_tail L = Some t"
    by (auto simp: lrep_def)
  obtain l1 q xq where gap1: "(h, None) # map (\<lambda>(a, v). (a, Some v)) ps = l1 @ [(q, xq)]"
    using entries_gap [of h ps "[]" t] by metis
  have gap2: "map (\<lambda>(a, v). (a, Some v)) [] @ [(t, None)] = (t, None) # []" by simp
  have E: "entries h t ps = l1 @ (q, xq) # (t, None) # []"
    using gap1 by (simp add: entries_def)
  have E2: "entries h t ps = (l1 @ [(q, xq)]) @ (t, None) # []"
    using E by simp
  from lrep_live [OF rep E ends] obtain qn where q: "nodes m q = Some qn" "q < brk m" by auto
  from lrep_live [OF rep E2 ends] obtain tn where t: "nodes m t = Some tn" "t < brk m" by auto
  from rep ends E have "q \<noteq> t" and p: "nd_prev tn = Some q"
    using t by (auto simp: lrep_def seg_append dnode_def)
  let ?new = "brk m" and ?d = "Suc (brk m)"
  have res: "\<exists>m'. list_push_back m L x = ok (m', L\<lparr>l_length := l_length L + 1\<rparr>) \<and>
    avail m' = avail m - 2 \<and> brk m' = Suc (Suc (brk m)) \<and> blocks m' = (blocks m)(?d \<mapsto> x') \<and>
    nodes m' = (nodes m)(?new \<mapsto> \<lparr>nd_data = Some ?d, nd_prev = Some q, nd_next = Some t\<rparr>,
      q \<mapsto> qn\<lparr>nd_next := Some ?new\<rparr>, t \<mapsto> tn\<lparr>nd_prev := Some ?new\<rparr>)"
    if "x' = Some x" for x'
    using av len q t \<open>q \<noteq> t\<close> p ends that
    by (simp add: list_push_back_def heap_simps fun_upd_twist fun_eq_iff)
  from res [OF refl] obtain m' where run: "list_push_back m L x = ok (m', L\<lparr>l_length := l_length L + 1\<rparr>)"
    and m': "avail m' = avail m - 2" "brk m' = Suc (Suc (brk m))" "blocks m' = (blocks m)(?d \<mapsto> Some x)"
      "nodes m' = (nodes m)(?new \<mapsto> \<lparr>nd_data = Some ?d, nd_prev = Some q, nd_next = Some t\<rparr>,
        q \<mapsto> qn\<lparr>nd_next := Some ?new\<rparr>, t \<mapsto> tn\<lparr>nd_prev := Some ?new\<rparr>)"
    by blast
  have "lrep m' (L\<lparr>l_length := l_length L + 1\<rparr>) (ps @ (?new, x) # [])"
    by (rule lrep_insert [OF _ order_refl gap1 gap2 ends q(1) t(1) m'(3)])
      (use rep q t m' \<open>q \<noteq> t\<close> in \<open>auto simp: fun_upd_apply\<close>)
  with run m'(1) show ?thesis by (auto simp: push_result_def)
qed

lemma push_front_lrep:
  assumes rep: "lrep m L ps" and av: "2 \<le> avail m" and len: "int_ok (l_length L + 1)"
  shows "\<exists>r. list_push_front m L x = ok r \<and> push_result m L ((brk m, x) # ps) r"
proof -
  from rep obtain h t where ends: "l_head L = Some h" "l_tail L = Some t"
    by (auto simp: lrep_def)
  have gap1: "(h, None) # map (\<lambda>(a, v). (a, Some v)) [] = [] @ [(h, None)]" by simp
  obtain r xr l2 where gap2: "map (\<lambda>(a, v). (a, Some v)) ps @ [(t, None)] = (r, xr) # l2"
    using entries_gap [of h "[]" ps t] by metis
  have E: "entries h t ps = [] @ (h, None) # (r, xr) # l2"
    using gap2 by (simp add: entries_def)
  have E2: "entries h t ps = [(h, None)] @ (r, xr) # l2"
    using E by simp
  from lrep_live [OF rep E ends] obtain hn where h: "nodes m h = Some hn" "h < brk m" by auto
  from lrep_live [OF rep E2 ends] obtain rn where r: "nodes m r = Some rn" "r < brk m" by auto
  from rep ends E have "h \<noteq> r" and n: "nd_next hn = Some r"
    using h by (auto simp: lrep_def seg_append dnode_def)
  let ?new = "brk m" and ?d = "Suc (brk m)"
  have res: "\<exists>m'. list_push_front m L x = ok (m', L\<lparr>l_length := l_length L + 1\<rparr>) \<and>
    avail m' = avail m - 2 \<and> brk m' = Suc (Suc (brk m)) \<and> blocks m' = (blocks m)(?d \<mapsto> x') \<and>
    nodes m' = (nodes m)(?new \<mapsto> \<lparr>nd_data = Some ?d, nd_prev = Some h, nd_next = Some r\<rparr>,
      h \<mapsto> hn\<lparr>nd_next := Some ?new\<rparr>, r \<mapsto> rn\<lparr>nd_prev := Some ?new\<rparr>)"
    if "x' = Some x" for x'
    using av len h r \<open>h \<noteq> r\<close> n ends that
    by (simp add: list_push_front_def heap_simps fun_upd_twist fun_eq_iff)
  from res [OF refl] obtain m' where run: "list_push_front m L x = ok (m', L\<lparr>l_length := l_length L + 1\<rparr>)"
    and m': "avail m' = avail m - 2" "brk m' = Suc (Suc (brk m))" "blocks m' = (blocks m)(?d \<mapsto> Some x)"
      "nodes m' = (nodes m)(?new \<mapsto> \<lparr>nd_data = Some ?d, nd_prev = Some h, nd_next = Some r\<rparr>,
        h \<mapsto> hn\<lparr>nd_next := Some ?new\<rparr>, r \<mapsto> rn\<lparr>nd_prev := Some ?new\<rparr>)"
    by blast
  have "lrep m' (L\<lparr>l_length := l_length L + 1\<rparr>) ([] @ (?new, x) # ps)"
    by (rule lrep_insert [OF _ order_refl gap1 gap2 ends h(1) r(1) m'(3)])
      (use rep h r m' \<open>h \<noteq> r\<close> in \<open>auto simp: fun_upd_apply\<close>)
  with run m'(1) show ?thesis by (auto simp: push_result_def)
qed

subsection \<open>Removal\<close>

text \<open>
  Unlinking the node \<open>a\<close> frees the node struct; its element block stays allocated
  (\<open>blocks\<close> is unchanged), for no operation of the list frees it.
\<close>

definition removed :: "'a mem \<Rightarrow> 'a clist \<Rightarrow> addr \<Rightarrow> (addr \<times> 'a) list \<Rightarrow> 'a mem \<times> 'a clist \<Rightarrow> bool"
where
  "removed m L a ps r \<longleftrightarrow> snd r = L\<lparr>l_length := l_length L - 1\<rparr> \<and>
     lrep (fst r) (snd r) ps \<and> nodes (fst r) a = None \<and> blocks (fst r) = blocks m \<and>
     avail (fst r) = avail m"

lemma lrep_around:
  assumes rep: "lrep m L (ps1 @ (a, v) # ps2)"
  obtains h t l1 q xq r xr l2 qn an rn where
    "l_head L = Some h" "l_tail L = Some t"
    "(h, None) # map (\<lambda>(a, v). (a, Some v)) ps1 = l1 @ [(q, xq)]"
    "map (\<lambda>(a, v). (a, Some v)) ps2 @ [(t, None)] = (r, xr) # l2"
    "nodes m q = Some qn" "nodes m a = Some an" "nodes m r = Some rn"
    "nd_prev an = Some q" "nd_next an = Some r" "distinct [q, a, r]"
    "nd_next qn = Some a" "nd_prev rn = Some a"
proof -
  from rep obtain h t where ends: "l_head L = Some h" "l_tail L = Some t"
    by (auto simp: lrep_def)
  obtain l1 q xq r xr l2 where
    gap: "(h, None) # map (\<lambda>(a, v). (a, Some v)) ps1 = l1 @ [(q, xq)]"
      "map (\<lambda>(a, v). (a, Some v)) ps2 @ [(t, None)] = (r, xr) # l2"
    by (rule entries_gap [of h ps1 ps2 t]) (rule that; assumption)
  have E: "entries h t (ps1 @ (a, v) # ps2) = l1 @ (q, xq) # (a, Some v) # (r, xr) # l2"
    using gap by (simp add: entries_def)
  with rep ends obtain qn an rn where
    "nodes m q = Some qn" "nodes m a = Some an" "nodes m r = Some rn"
    "nd_prev an = Some q" "nd_next an = Some r" "distinct [q, a, r]"
    "nd_next qn = Some a" "nd_prev rn = Some a"
    by (auto simp: lrep_def seg_append dnode_def)
  with ends gap show thesis by (rule that)
qed

lemma lrep_delete:
  assumes rep: "lrep m L (ps1 @ (a, v) # ps2)"
    and ends: "l_head L = Some h" "l_tail L = Some t"
    and gap: "(h, None) # map (\<lambda>(a, v). (a, Some v)) ps1 = l1 @ [(q, xq)]"
      "map (\<lambda>(a, v). (a, Some v)) ps2 @ [(t, None)] = (r, xr) # l2"
    and qr: "nodes m q = Some qn" "nodes m r = Some rn"
    and m': "blocks m' = blocks m" "brk m' = brk m"
    and nodes': "nodes m' = (nodes m)(q \<mapsto> qn\<lparr>nd_next := Some r\<rparr>, r \<mapsto> rn\<lparr>nd_prev := Some q\<rparr>, a := None)"
  shows "lrep m' (L\<lparr>l_length := l_length L - 1\<rparr>) (ps1 @ ps2)"
proof -
  have E: "entries h t (ps1 @ (a, v) # ps2) = l1 @ (q, xq) # (a, Some v) # (r, xr) # l2"
    and E': "entries h t (ps1 @ ps2) = l1 @ (q, xq) # (r, xr) # l2"
    using gap by (simp_all add: entries_def)
  from rep ends E have dist: "distinct (map fst (l1 @ (q, xq) # (a, Some v) # (r, xr) # l2))"
    and seg: "seg m None (l1 @ (q, xq) # (a, Some v) # (r, xr) # l2) None"
    and fr: "fresh_brk m" and len: "l_length L = int (length (ps1 @ (a, v) # ps2))"
    by (auto simp: lrep_def)
  have "q \<noteq> r" using dist by auto
  then have nd: "nodes m' b = (if b = a then None else if b = q then Some (qn\<lparr>nd_next := Some r\<rparr>)
      else if b = r then Some (rn\<lparr>nd_prev := Some q\<rparr>) else nodes m b)" for b
    by (simp add: nodes')
  have "seg m' None (l1 @ (q, xq) # (r, xr) # l2) None"
    by (rule seg_delete [OF seg dist _ qr nd]) (simp add: m')
  moreover have "fresh_brk m'"
    using fr qr by (auto simp: fresh_brk_def m' nodes')
  ultimately show ?thesis
    using ends len dist by (auto simp: lrep_def E')
qed

lemma remove_node_lrep:
  assumes rep: "lrep m L (ps1 @ (a, v) # ps2)" and len: "int_ok (l_length L)"
  shows "\<exists>r. list_remove_node m L (Some a) = ok r \<and> removed m L a (ps1 @ ps2) r"
proof -
  from rep obtain h t l1 q xq r xr l2 qn an rn where
    ends: "l_head L = Some h" "l_tail L = Some t" and
    gap: "(h, None) # map (\<lambda>(a, v). (a, Some v)) ps1 = l1 @ [(q, xq)]"
      "map (\<lambda>(a, v). (a, Some v)) ps2 @ [(t, None)] = (r, xr) # l2" and
    n: "nodes m q = Some qn" "nodes m a = Some an" "nodes m r = Some rn"
      "nd_prev an = Some q" "nd_next an = Some r" "distinct [q, a, r]"
    by (rule lrep_around) (rule that; assumption)
  let ?m' = "m\<lparr>nodes := (nodes m)(q \<mapsto> qn\<lparr>nd_next := Some r\<rparr>, r \<mapsto> rn\<lparr>nd_prev := Some q\<rparr>, a := None)\<rparr>"
  have "int_ok (l_length L + - 1)"
    using len lrep_length [OF rep] by (auto simp: int_ok_def INT_MIN_def)
  then have run: "list_remove_node m L (Some a) = ok (?m', L\<lparr>l_length := l_length L - 1\<rparr>)"
    using n lrep_ends [OF rep] by (simp add: list_remove_node_def heap_simps)
  have "lrep ?m' (L\<lparr>l_length := l_length L - 1\<rparr>) (ps1 @ ps2)"
    by (rule lrep_delete [OF rep ends gap n(1,3)]) simp_all
  with run show ?thesis by (auto simp: removed_def)
qed

lemma pop_front_lrep:
  fixes m :: "'a mem"
  assumes rep: "lrep m L ((a, v) # ps)" and len: "int_ok (l_length L)"
  shows "\<exists>r. list_pop_front m L = ok r \<and> removed m L a ps r"
proof -
  from rep have rep': "lrep m L ([] @ (a, v) # ps)" by simp
  then obtain h t l1 q xq r xr l2 qn an rn where
    ends: "l_head L = Some h" "l_tail L = Some t" and
    gap: "(h, None) # map (\<lambda>(a, v). (a, Some v)) ([] :: (addr \<times> 'a) list) = l1 @ [(q, xq)]"
      "map (\<lambda>(a, v). (a, Some v)) ps @ [(t, None)] = (r, xr) # l2" and
    n: "nodes m q = Some qn" "nodes m a = Some an" "nodes m r = Some rn"
      "nd_prev an = Some q" "nd_next an = Some r" "distinct [q, a, r]"
      "nd_next qn = Some a" "nd_prev rn = Some a"
    by (rule lrep_around) (rule that; assumption)
  have q: "q = h" using gap(1) by simp
  let ?m' = "m\<lparr>nodes := (nodes m)(q \<mapsto> qn\<lparr>nd_next := Some r\<rparr>, r \<mapsto> rn\<lparr>nd_prev := Some q\<rparr>, a := None)\<rparr>"
  have "int_ok (l_length L + - 1)"
    using len lrep_length [OF rep] by (auto simp: int_ok_def INT_MIN_def)
  then have run: "list_pop_front m L = ok (?m', L\<lparr>l_length := l_length L - 1\<rparr>)"
    using n lrep_ends [OF rep'] ends by (simp add: list_pop_front_def heap_simps q)
  have "lrep ?m' (L\<lparr>l_length := l_length L - 1\<rparr>) ([] @ ps)"
    by (rule lrep_delete [OF rep' ends gap n(1,3)]) simp_all
  with run show ?thesis by (auto simp: removed_def)
qed

lemma pop_back_lrep:
  fixes m :: "'a mem"
  assumes rep: "lrep m L (ps @ [(a, v)])" and len: "int_ok (l_length L)"
  shows "\<exists>r. list_pop_back m L = ok r \<and> removed m L a ps r"
proof -
  from rep obtain h t l1 q xq r xr l2 qn an rn where
    ends: "l_head L = Some h" "l_tail L = Some t" and
    gap: "(h, None) # map (\<lambda>(a, v). (a, Some v)) ps = l1 @ [(q, xq)]"
      "map (\<lambda>(a, v). (a, Some v)) ([] :: (addr \<times> 'a) list) @ [(t, None)] = (r, xr) # l2" and
    n: "nodes m q = Some qn" "nodes m a = Some an" "nodes m r = Some rn"
      "nd_prev an = Some q" "nd_next an = Some r" "distinct [q, a, r]"
      "nd_next qn = Some a" "nd_prev rn = Some a"
    by (rule lrep_around [of m L ps a v "[]"]) (rule that; assumption)
  have r: "r = t" using gap(2) by simp
  let ?m' = "m\<lparr>nodes := (nodes m)(q \<mapsto> qn\<lparr>nd_next := Some r\<rparr>, r \<mapsto> rn\<lparr>nd_prev := Some q\<rparr>, a := None)\<rparr>"
  have "int_ok (l_length L + - 1)"
    using len lrep_length [OF rep] by (auto simp: int_ok_def INT_MIN_def)
  then have run: "list_pop_back m L = ok (?m', L\<lparr>l_length := l_length L - 1\<rparr>)"
    using n lrep_ends [OF rep] ends
    by (simp add: list_pop_back_def heap_simps r fun_upd_twist)
  have "lrep ?m' (L\<lparr>l_length := l_length L - 1\<rparr>) (ps @ [])"
    by (rule lrep_delete [OF rep ends gap n(1,3)]) simp_all
  with run show ?thesis by (auto simp: removed_def)
qed

lemma pop_empty:
  assumes "lrep m L []"
  shows "list_pop_front m L = ok (m, L)" "list_pop_back m L = ok (m, L)"
  using lrep_head [OF assms] lrep_tail [OF assms]
  by (auto simp: list_pop_front_def list_pop_back_def)

lemma remove_loop_hit:
  assumes "lrep m L (ps1 @ ps2 @ (a, x) # ps3)" and "x \<notin> snd ` set ps2"
  shows "remove_pid_loop m L x (ptr L (ps2 @ (a, x) # ps3)) = list_remove_node m L (Some a)"
  using assms
proof (induction ps2 arbitrary: ps1)
  case Nil
  then show ?case
    using lrep_node [of m L ps1 a x ps3] by (auto simp: remove_pid_loop.simps [of m L x "Some a"])
next
  case (Cons e ps2)
  obtain b y where e: "e = (b, y)" by fastforce
  have "remove_pid_loop m L x (ptr L (ps2 @ (a, x) # ps3)) = list_remove_node m L (Some a)"
    by (rule Cons.IH [of "ps1 @ [e]"]) (use Cons.prems in auto)
  with Cons.prems lrep_node [of m L ps1 b y "ps2 @ (a, x) # ps3"] show ?case
    by (auto simp: e remove_pid_loop.simps [of m L x "Some b"])
qed

lemma remove_loop_miss:
  assumes "lrep m L (ps1 @ ps2)" and "x \<notin> snd ` set ps2"
  shows "remove_pid_loop m L x (ptr L ps2) = ok (m, L)"
  using assms
proof (induction ps2 arbitrary: ps1)
  case Nil
  then show ?case
    using lrep_tail [of m L ps1] by (auto simp: remove_pid_loop.simps [of m L x "l_tail L"])
next
  case (Cons e ps2)
  obtain b y where e: "e = (b, y)" by fastforce
  have "remove_pid_loop m L x (ptr L ps2) = ok (m, L)"
    by (rule Cons.IH [of "ps1 @ [e]"]) (use Cons.prems in auto)
  with Cons.prems lrep_node [of m L ps1 b y ps2] show ?case
    by (auto simp: e remove_pid_loop.simps [of m L x "Some b"])
qed

lemma contains_loop_spec:
  assumes "lrep m L (ps1 @ ps2)" and "\<And>u v. l_compare L u v = 0 \<longleftrightarrow> u = v"
  shows "contains_loop m L x (ptr L ps2) = ok (x \<in> snd ` set ps2)"
  using assms(1)
proof (induction ps2 arbitrary: ps1)
  case Nil
  then show ?case
    using lrep_tail [of m L ps1] by (auto simp: contains_loop.simps [of m L x "l_tail L"])
next
  case (Cons e ps2)
  obtain b y where e: "e = (b, y)" by fastforce
  have "contains_loop m L x (ptr L ps2) = ok (x \<in> snd ` set ps2)"
    by (rule Cons.IH [of "ps1 @ [e]"]) (use Cons.prems in auto)
  moreover obtain n where "load m (Some b) = ok n" "nd_next n = ptr L ps2" "nd_next n \<noteq> None"
      "load_data m (nd_data n) = ok y"
    using lrep_node [OF Cons.prems [unfolded e]] by blast
  ultimately show ?case
    by (auto simp: e assms(2) contains_loop.simps [of m L x "Some b"])
qed

section \<open>The contract of the list\<close>

text \<open>
  A list whose comparison function decides equality represents a sequence. This is what the
  clients of \<open>list.h\<close> rely on.
\<close>

definition crep :: "'a mem \<Rightarrow> 'a clist \<Rightarrow> 'a list \<Rightarrow> bool" where
  "crep m L xs \<longleftrightarrow> list_rep m L xs \<and> (\<forall>u v. l_compare L u v = 0 \<longleftrightarrow> u = v) \<and> int_ok (int (length xs))"

lemma crep_lrep:
  assumes "crep m L xs"
  obtains ps where "lrep m L ps" "map snd ps = xs" "int_ok (l_length L)"
  using assms lrep_length unfolding crep_def list_rep_def by (metis length_map)

lemma crep_length: "crep m L xs \<Longrightarrow> l_length L = int (length xs)"
  by (auto simp: crep_def list_rep_length)

lemma crep_removed:
  assumes "crep m L xs" and "removed m L a ps r" and "map snd ps = ys" and "length ys \<le> length xs"
  shows "crep (fst r) (snd r) ys"
  using assms by (auto simp: crep_def removed_def list_rep_def int_ok_def INT_MIN_def)

lemma crep_pushed:
  assumes "crep m L xs" and "push_result m L ps r" and "map snd ps = ys"
    and "length ys = Suc (length xs)" and "int_ok (int (length xs) + 1)"
  shows "crep (fst r) (snd r) ys"
  using assms by (auto simp: crep_def push_result_def list_rep_def add.commute)

lemma contains_crep: "crep m L xs \<Longrightarrow> list_contains m L x = ok (x \<in> set xs)"
proof -
  assume rep: "crep m L xs"
  then obtain ps where ps: "lrep m L ps" "map snd ps = xs" by (rule crep_lrep)
  have "contains_loop m L x (ptr L ps) = ok (x \<in> snd ` set ps)"
    by (rule contains_loop_spec [of m L "[]"]) (use rep ps in \<open>auto simp: crep_def\<close>)
  then show ?thesis
    using lrep_head [OF ps(1)] ps(2) by (auto simp: list_contains_def)
qed

lemma push_back_crep:
  assumes "crep m L xs" and "2 \<le> avail m" and "int_ok (int (length xs) + 1)"
  shows "\<exists>r. list_push_back m L x = ok r \<and> crep (fst r) (snd r) (xs @ [x]) \<and>
    avail (fst r) = avail m - 2 \<and> snd r = L\<lparr>l_length := l_length L + 1\<rparr>"
proof -
  from assms(1) obtain ps where ps: "lrep m L ps" "map snd ps = xs" by (rule crep_lrep)
  with push_back_lrep [OF ps(1) assms(2), of x] assms(1,3) obtain r
    where "list_push_back m L x = ok r" and r: "push_result m L (ps @ [(brk m, x)]) r"
    by (auto simp: crep_length)
  with crep_pushed [OF assms(1) r, of "xs @ [x]"] ps assms(3) show ?thesis
    by (auto simp: push_result_def)
qed

lemma push_front_crep:
  assumes "crep m L xs" and "2 \<le> avail m" and "int_ok (int (length xs) + 1)"
  shows "\<exists>r. list_push_front m L x = ok r \<and> crep (fst r) (snd r) (x # xs) \<and>
    avail (fst r) = avail m - 2"
proof -
  from assms(1) obtain ps where ps: "lrep m L ps" "map snd ps = xs" by (rule crep_lrep)
  with push_front_lrep [OF ps(1) assms(2), of x] assms(1,3) obtain r
    where "list_push_front m L x = ok r" and r: "push_result m L ((brk m, x) # ps) r"
    by (auto simp: crep_length)
  with crep_pushed [OF assms(1) r, of "x # xs"] ps assms(3) show ?thesis
    by (auto simp: push_result_def)
qed

text \<open>
  Removal frees one node, the first whose element is equal, and leaves every element block
  as it was.
\<close>

lemma remove_pid_hit:
  assumes "crep m L xs" and "lrep m L (ps1 @ (a, x) # ps2)" and "x \<notin> snd ` set ps1"
    and "map snd (ps1 @ (a, x) # ps2) = xs"
  shows "\<exists>r. list_remove_pid m L x = ok r \<and> removed m L a (ps1 @ ps2) r \<and>
    crep (fst r) (snd r) (map snd (ps1 @ ps2))"
proof -
  have "list_remove_pid m L x = list_remove_node m L (Some a)"
    using remove_loop_hit [of m L "[]" ps1 a x ps2] assms lrep_front [OF assms(2)]
    by (simp add: list_remove_pid_def)
  moreover have "int_ok (l_length L)"
    using assms(1) by (auto simp: crep_length crep_def)
  ultimately show ?thesis
    using remove_node_lrep [OF assms(2)] crep_removed [OF assms(1), of a "ps1 @ ps2"] assms(4)
    by fastforce
qed

lemma remove_pid_crep:
  assumes "crep m L xs"
  shows "\<exists>r. list_remove_pid m L x = ok r \<and> crep (fst r) (snd r) (remove1 x xs) \<and>
    avail (fst r) = avail m \<and> blocks (fst r) = blocks m"
proof -
  from assms obtain ps where ps: "lrep m L ps" "map snd ps = xs" by (rule crep_lrep)
  show ?thesis
  proof (cases "x \<in> snd ` set ps")
    case True
    then obtain ps1 a ps2 where split: "ps = ps1 @ (a, x) # ps2" "x \<notin> snd ` set ps1"
      using split_list_first [of x "map snd ps"] by (auto simp: map_eq_append_conv)
    have "remove1 x xs = map snd (ps1 @ ps2)"
      using split ps(2) by (auto simp: remove1_append)
    with remove_pid_hit [OF assms ps(1) [unfolded split(1)] split(2)] ps(2) split(1)
    show ?thesis by (auto simp: removed_def)
  next
    case False
    then have "list_remove_pid m L x = ok (m, L)"
      using remove_loop_miss [of m L "[]" ps x] ps lrep_front [OF ps(1)]
      by (simp add: list_remove_pid_def)
    moreover have "remove1 x xs = xs" using False ps(2) by (auto intro: remove1_idem)
    ultimately show ?thesis using assms by simp
  qed
qed

lemma pop_front_crep:
  assumes "crep m L xs"
  shows "\<exists>r. list_pop_front m L = ok r \<and> crep (fst r) (snd r) (drop 1 xs) \<and> avail (fst r) = avail m"
proof -
  from assms obtain ps where ps: "lrep m L ps" "map snd ps = xs" "int_ok (l_length L)"
    by (rule crep_lrep)
  show ?thesis
  proof (cases ps)
    case Nil
    with ps assms show ?thesis by (auto simp: pop_empty)
  next
    case (Cons e ps')
    then obtain r where "list_pop_front m L = ok r" and r: "removed m L (fst e) ps' r"
      using pop_front_lrep [of m L "fst e" "snd e" ps'] ps by auto
    with crep_removed [OF assms r refl] Cons ps(2) show ?thesis by (auto simp: removed_def)
  qed
qed

lemma pop_back_crep:
  assumes "crep m L xs"
  shows "\<exists>r. list_pop_back m L = ok r \<and> crep (fst r) (snd r) (butlast xs) \<and> avail (fst r) = avail m"
proof -
  from assms obtain ps where ps: "lrep m L ps" "map snd ps = xs" "int_ok (l_length L)"
    by (rule crep_lrep)
  show ?thesis
  proof (cases ps rule: rev_cases)
    case Nil
    with ps assms show ?thesis by (auto simp: pop_empty)
  next
    case (snoc ps' e)
    then obtain r where "list_pop_back m L = ok r" and r: "removed m L (fst e) ps' r"
      using pop_back_lrep [of m L ps' "fst e" "snd e"] ps by auto
    with crep_removed [OF assms r refl] snoc ps(2) show ?thesis by (auto simp: removed_def)
  qed
qed

lemma list_init_crep:
  assumes "3 \<le> avail m" and "fresh_brk m" and "\<And>u v. compare_fn u v = 0 \<longleftrightarrow> u = v"
  shows "\<exists>r. list_init m element_size free_fn compare_fn = ok r \<and> crep (fst r) (snd r) [] \<and>
    avail (fst r) = avail m - 3"
  using assms
  by (auto simp: list_init_def heap_simps crep_def list_rep_def lrep_def entries_def dnode_def
      fresh_brk_def int_ok_def INT_MIN_def INT_MAX_def)

lemma list_init_exhausted:
  assumes "avail m < 3"
  shows "list_init m element_size free_fn compare_fn = err (Exit_Call 1)"
proof -
  from assms have "avail m = 0 \<or> avail m = 1 \<or> avail m = 2" by auto
  then show ?thesis
    by (auto simp: list_init_def malloc_node_def malloc_raw_def)
qed

text \<open>
  A sequence store, as the users of the list see it: a state that represents a sequence, the
  number of allocations it may still make, and the operations with their laws.
\<close>

locale seq_store =
  fixes rep :: "'s \<Rightarrow> 'a list \<Rightarrow> bool"
    and room :: "'s \<Rightarrow> nat"
    and contains :: "'s \<Rightarrow> 'a \<Rightarrow> bool res"
    and push :: "'s \<Rightarrow> 'a \<Rightarrow> 's res"
    and remove :: "'s \<Rightarrow> 'a \<Rightarrow> 's res"
  assumes contains_spec: "rep s xs \<Longrightarrow> contains s x = ok (x \<in> set xs)"
    and push_spec: "rep s xs \<Longrightarrow> 2 \<le> room s \<Longrightarrow> int_ok (int (length xs) + 1) \<Longrightarrow>
      \<exists>s'. push s x = ok s' \<and> rep s' (xs @ [x]) \<and> room s' = room s - 2"
    and remove_spec: "rep s xs \<Longrightarrow>
      \<exists>s'. remove s x = ok s' \<and> rep s' (remove1 x xs) \<and> room s' = room s"
begin

lemma contains_after_push:
  assumes "rep s xs" "2 \<le> room s" "int_ok (int (length xs) + 1)"
  shows "rbind (push s x) (\<lambda>s'. contains s' y) = ok (y = x \<or> y \<in> set xs)"
  using push_spec [OF assms, of x] contains_spec by fastforce

lemma push_remove_roundtrip:
  assumes "rep s xs" "2 \<le> room s" "int_ok (int (length xs) + 1)" "x \<notin> set xs"
  shows "\<exists>s'. rbind (push s x) (\<lambda>s1. remove s1 x) = ok s' \<and> rep s' xs"
proof -
  from push_spec [OF assms(1-3)] obtain s1 where s1: "push s x = ok s1" "rep s1 (xs @ [x])"
    by blast
  moreover obtain s' where "remove s1 x = ok s'" "rep s' (remove1 x (xs @ [x]))"
    using remove_spec [OF s1(2), of x] by blast
  ultimately show ?thesis using assms(4) by (auto simp: remove1_append)
qed

lemma contains_after_remove:
  assumes "rep s xs" "distinct xs"
  shows "rbind (remove s x) (\<lambda>s'. contains s' y) = ok (y \<in> set xs \<and> y \<noteq> x)"
  using remove_spec [OF assms(1), of x] contains_spec assms(2) by (fastforce simp: set_remove1_eq)

end

text \<open>The double ended queue the list is as a whole.\<close>

locale deque_store = seq_store +
  fixes push_front :: "'s \<Rightarrow> 'a \<Rightarrow> 's res"
    and pop_front :: "'s \<Rightarrow> 's res"
    and pop_back :: "'s \<Rightarrow> 's res"
  assumes push_front_spec: "rep s xs \<Longrightarrow> 2 \<le> room s \<Longrightarrow> int_ok (int (length xs) + 1) \<Longrightarrow>
      \<exists>s'. push_front s x = ok s' \<and> rep s' (x # xs) \<and> room s' = room s - 2"
    and pop_front_spec: "rep s xs \<Longrightarrow>
      \<exists>s'. pop_front s = ok s' \<and> rep s' (drop 1 xs) \<and> room s' = room s"
    and pop_back_spec: "rep s xs \<Longrightarrow>
      \<exists>s'. pop_back s = ok s' \<and> rep s' (butlast xs) \<and> room s' = room s"
begin

lemma stack_roundtrip:
  assumes "rep s xs" "2 \<le> room s" "int_ok (int (length xs) + 1)"
  shows "\<exists>s'. rbind (push_front s x) pop_front = ok s' \<and> rep s' xs"
    and "\<exists>s'. rbind (push s x) pop_back = ok s' \<and> rep s' xs"
  using push_front_spec [OF assms, of x] pop_front_spec push_spec [OF assms, of x] pop_back_spec
  by (fastforce)+

end

interpretation cl: deque_store
  "\<lambda>s. crep (fst s) (snd s)" "\<lambda>s. avail (fst s)"
  "\<lambda>s. list_contains (fst s) (snd s)" "\<lambda>s. list_push_back (fst s) (snd s)"
  "\<lambda>s. list_remove_pid (fst s) (snd s)" "\<lambda>s. list_push_front (fst s) (snd s)"
  "\<lambda>s. list_pop_front (fst s) (snd s)" "\<lambda>s. list_pop_back (fst s) (snd s)"
proof unfold_locales
qed (use contains_crep push_back_crep push_front_crep remove_pid_crep pop_front_crep pop_back_crep
     in fastforce)+

section \<open>Properties of the list\<close>

lemma demo_list:
  \<comment> \<open>a list of two elements, for the witnesses\<close>
  obtains m L where "crep m L [7, 9 :: int]" "avail m = 13"
proof -
  let ?m = "\<lparr>nodes = Map.empty, blocks = Map.empty, brk = 0, avail = 20\<rparr> :: int mem"
  obtain r0 where r0: "crep (fst r0) (snd r0) ([] :: int list)" "avail (fst r0) = 17"
    using list_init_crep [of ?m "\<lambda>u v. u - v" 4 "\<lambda>m a. ok m"] by (auto simp: fresh_brk_def)
  obtain r1 where r1: "crep (fst r1) (snd r1) [7 :: int]" "avail (fst r1) = 15"
    using push_back_crep [OF r0(1), of 7] r0(2) by (auto simp: int_ok_small)
  obtain r2 where "crep (fst r2) (snd r2) [7, 9 :: int]" "avail (fst r2) = 13"
    using push_back_crep [OF r1(1), of 9] r1(2) by (auto simp: int_ok_small)
  then show thesis by (rule that)
qed

text \<open>
  C33: \<open>list_remove_pid\<close> on any represented list that holds the element returns, removes
  exactly the first occurrence, frees one node and no element block (the block of the
  removed element is leaked).
\<close>

theorem list_remove_pid_frees_one_node:
  assumes "crep m L xs" "x \<in> set xs"
  shows "\<exists>m' L' a. list_remove_pid m L x = ok (m', L') \<and> crep m' L' (remove1 x xs) \<and>
    nodes m a \<noteq> None \<and> nodes m' a = None \<and> blocks m' = blocks m \<and> l_length L' = l_length L - 1"
proof -
  from assms(1) obtain ps where ps: "lrep m L ps" "map snd ps = xs" by (rule crep_lrep)
  from assms(2) ps(2) obtain ps1 a ps2 where split: "ps = ps1 @ (a, x) # ps2" "x \<notin> snd ` set ps1"
    using split_list_first [of x "map snd ps"] by (auto simp: map_eq_append_conv)
  have "remove1 x xs = map snd (ps1 @ ps2)"
    using split ps(2) by (auto simp: remove1_append)
  moreover have "nodes m a \<noteq> None"
    using lrep_node [of m L ps1 a x ps2] ps(1) split(1) by (auto simp: load_def split: option.splits)
  ultimately show ?thesis
    using remove_pid_hit [OF assms(1) ps(1) [unfolded split(1)] split(2)] ps(2) split(1)
    by (fastforce simp: removed_def)
qed

theorem list_remove_pid_frees_one_node_witness:
  "\<exists>m L m' L'. crep m L [7, 9 :: int] \<and> list_remove_pid m L 7 = ok (m', L') \<and> crep m' L' [9]"
proof -
  obtain m L where rep: "crep m L [7, 9 :: int]" by (rule demo_list)
  from list_remove_pid_frees_one_node [OF rep, of 7] rep show ?thesis by auto
qed

text \<open>
  The list as a set of elements. Every traversal ends, and membership after an insertion
  or a removal is what it should be.
\<close>

theorem list_membership:
  assumes "crep m L xs"
  shows "list_contains m L y = ok (y \<in> set xs) \<and>
    (2 \<le> avail m \<longrightarrow> int_ok (int (length xs) + 1) \<longrightarrow>
      rbind (list_push_back m L x) (\<lambda>(m1, L1). list_contains m1 L1 y) = ok (y = x \<or> y \<in> set xs)) \<and>
    (distinct xs \<longrightarrow>
      rbind (list_remove_pid m L x) (\<lambda>(m1, L1). list_contains m1 L1 y) = ok (y \<in> set xs \<and> y \<noteq> x))"
  using cl.contains_spec [of "(m, L)" xs y] cl.contains_after_push [of "(m, L)" xs x y]
    cl.contains_after_remove [of "(m, L)" xs x y] assms
  by (simp add: case_prod_unfold)

theorem list_membership_witness:
  "\<exists>m L. crep m L [7, 9 :: int] \<and> list_contains m L 9 = ok True \<and> list_contains m L 8 = ok False \<and>
    rbind (list_push_back m L 8) (\<lambda>(m1, L1). list_contains m1 L1 8) = ok True \<and>
    rbind (list_remove_pid m L 7) (\<lambda>(m1, L1). list_contains m1 L1 7) = ok False"
proof -
  obtain m L where rep: "crep m L [7, 9 :: int]" "avail m = 13" by (rule demo_list)
  with list_membership [OF rep(1), of 9] list_membership [OF rep(1), of 8 8]
    list_membership [OF rep(1), of 7 7] show ?thesis
    by (auto simp: int_ok_small)
qed

text \<open>C29: pushing at an end and popping there gives back the same sequence.\<close>

theorem list_push_pop_roundtrip:
  assumes "crep m L xs" "2 \<le> avail m" "int_ok (int (length xs) + 1)"
  shows "(\<exists>m' L'. rbind (list_push_front m L x) (\<lambda>(m1, L1). list_pop_front m1 L1) = ok (m', L') \<and> crep m' L' xs)
    \<and> (\<exists>m' L'. rbind (list_push_back m L x) (\<lambda>(m1, L1). list_pop_back m1 L1) = ok (m', L') \<and> crep m' L' xs)
    \<and> (x \<notin> set xs \<longrightarrow> (\<exists>m' L'. rbind (list_push_back m L x) (\<lambda>(m1, L1). list_remove_pid m1 L1 x) = ok (m', L') \<and>
        crep m' L' xs))"
  using cl.stack_roundtrip [of "(m, L)" xs x] cl.push_remove_roundtrip [of "(m, L)" xs x] assms
  by (simp add: case_prod_unfold)

theorem list_push_pop_roundtrip_witness:
  "\<exists>m L m' L'. crep m L [7, 9 :: int] \<and>
    rbind (list_push_front m L 5) (\<lambda>(m1, L1). list_pop_front m1 L1) = ok (m', L') \<and> crep m' L' [7, 9]"
proof -
  obtain m L where rep: "crep m L [7, 9 :: int]" "avail m = 13" by (rule demo_list)
  with list_push_pop_roundtrip [OF rep(1), of 5] show ?thesis by (auto simp: int_ok_small)
qed

text \<open>
  \<open>list_push_back\<close> does not check its allocations. When the second one fails the write
  goes through a null pointer; \<open>list_init\<close> does check and ends the process.
\<close>

theorem list_out_of_memory:
  assumes "avail m < 2"
  shows "list_push_back m L x = err Null_Deref \<and> list_push_front m L x = err Null_Deref \<and>
    list_init m n f cmp = err (Exit_Call 1)"
proof -
  have "avail m = 0 \<or> avail m = 1" using assms by auto
  then show ?thesis
    using list_init_exhausted [of m n f cmp]
    by (auto simp: list_push_back_def list_push_front_def malloc_node_def malloc_block_def
        malloc_raw_def store_def store_data_def)
qed

theorem list_out_of_memory_witness:
  "\<exists>m. avail m = 1 \<and> (\<forall>L. list_push_back m L (5 :: int) = err Null_Deref)"
  using list_out_of_memory [of "\<lparr>nodes = Map.empty, blocks = Map.empty, brk = 0, avail = 1\<rparr>"]
  by (metis mem.select_convs(4) one_less_numeral_iff semiring_norm(76))

end
