(* ===== verification/ChatServer.thy ===== *)
theory ChatServer
  imports ChatList
begin

text \<open>
  The chat server (\<open>pp_1_server/server.c\<close>, \<open>pp_1_server/chat.h\<close>): the message
  formats, the client registry kept in the list of \<open>list.c\<close>, the handlers of each kind of
  request and the main loop. The named pipes are the environment: the outcome of the n-th
  \<open>open\<close> of a client FIFO, and of the \<open>write\<close> and \<open>close\<close> that follow it, is a parameter.
  Console output is not modelled.
\<close>

section \<open>Messages\<close>

definition MESSAGE_LENGTH :: nat where "MESSAGE_LENGTH = 512"
definition MAX_NUM_CLIENTS :: int where "MAX_NUM_CLIENTS = 100"

record request =
  rq_seq_len :: int
  rq_global :: bool
  rq_system :: bool
  rq_origin :: int
  rq_dest :: int
  rq_message :: "char list"

record response =
  rs_seq_num :: int
  rs_global :: bool
  rs_system :: bool
  rs_origin :: int
  rs_dest :: int
  rs_message :: "char list"

text \<open>Both structs hold an array of \<open>MESSAGE_LENGTH\<close> bytes.\<close>

definition req_wf :: "request \<Rightarrow> bool" where
  "req_wf rq \<longleftrightarrow> length (rq_message rq) = MESSAGE_LENGTH"

definition resp_wf :: "response \<Rightarrow> bool" where
  "resp_wf rs \<longleftrightarrow> length (rs_message rs) = MESSAGE_LENGTH"

section \<open>Named pipes\<close>

text \<open>
  \<open>CLIENT_FIFO_TEMPLATE\<close> is \<open>/tmp/wja35_chat_client.%ld\<close>; \<open>sizeof\<close> counts its terminator.
  \<open>snprintf\<close> keeps at most \<open>CLIENT_FIFO_NAME_LEN - 1\<close> characters.
\<close>

definition fifo_prefix :: string where
  "fifo_prefix = ''/tmp/wja35_chat_client.''"

definition CLIENT_FIFO_NAME_LEN :: nat where
  "CLIENT_FIFO_NAME_LEN = length (fifo_prefix @ ''%ld'') + 1 + 20"

definition client_fifo_name :: "int \<Rightarrow> string" where
  "client_fifo_name pid = take (CLIENT_FIFO_NAME_LEN - 1) (fifo_prefix @ dec_int pid)"

text \<open>
  What happens when a FIFO is opened for writing; then the write of the response and the close may
  fail. \<open>Open_Blocks\<close> stands for a server that waits here for ever: in \<open>open\<close>, for a client that does
  not read, or in the \<open>write\<close> that follows, for room in a FIFO that is full. A FIFO of 64 KiB takes 124
  responses of 528 bytes, and a response, smaller than \<open>PIPE_BUF\<close>, is written whole or not at all, so
  both have the same outcome: the server does not return and nothing has been written.
\<close>

record fifo_io =
  io_open :: open_result
  io_write_ok :: bool
  io_close_ok :: bool

type_synonym fifo_env = "nat \<Rightarrow> string \<Rightarrow> fifo_io"

section \<open>The state of the server\<close>

text \<open>
  \<open>resp\<close> and \<open>seq_num\<close> are the variables of \<open>main\<close> that live across iterations; the clients
  are in the list. \<open>sv_opens\<close> counts the opens so far (it indexes the environment),
  \<open>sv_fds\<close> the client descriptors left open, \<open>sv_out\<close> what was written to which FIFO.
\<close>

record server =
  sv_mem :: "int mem"
  sv_list :: "int clist"
  sv_seq :: int
  sv_resp :: response
  sv_opens :: nat
  sv_fds :: nat
  sv_out :: "(string \<times> response) list"

definition fifo_open :: "fifo_env \<Rightarrow> server \<Rightarrow> string \<Rightarrow> (fifo_io option \<times> server) res" where
  "fifo_open env s path =
     (let io = env (sv_opens s) path; s1 = s\<lparr>sv_opens := Suc (sv_opens s)\<rparr> in
      case io_open io of
        Open_Blocks \<Rightarrow> None
      | Open_Fails \<Rightarrow> ok (None, s1)
      | Opened \<Rightarrow> ok (Some io, s1\<lparr>sv_fds := Suc (sv_fds s1)\<rparr>))"

definition fifo_write :: "fifo_io \<Rightarrow> server \<Rightarrow> string \<Rightarrow> response \<Rightarrow> bool \<times> server" where
  "fifo_write io s path rs =
     (if io_write_ok io then (True, s\<lparr>sv_out := sv_out s @ [(path, rs)]\<rparr>) else (False, s))"

text \<open>A \<open>close\<close> that reports an error has still released the descriptor.\<close>

definition fifo_close :: "fifo_io \<Rightarrow> server \<Rightarrow> bool \<times> server" where
  "fifo_close io s = (io_close_ok io, s\<lparr>sv_fds := sv_fds s - 1\<rparr>)"

section \<open>Helpers of server.c\<close>

definition compare_pidt :: "int \<Rightarrow> int \<Rightarrow> int" where
  "compare_pidt lhs rhs = (if lhs < rhs then -1 else if lhs > rhs then 1 else 0)"

definition free_pidt :: "int mem \<Rightarrow> addr \<Rightarrow> int mem res" where
  "free_pidt m a = (case blocks m a of None \<Rightarrow> err Bad_Deref
     | Some _ \<Rightarrow> ok (m\<lparr>blocks := (blocks m)(a := None)\<rparr>))"

definition send_sys_response :: "fifo_env \<Rightarrow> server \<Rightarrow> request \<Rightarrow> (bool \<times> server) res" where
  "send_sys_response env s rq =
     (let path = client_fifo_name (rq_origin rq) in
      rbind (fifo_open env s path) (\<lambda>(fd, s1).
      case fd of
        None \<Rightarrow> ok (False, s1)
      | Some io \<Rightarrow>
          (case fifo_write io s1 path (sv_resp s1) of (written, s2) \<Rightarrow>
           if \<not> written then ok (False, s2)
           else case fifo_close io s2 of (closed, s3) \<Rightarrow>
             if \<not> closed then ok (False, s3) else ok (True, s3))))"

definition send_msg :: "fifo_env \<Rightarrow> server \<Rightarrow> request \<Rightarrow> (bool \<times> server) res" where
  "send_msg env s rq =
     (let path = client_fifo_name (rq_dest rq) in
      rbind (fifo_open env s path) (\<lambda>(fd, s1).
      case fd of
        None \<Rightarrow> ok (False, s1)
      | Some io \<Rightarrow>
          (case fifo_write io s1 path (sv_resp s1) of (written, s2) \<Rightarrow>
           if \<not> written then ok (False, s2)
           else case fifo_close io s2 of (closed, s3) \<Rightarrow>
             if \<not> closed then ok (False, s3) else ok (True, s3))))"

definition client_remove :: "server \<Rightarrow> int \<Rightarrow> (bool \<times> server) res" where
  "client_remove s pid =
     rbind (list_contains (sv_mem s) (sv_list s) pid) (\<lambda>client_stored.
     if client_stored then
       rbind (list_remove_pid (sv_mem s) (sv_list s) pid) (\<lambda>(m, L).
       ok (True, s\<lparr>sv_mem := m, sv_list := L\<rparr>))
     else ok (False, s))"

text \<open>The parameter \<open>seq_num\<close> of the two system formatters is not used by the code.\<close>

definition resp_format_OK :: "response \<Rightarrow> int \<Rightarrow> int \<Rightarrow> response res" where
  "resp_format_OK rs dest seq_num =
     rbind (c_strcpy (rs_message rs) ''OK'') (\<lambda>msg.
     ok (rs\<lparr>rs_dest := dest, rs_global := False, rs_system := True, rs_message := msg\<rparr>))"

definition resp_format_FAIL :: "response \<Rightarrow> int \<Rightarrow> int \<Rightarrow> response res" where
  "resp_format_FAIL rs dest seq_num =
     rbind (c_strcpy (rs_message rs) ''FAIL'') (\<lambda>msg.
     ok (rs\<lparr>rs_dest := dest, rs_global := False, rs_system := True, rs_message := msg\<rparr>))"

definition resp_format_msg :: "response \<Rightarrow> request \<Rightarrow> int \<Rightarrow> response res" where
  "resp_format_msg rs rq seq_num =
     rbind (cstr (rq_message rq)) (\<lambda>text.
     if length text \<ge> 512 then err Out_Of_Bounds      \<comment> \<open>sprintf into char buffer[512]\<close>
     else rbind (c_strcpy (rs_message rs) text) (\<lambda>msg.
     ok (rs\<lparr>rs_seq_num := seq_num, rs_message := msg, rs_origin := rq_origin rq,
           rs_dest := rq_dest rq, rs_global := rq_global rq\<rparr>)))"

definition req_reset :: "request \<Rightarrow> request" where
  "req_reset rq = rq\<lparr>rq_system := False, rq_global := False\<rparr>"

section \<open>The handlers in the body of main\<close>

text \<open>
  The steps every handler ends with: format the verdict into \<open>resp\<close>, send it to the origin
  (the result of the send is ignored), add \<open>seq_len\<close> to \<open>seq_num\<close>. The reset of \<open>req\<close> that
  follows has no effect on later iterations, which read a whole new request.
\<close>

definition reply_verdict :: "fifo_env \<Rightarrow> server \<Rightarrow> request \<Rightarrow> bool \<Rightarrow> server res" where
  "reply_verdict env s rq success =
     rbind (if success then resp_format_OK (sv_resp s) (rq_origin rq) (sv_seq s)
            else resp_format_FAIL (sv_resp s) (rq_origin rq) (sv_seq s)) (\<lambda>rs.
     rbind (send_sys_response env (s\<lparr>sv_resp := rs\<rparr>) rq) (\<lambda>(sent, s1).
     rbind (c_add (sv_seq s1) (rq_seq_len rq)) (\<lambda>n.
     ok (s1\<lparr>sv_seq := n\<rparr>))))"

definition handle_new_client :: "fifo_env \<Rightarrow> server \<Rightarrow> request \<Rightarrow> server res" where
  "handle_new_client env s rq =
     rbind (list_contains (sv_mem s) (sv_list s) (rq_origin rq)) (\<lambda>client_stored.
     if \<not> client_stored \<and> l_length (sv_list s) < MAX_NUM_CLIENTS then
       rbind (list_push_back (sv_mem s) (sv_list s) (rq_origin rq)) (\<lambda>(m, L).
       reply_verdict env (s\<lparr>sv_mem := m, sv_list := L\<rparr>) rq True)
     else reply_verdict env s rq False)"

definition handle_disconnect :: "fifo_env \<Rightarrow> server \<Rightarrow> request \<Rightarrow> server res" where
  "handle_disconnect env s rq =
     rbind (client_remove s (rq_origin rq)) (\<lambda>(success, s1).
     reply_verdict env s1 rq success)"

text \<open>\<open>check_connection\<close> and every unknown system message are acknowledged alike.\<close>

definition handle_check :: "fifo_env \<Rightarrow> server \<Rightarrow> request \<Rightarrow> server res" where
  "handle_check env s rq = reply_verdict env s rq True"

definition handle_system :: "fifo_env \<Rightarrow> server \<Rightarrow> request \<Rightarrow> server res" where
  "handle_system env s rq =
     rbind (c_streq (rq_message rq) (lit ''new_client'')) (\<lambda>connect.
     if connect then handle_new_client env s rq else
     rbind (c_streq (rq_message rq) (lit ''disconnect_client'')) (\<lambda>disconnect.
     if disconnect then handle_disconnect env s rq else
     rbind (c_streq (rq_message rq) (lit ''check_connection'')) (\<lambda>check.
     if check then handle_check env s rq
     else reply_verdict env s rq True)))"

text \<open>
  The broadcast loop walks the list while it may also remove clients from it: after
  \<open>client_remove\<close> the loop reads \<open>p->next\<close> from the node it has just removed.
\<close>

partial_function (option) broadcast_loop ::
  "fifo_env \<Rightarrow> request \<Rightarrow> addr option \<Rightarrow> bool \<Rightarrow> server \<Rightarrow> (bool \<times> server) res" where
  "broadcast_loop env rq p msg_success s =
     rbind (load (sv_mem s) p) (\<lambda>n.
     if nd_next n = None then ok (msg_success, s)
     else rbind (load_data (sv_mem s) (nd_data n)) (\<lambda>client_pid.
       if compare_pidt client_pid (rq_origin rq) = 0 then broadcast_loop env rq (nd_next n) msg_success s
       else
         rbind (fifo_open env s (client_fifo_name client_pid)) (\<lambda>(fd, s1).
         case fd of
           None \<Rightarrow>
             rbind (client_remove s1 client_pid) (\<lambda>(removed, s2).
             rbind (load (sv_mem s2) p) (\<lambda>n2.
             broadcast_loop env rq (nd_next n2) False s2))
         | Some io \<Rightarrow>
             rbind (resp_format_msg (sv_resp s1) rq (sv_seq s1)) (\<lambda>rs.
             case fifo_write io (s1\<lparr>sv_resp := rs\<rparr>) (client_fifo_name client_pid) rs of (written, s2) \<Rightarrow>
             case fifo_close io s2 of (closed, s3) \<Rightarrow>
             rbind (c_add (sv_seq s3) (rq_seq_len rq)) (\<lambda>k.
             rbind (load (sv_mem s3) p) (\<lambda>n3.
             broadcast_loop env rq (nd_next n3) (msg_success \<and> written \<and> closed)
               (s3\<lparr>sv_seq := k\<rparr>)))))))"

definition handle_global :: "fifo_env \<Rightarrow> server \<Rightarrow> request \<Rightarrow> server res" where
  "handle_global env s rq =
     rbind (list_front (sv_mem s) (sv_list s)) (\<lambda>p.
     rbind (broadcast_loop env rq p True s) (\<lambda>(msg_success, s1).
     reply_verdict env s1 rq msg_success))"

definition handle_direct :: "fifo_env \<Rightarrow> server \<Rightarrow> request \<Rightarrow> server res" where
  "handle_direct env s rq =
     rbind (resp_format_msg (sv_resp s) rq (sv_seq s)) (\<lambda>rs.
     rbind (send_msg env (s\<lparr>sv_resp := rs\<rparr>) rq) (\<lambda>(msg_success, s1).
     rbind (c_add (sv_seq s1) (rq_seq_len rq)) (\<lambda>n.
     reply_verdict env (s1\<lparr>sv_seq := n\<rparr>) rq msg_success)))"

text \<open>A destination that is not registered: the code answers \<open>OK\<close>.\<close>

definition handle_unknown_dest :: "fifo_env \<Rightarrow> server \<Rightarrow> request \<Rightarrow> server res" where
  "handle_unknown_dest env s rq = reply_verdict env s rq True"

definition handle_request :: "fifo_env \<Rightarrow> server \<Rightarrow> request \<Rightarrow> server res" where
  "handle_request env s rq =
     (if rq_system rq then handle_system env s rq
      else if rq_global rq = True then handle_global env s rq
      else rbind (list_contains (sv_mem s) (sv_list s) (rq_dest rq)) (\<lambda>registered.
        if registered then handle_direct env s rq else handle_unknown_dest env s rq))"

section \<open>The main loop\<close>

text \<open>One read of the server FIFO: a whole request, or a short read, which is discarded.\<close>

datatype read_event = Read_Request request | Read_Short

fun server_step :: "fifo_env \<Rightarrow> server \<Rightarrow> read_event \<Rightarrow> server res" where
  "server_step env s Read_Short = ok s"
| "server_step env s (Read_Request rq) = handle_request env s rq"

text \<open>The loop never ends; its state after the reads so far.\<close>

fun server_run :: "fifo_env \<Rightarrow> server \<Rightarrow> read_event list \<Rightarrow> server res" where
  "server_run env s [] = ok s"
| "server_run env s (e # es) = rbind (server_step env s e) (\<lambda>s1. server_run env s1 es)"

record server_setup =
  mkfifo_ok :: bool        \<comment> \<open>\<open>mkfifo\<close> succeeds, or fails with \<open>EEXIST\<close>\<close>
  open_read_ok :: bool
  open_write_ok :: bool
  signal_ok :: bool

text \<open>
  \<open>main\<close> up to its loop. The first \<open>malloc\<close> of the list struct is lost: \<open>list_init\<close> allocates
  its own. \<open>resp\<close> is uninitialised; its bytes are the argument \<open>resp0\<close>.
\<close>

definition server_init :: "server_setup \<Rightarrow> int mem \<Rightarrow> response \<Rightarrow> server res" where
  "server_init su m resp0 =
     (case malloc_raw m of (m0, lost) \<Rightarrow>
      rbind (list_init m0 4 free_pidt compare_pidt) (\<lambda>(m1, L).
      if \<not> mkfifo_ok su then err (Exit_Call 1)
      else if \<not> open_read_ok su then err (Exit_Call 1)
      else if \<not> open_write_ok su then err (Exit_Call 1)
      else if \<not> signal_ok su then err (Exit_Call 1)
      else ok \<lparr>sv_mem = m1, sv_list = L, sv_seq = 0, sv_resp = resp0, sv_opens = 0,
               sv_fds = 0, sv_out = []\<rparr>))"

definition server_main ::
  "fifo_env \<Rightarrow> server_setup \<Rightarrow> int mem \<Rightarrow> response \<Rightarrow> read_event list \<Rightarrow> server res" where
  "server_main env su m resp0 es = rbind (server_init su m resp0) (\<lambda>s. server_run env s es)"

section \<open>The helpers\<close>

lemma compare_pidt_eq: "compare_pidt u v = 0 \<longleftrightarrow> u = v"
  by (simp add: compare_pidt_def)

lemma fifo_prefix_length: "length fifo_prefix = 23"
  by (simp add: fifo_prefix_def)

text \<open>The buffer for the name is large enough for every process id.\<close>

lemma client_fifo_name_whole: "int_ok pid \<Longrightarrow> client_fifo_name pid = fifo_prefix @ dec_int pid"
  using dec_int_length [of pid]
  by (simp add: client_fifo_name_def CLIENT_FIFO_NAME_LEN_def fifo_prefix_length)

lemma resp_format_OK_eq:
  "resp_wf rs \<Longrightarrow> resp_format_OK rs dest n =
     ok (rs\<lparr>rs_dest := dest, rs_global := False, rs_system := True,
           rs_message := ''OK'' @ NUL # drop 3 (rs_message rs)\<rparr>)"
  by (simp add: resp_format_OK_def resp_wf_def MESSAGE_LENGTH_def numeral_3_eq_3)

lemma resp_format_FAIL_eq:
  "resp_wf rs \<Longrightarrow> resp_format_FAIL rs dest n =
     ok (rs\<lparr>rs_dest := dest, rs_global := False, rs_system := True,
           rs_message := ''FAIL'' @ NUL # drop 5 (rs_message rs)\<rparr>)"
  by (simp add: resp_format_FAIL_def resp_wf_def MESSAGE_LENGTH_def eval_nat_numeral)

lemma resp_format_msg_eq:
  assumes "resp_wf rs" "req_wf rq" "cstr (rq_message rq) = ok text"
  shows "resp_format_msg rs rq n =
     ok (rs\<lparr>rs_seq_num := n, rs_message := text @ NUL # drop (Suc (length text)) (rs_message rs),
           rs_origin := rq_origin rq, rs_dest := rq_dest rq, rs_global := rq_global rq\<rparr>)"
  using assms cstr_length [OF assms(3)]
  by (simp add: resp_format_msg_def resp_wf_def req_wf_def MESSAGE_LENGTH_def)

lemma resp_format_msg_ok:
  "resp_format_msg rs rq n = ok rs' \<Longrightarrow> resp_wf rs \<Longrightarrow>
     resp_wf rs' \<and> rs_system rs' = rs_system rs \<and> rs_seq_num rs' = n \<and> rs_origin rs' = rq_origin rq"
  by (auto simp: resp_format_msg_def rbind_eq_ok resp_wf_def dest: c_strcpy_length split: if_splits)

text \<open>The verdict the server sends, with the fields it leaves as they were.\<close>

definition verdict_resp :: "response \<Rightarrow> int \<Rightarrow> bool \<Rightarrow> response" where
  "verdict_resp rs dest success =
     rs\<lparr>rs_dest := dest, rs_global := False, rs_system := True,
        rs_message := (if success then ''OK'' @ NUL # drop 3 (rs_message rs)
                       else ''FAIL'' @ NUL # drop 5 (rs_message rs))\<rparr>"

lemma verdict_resp_wf: "resp_wf rs \<Longrightarrow> resp_wf (verdict_resp rs d b)"
  by (simp add: verdict_resp_def resp_wf_def MESSAGE_LENGTH_def)

lemma verdict_text: "cstr (rs_message (verdict_resp rs d b)) = ok (if b then ''OK'' else ''FAIL'')"
  using cstr_append [of "''OK''"] cstr_append [of "''FAIL''"] by (auto simp: verdict_resp_def)

lemma reply_verdict_eq:
  assumes "resp_wf (sv_resp s)"
  shows "reply_verdict env s rq b =
    rbind (send_sys_response env (s\<lparr>sv_resp := verdict_resp (sv_resp s) (rq_origin rq) b\<rparr>) rq)
      (\<lambda>(sent, s1). rbind (c_add (sv_seq s1) (rq_seq_len rq)) (\<lambda>n. ok (s1\<lparr>sv_seq := n\<rparr>)))"
  using assms
  by (simp add: reply_verdict_def resp_format_OK_eq resp_format_FAIL_eq verdict_resp_def)

subsection \<open>What the sends leave alone\<close>

definition same_core :: "server \<Rightarrow> server \<Rightarrow> bool" where
  "same_core s s' \<longleftrightarrow> sv_mem s' = sv_mem s \<and> sv_list s' = sv_list s \<and> sv_seq s' = sv_seq s \<and>
     sv_resp s' = sv_resp s"

lemma fifo_open_ok:
  "fifo_open env s path = ok (fd, s') \<Longrightarrow> same_core s s' \<and> sv_out s' = sv_out s"
  by (auto simp: fifo_open_def same_core_def Let_def split: open_result.splits)

lemma fifo_write_core: "same_core s (snd (fifo_write io s path rs))"
  by (simp add: fifo_write_def same_core_def)

lemma fifo_close_core: "same_core s (snd (fifo_close io s))"
  by (simp add: fifo_close_def same_core_def)

text \<open>
  Both senders are one function of the path; they return whenever the open does not block,
  and leak the descriptor when the write fails.
\<close>

definition send_to :: "fifo_env \<Rightarrow> server \<Rightarrow> string \<Rightarrow> (bool \<times> server) res" where
  "send_to env s path = (let io = env (sv_opens s) path; s1 = s\<lparr>sv_opens := Suc (sv_opens s)\<rparr> in
     case io_open io of
       Open_Blocks \<Rightarrow> None
     | Open_Fails \<Rightarrow> ok (False, s1)
     | Opened \<Rightarrow>
         if \<not> io_write_ok io then ok (False, s1\<lparr>sv_fds := Suc (sv_fds s)\<rparr>)
         else ok (io_close_ok io, s1\<lparr>sv_out := sv_out s @ [(path, sv_resp s)]\<rparr>))"

lemma send_sys_response_to: "send_sys_response env s rq = send_to env s (client_fifo_name (rq_origin rq))"
  by (simp add: send_sys_response_def send_to_def fifo_open_def fifo_write_def fifo_close_def Let_def
      split: open_result.splits)

lemma send_msg_to: "send_msg env s rq = send_to env s (client_fifo_name (rq_dest rq))"
  by (simp add: send_msg_def send_to_def fifo_open_def fifo_write_def fifo_close_def Let_def
      split: open_result.splits)

lemma send_to_core: "send_to env s path = ok (b, s') \<Longrightarrow> same_core s s'"
  by (auto simp: send_to_def same_core_def Let_def split: open_result.splits if_splits)

section \<open>The invariant\<close>

text \<open>
  \<open>cs\<close> is the client registry: the list holds exactly these process ids, without repetition
  and never more than \<open>MAX_NUM_CLIENTS\<close>.
\<close>

definition server_inv :: "server \<Rightarrow> int list \<Rightarrow> bool" where
  "server_inv s cs \<longleftrightarrow> crep (sv_mem s) (sv_list s) cs \<and> distinct cs \<and>
     int (length cs) \<le> MAX_NUM_CLIENTS \<and> resp_wf (sv_resp s)"

lemma server_inv_core:
  "same_core s s' \<Longrightarrow> server_inv s cs \<Longrightarrow> server_inv s' cs"
  by (simp add: same_core_def server_inv_def)

lemma server_inv_resp: "server_inv s cs \<Longrightarrow> resp_wf rs \<Longrightarrow> server_inv (s\<lparr>sv_resp := rs\<rparr>) cs"
  by (simp add: server_inv_def)

lemma server_inv_seq [simp]: "server_inv (s\<lparr>sv_seq := n\<rparr>) cs = server_inv s cs"
  by (simp add: server_inv_def)

lemma reply_verdict_inv:
  assumes "server_inv s cs" and "reply_verdict env s rq b = ok s'"
  shows "server_inv s' cs"
proof -
  from assms(1) have wf: "resp_wf (sv_resp s)" by (simp add: server_inv_def)
  from assms(2) obtain sent s1 where
    "send_to env (s\<lparr>sv_resp := verdict_resp (sv_resp s) (rq_origin rq) b\<rparr>) (client_fifo_name (rq_origin rq)) = ok (sent, s1)"
    and s': "s' = s1\<lparr>sv_seq := sv_seq s'\<rparr>"
    by (auto simp: reply_verdict_eq [OF wf] send_sys_response_to rbind_eq_ok)
  then have "server_inv s1 cs"
    using send_to_core server_inv_core server_inv_resp [OF assms(1) verdict_resp_wf [OF wf]] by blast
  then show ?thesis by (metis s' server_inv_seq)
qed

lemma client_remove_eq:
  assumes "server_inv s cs"
  shows "\<exists>s'. client_remove s pid = ok (pid \<in> set cs, s') \<and> server_inv s' (remove1 pid cs) \<and>
    s' = s\<lparr>sv_mem := sv_mem s', sv_list := sv_list s'\<rparr> \<and> avail (sv_mem s') = avail (sv_mem s)"
proof -
  from assms have rep: "crep (sv_mem s) (sv_list s) cs" by (simp add: server_inv_def)
  have c: "list_contains (sv_mem s) (sv_list s) pid = ok (pid \<in> set cs)"
    using cl.contains_spec [of "(sv_mem s, sv_list s)"] rep by simp
  show ?thesis
  proof (cases "pid \<in> set cs")
    case True
    obtain m L where "list_remove_pid (sv_mem s) (sv_list s) pid = ok (m, L)"
      "crep m L (remove1 pid cs)" "avail m = avail (sv_mem s)"
      using cl.remove_spec [of "(sv_mem s, sv_list s)" cs pid] rep by auto
    with assms c True show ?thesis
      using length_remove1 [of pid cs] by (auto simp: client_remove_def server_inv_def)
  next
    case False
    with assms c show ?thesis by (auto simp: client_remove_def remove1_idem)
  qed
qed

section \<open>The broadcast over the represented list\<close>

text \<open>
  The same loop over the list of process ids, without pointers. Where the FIFO of a client
  cannot be opened, the pointer version removes that client's node and then reads its
  \<open>next\<close> field: the node has been freed.
\<close>

fun bcast_list :: "fifo_env \<Rightarrow> request \<Rightarrow> int list \<Rightarrow> bool \<Rightarrow> server \<Rightarrow> (bool \<times> server) res" where
  "bcast_list env rq [] flag s = ok (flag, s)"
| "bcast_list env rq (c # cs) flag s =
     (if c = rq_origin rq then bcast_list env rq cs flag s
      else rbind (fifo_open env s (client_fifo_name c)) (\<lambda>(fd, s1).
        case fd of
          None \<Rightarrow> err Bad_Deref
        | Some io \<Rightarrow>
            rbind (resp_format_msg (sv_resp s1) rq (sv_seq s1)) (\<lambda>rs.
            case fifo_write io (s1\<lparr>sv_resp := rs\<rparr>) (client_fifo_name c) rs of (written, s2) \<Rightarrow>
            case fifo_close io s2 of (closed, s3) \<Rightarrow>
            rbind (c_add (sv_seq s3) (rq_seq_len rq)) (\<lambda>k.
            bcast_list env rq cs (flag \<and> written \<and> closed) (s3\<lparr>sv_seq := k\<rparr>)))))"

lemma client_remove_frees:
  assumes "server_inv s (map snd (ps1 @ (a, c) # ps2))"
    and "lrep (sv_mem s) (sv_list s) (ps1 @ (a, c) # ps2)"
  shows "\<exists>s'. client_remove s c = ok (True, s') \<and> load (sv_mem s') (Some a) = err Bad_Deref"
proof -
  let ?cs = "map snd (ps1 @ (a, c) # ps2)"
  from assms(1) have rep: "crep (sv_mem s) (sv_list s) ?cs" and "c \<notin> snd ` set ps1"
    by (auto simp: server_inv_def)
  from remove_pid_hit [OF rep assms(2) this(2) refl] obtain m L where
    "list_remove_pid (sv_mem s) (sv_list s) c = ok (m, L)" "nodes m a = None"
    by (auto simp: removed_def)
  moreover have "list_contains (sv_mem s) (sv_list s) c = ok True"
    using contains_crep [OF rep] by simp
  ultimately show ?thesis by (simp add: client_remove_def load_dead)
qed

lemma broadcast_loop_list:
  assumes "lrep (sv_mem s) (sv_list s) (ps1 @ ps2)"
    and "server_inv s (map snd (ps1 @ ps2))"
  shows "broadcast_loop env rq (ptr (sv_list s) ps2) flag s = bcast_list env rq (map snd ps2) flag s"
  using assms
proof (induction ps2 arbitrary: ps1 flag s)
  case Nil
  then show ?case
    using lrep_tail [of "sv_mem s" "sv_list s" ps1]
    by (auto simp: broadcast_loop.simps [of env rq "l_tail (sv_list s)"])
next
  case (Cons e ps2)
  obtain a c where e: "e = (a, c)" by fastforce
  note rep = Cons.prems(1) [unfolded e] and inv = Cons.prems(2) [unfolded e]
  obtain n p where n: "load (sv_mem s) (Some a) = ok n" "nd_next n = Some p"
      "load_data (sv_mem s) (nd_data n) = ok c" and p: "ptr (sv_list s) ps2 = Some p"
    using lrep_node [OF rep] by (metis not_None_eq)
  have IH: "broadcast_loop env rq (Some p) fl t = bcast_list env rq (map snd ps2) fl t"
    if "sv_mem t = sv_mem s" "sv_list t = sv_list s" "resp_wf (sv_resp t)" for t fl
    using Cons.IH [of t "ps1 @ [e]" fl] rep inv that p by (simp add: e server_inv_def)
  show ?case
  proof (cases "c = rq_origin rq")
    case True
    then show ?thesis
      using n IH [of s flag] inv
      by (simp add: e broadcast_loop.simps [of env rq "Some a"] compare_pidt_eq server_inv_def)
  next
    case False
    note unfold = broadcast_loop.simps [of env rq "Some a"] compare_pidt_eq
    show ?thesis
    proof (cases "fifo_open env s (client_fifo_name c)" rule: res_cases)
      case (ok r)
      obtain fd s1 where r: "r = (fd, s1)" by fastforce
      from fifo_open_ok ok r have core: "same_core s s1" by blast
      show ?thesis
      proof (cases fd)
        case None
        have "server_inv s1 (map snd (ps1 @ (a, c) # ps2))"
          by (rule server_inv_core [OF core inv])
        moreover have "lrep (sv_mem s1) (sv_list s1) (ps1 @ (a, c) # ps2)"
          using core rep by (simp add: same_core_def)
        ultimately obtain s2 where "client_remove s1 c = Prelude.ok (True, s2)"
            "load (sv_mem s2) (Some a) = err Bad_Deref"
          using client_remove_frees by blast
        with n False ok r None show ?thesis by (simp add: e unfold)
      next
        case (Some io)
        show ?thesis
        proof (cases "resp_format_msg (sv_resp s1) rq (sv_seq s1)" rule: res_cases)
          case rs: (ok rs)
          then have wf: "resp_wf rs"
            using resp_format_msg_ok [OF rs] core inv by (simp add: same_core_def server_inv_def)
          obtain b2 s2 where w: "fifo_write io (s1\<lparr>sv_resp := rs\<rparr>) (client_fifo_name c) rs = (b2, s2)"
            by fastforce
          obtain b3 s3 where cl: "fifo_close io s2 = (b3, s3)" by fastforce
          have s3: "sv_mem s3 = sv_mem s" "sv_list s3 = sv_list s" "sv_resp s3 = rs"
            using core fifo_write_core [of "s1\<lparr>sv_resp := rs\<rparr>" io "client_fifo_name c" rs]
              fifo_close_core [of s2 io] w cl by (auto simp: same_core_def)
          show ?thesis
          proof (cases "c_add (sv_seq s3) (rq_seq_len rq)" rule: res_cases)
            case k: (ok k)
            show ?thesis
              using n False ok r Some rs w cl k s3 wf IH [of "s3\<lparr>sv_seq := k\<rparr>"]
              by (simp add: e unfold)
          qed (use n False ok r Some rs w cl in \<open>simp_all add: e unfold\<close>)
        qed (use n False ok r Some in \<open>simp_all add: e unfold\<close>)
      qed
    qed (use n False in \<open>simp_all add: e unfold\<close>)
  qed
qed

lemma handle_global_list:
  assumes "server_inv s cs"
  shows "handle_global env s rq =
    rbind (bcast_list env rq cs True s) (\<lambda>(msg_success, s1). reply_verdict env s1 rq msg_success)"
proof -
  from assms obtain ps where ps: "lrep (sv_mem s) (sv_list s) ps" "map snd ps = cs"
    by (auto simp: server_inv_def elim: crep_lrep)
  then show ?thesis
    using broadcast_loop_list [of s "[]" ps env rq True] assms lrep_front [OF ps(1)]
    by (simp add: handle_global_def)
qed

lemma bcast_list_inv:
  "bcast_list env rq cs flag s = ok (b, s') \<Longrightarrow> server_inv s ds \<Longrightarrow> server_inv s' ds"
proof (induction cs arbitrary: flag s)
  case (Cons c cs)
  show ?case
  proof (cases "c = rq_origin rq")
    case True
    with Cons show ?thesis by simp
  next
    case False
    with Cons.prems(1) obtain io s1 rs where
      op: "fifo_open env s (client_fifo_name c) = ok (Some io, s1)"
      and rs: "resp_format_msg (sv_resp s1) rq (sv_seq s1) = ok rs"
      and rest: "(case fifo_write io (s1\<lparr>sv_resp := rs\<rparr>) (client_fifo_name c) rs of (written, s2) \<Rightarrow>
            case fifo_close io s2 of (closed, s3) \<Rightarrow>
            rbind (c_add (sv_seq s3) (rq_seq_len rq)) (\<lambda>k.
            bcast_list env rq cs (flag \<and> written \<and> closed) (s3\<lparr>sv_seq := k\<rparr>))) = ok (b, s')"
      by (auto simp: rbind_eq_ok split: option.splits)
    obtain b2 s2 where w: "fifo_write io (s1\<lparr>sv_resp := rs\<rparr>) (client_fifo_name c) rs = (b2, s2)"
      by fastforce
    obtain b3 s3 where cl: "fifo_close io s2 = (b3, s3)" by fastforce
    have "server_inv s1 ds"
      using server_inv_core fifo_open_ok [OF op] Cons.prems(2) by blast
    then have "server_inv (s1\<lparr>sv_resp := rs\<rparr>) ds"
      using resp_format_msg_ok [OF rs] by (simp add: server_inv_def)
    then have "server_inv s3 ds"
      using server_inv_core fifo_write_core [of "s1\<lparr>sv_resp := rs\<rparr>" io "client_fifo_name c" rs]
        fifo_close_core [of s2 io] w cl by (metis snd_conv)
    with rest w cl Cons.IH show ?thesis by (auto simp: rbind_eq_ok)
  qed
qed simp

section \<open>Every request keeps the registry\<close>

definition registry_next :: "int list \<Rightarrow> request \<Rightarrow> int list" where
  "registry_next cs rq =
     (if rq_system rq \<and> c_streq (rq_message rq) (lit ''new_client'') = ok True then
        (if rq_origin rq \<notin> set cs \<and> int (length cs) < MAX_NUM_CLIENTS then cs @ [rq_origin rq] else cs)
      else if rq_system rq \<and> c_streq (rq_message rq) (lit ''disconnect_client'') = ok True then
        remove1 (rq_origin rq) cs
      else cs)"

lemma server_contains:
  "server_inv s cs \<Longrightarrow> list_contains (sv_mem s) (sv_list s) pid = ok (pid \<in> set cs)"
  by (simp add: server_inv_def contains_crep)

lemma server_push:
  assumes "server_inv s cs" "c \<notin> set cs" "int (length cs) < MAX_NUM_CLIENTS" "2 \<le> avail (sv_mem s)"
  shows "\<exists>m L. list_push_back (sv_mem s) (sv_list s) c = ok (m, L) \<and>
    server_inv (s\<lparr>sv_mem := m, sv_list := L\<rparr>) (cs @ [c]) \<and> avail m = avail (sv_mem s) - 2"
proof -
  have "int_ok (int (length cs) + 1)"
    using assms(3) by (simp add: MAX_NUM_CLIENTS_def int_ok_def INT_MIN_def INT_MAX_def)
  with cl.push_spec [of "(sv_mem s, sv_list s)" cs c] assms show ?thesis
    by (auto simp: server_inv_def)
qed

lemma push_back_oom:
  assumes "avail m < 2"
  shows "list_push_back m L x = err Null_Deref"
proof -
  have "avail m = 0 \<or> avail m = 1" using assms by auto
  then show ?thesis
    by (auto simp: list_push_back_def malloc_node_def malloc_block_def malloc_raw_def store_def
        store_data_def)
qed

lemma handle_new_client_eq:
  assumes "server_inv s cs"
  shows "handle_new_client env s rq =
    (if rq_origin rq \<notin> set cs \<and> int (length cs) < MAX_NUM_CLIENTS then
       rbind (list_push_back (sv_mem s) (sv_list s) (rq_origin rq)) (\<lambda>(m, L).
       reply_verdict env (s\<lparr>sv_mem := m, sv_list := L\<rparr>) rq True)
     else reply_verdict env s rq False)"
proof -
  from assms have "l_length (sv_list s) = int (length cs)"
    by (auto simp: server_inv_def crep_length)
  then show ?thesis by (simp add: handle_new_client_def server_contains [OF assms])
qed

text \<open>
  Every handler ends with a verdict sent from a state whose registry is already the next one.
\<close>

lemma handle_new_client_last:
  assumes inv: "server_inv s cs" and run: "handle_new_client env s rq = ok s'"
  shows "\<exists>s1 b. reply_verdict env s1 rq b = ok s' \<and> server_inv s1
    (if rq_origin rq \<notin> set cs \<and> int (length cs) < MAX_NUM_CLIENTS then cs @ [rq_origin rq] else cs)"
proof (cases "rq_origin rq \<notin> set cs \<and> int (length cs) < MAX_NUM_CLIENTS")
  case True
  with run obtain m L where p: "list_push_back (sv_mem s) (sv_list s) (rq_origin rq) = ok (m, L)"
    and rv: "reply_verdict env (s\<lparr>sv_mem := m, sv_list := L\<rparr>) rq True = ok s'"
    by (auto simp: handle_new_client_eq [OF inv] rbind_eq_ok)
  have "2 \<le> avail (sv_mem s)" using p push_back_oom [of "sv_mem s"] by force
  with server_push [OF inv, of "rq_origin rq"] True p
  have "server_inv (s\<lparr>sv_mem := m, sv_list := L\<rparr>) (cs @ [rq_origin rq])" by auto
  with rv show ?thesis unfolding if_P [OF True] by blast
next
  case False
  with run have "reply_verdict env s rq False = ok s'"
    by (simp only: handle_new_client_eq [OF inv] if_False)
  with inv show ?thesis unfolding if_not_P [OF False] by blast
qed

lemma handle_direct_last:
  assumes inv: "server_inv s cs" and run: "handle_direct env s rq = ok s'"
  shows "\<exists>s1 b. reply_verdict env s1 rq b = ok s' \<and> server_inv s1 cs"
proof -
  from run obtain rs b s1 n where
    rs: "resp_format_msg (sv_resp s) rq (sv_seq s) = ok rs"
    and snd: "send_msg env (s\<lparr>sv_resp := rs\<rparr>) rq = ok (b, s1)"
    and rv: "reply_verdict env (s1\<lparr>sv_seq := n\<rparr>) rq b = ok s'"
    by (auto simp: handle_direct_def rbind_eq_ok)
  have "server_inv (s\<lparr>sv_resp := rs\<rparr>) cs"
    using inv resp_format_msg_ok [OF rs] by (simp add: server_inv_def)
  then have "server_inv s1 cs"
    using server_inv_core send_to_core snd by (metis send_msg_to)
  with rv show ?thesis using server_inv_seq by blast
qed

lemma handle_request_last:
  assumes inv: "server_inv s cs" and run: "handle_request env s rq = ok s'"
  shows "\<exists>s1 b. reply_verdict env s1 rq b = ok s' \<and> server_inv s1 (registry_next cs rq)"
proof (cases "rq_system rq")
  case True
  with run obtain b1 where b1: "c_streq (rq_message rq) (lit ''new_client'') = ok b1"
    by (auto simp: handle_request_def handle_system_def rbind_eq_ok)
  show ?thesis
  proof (cases b1)
    case connect: True
    with True run b1 have "handle_new_client env s rq = ok s'"
      by (simp add: handle_request_def handle_system_def)
    from handle_new_client_last [OF inv this] show ?thesis
      using True b1 connect by (simp only: registry_next_def simp_thms if_True)
  next
    case False
    with True run b1 obtain b2 where b2: "c_streq (rq_message rq) (lit ''disconnect_client'') = ok b2"
      by (auto simp: handle_request_def handle_system_def rbind_eq_ok)
    show ?thesis
    proof (cases b2)
      case disc: True
      with True False run b1 b2 have "handle_disconnect env s rq = ok s'"
        by (simp add: handle_request_def handle_system_def)
      moreover obtain s1 where "client_remove s (rq_origin rq) = ok (rq_origin rq \<in> set cs, s1)"
        and inv1: "server_inv s1 (remove1 (rq_origin rq) cs)"
        using client_remove_eq [OF inv] by blast
      ultimately have "reply_verdict env s1 rq (rq_origin rq \<in> set cs) = ok s'"
        by (simp add: handle_disconnect_def)
      moreover have "registry_next cs rq = remove1 (rq_origin rq) cs"
        using True False b1 b2 disc by (simp add: registry_next_def)
      ultimately show ?thesis using inv1 by metis
    next
      case other: False
      with True False run b1 b2 have "reply_verdict env s rq True = ok s'"
        by (auto simp: handle_request_def handle_system_def handle_check_def rbind_eq_ok split: if_splits)
      with inv show ?thesis using True False b1 b2 other by (auto simp: registry_next_def)
    qed
  qed
next
  case False
  then have "registry_next cs rq = cs" by (simp add: registry_next_def)
  moreover have "\<exists>s1 b. reply_verdict env s1 rq b = ok s' \<and> server_inv s1 cs"
    using False run inv bcast_list_inv handle_direct_last [OF inv]
    by (fastforce simp: handle_request_def handle_global_list [OF inv] server_contains [OF inv]
        handle_unknown_dest_def rbind_eq_ok split: if_splits)
  ultimately show ?thesis by simp
qed

lemma handle_request_inv:
  "server_inv s cs \<Longrightarrow> handle_request env s rq = ok s' \<Longrightarrow> server_inv s' (registry_next cs rq)"
  using handle_request_last reply_verdict_inv by blast

end
