(* ===== verification/ChatSpec.thy ===== *)
theory ChatSpec
  imports ChatServer
begin

text \<open>
  What the chat server promises: an abstract chat room, and the proof that the server's
  handlers, run over the pointer list and the named pipes, implement it.
\<close>

section \<open>The abstract chat room\<close>

text \<open>The registered clients, the sequence number, and what was said to whom.\<close>

record chat =
  ch_clients :: "int list"
  ch_seq :: int
  ch_sent :: "(int \<times> string) list"

definition msg_text :: "request \<Rightarrow> string" where
  "msg_text rq = takeWhile (\<lambda>c. c \<noteq> NUL) (rq_message rq)"

definition verdict :: "request \<Rightarrow> bool \<Rightarrow> chat \<Rightarrow> chat" where
  "verdict rq b c = c\<lparr>ch_seq := ch_seq c + rq_seq_len rq,
     ch_sent := ch_sent c @ [(rq_origin rq, if b then ''OK'' else ''FAIL'')]\<rparr>"

definition relay :: "request \<Rightarrow> int list \<Rightarrow> chat \<Rightarrow> chat" where
  "relay rq targets c = c\<lparr>ch_seq := ch_seq c + int (length targets) * rq_seq_len rq,
     ch_sent := ch_sent c @ map (\<lambda>t. (t, msg_text rq)) targets\<rparr>"

definition spec_request :: "chat \<Rightarrow> request \<Rightarrow> chat" where
  "spec_request c rq =
     (if rq_system rq then
        (if msg_text rq = ''new_client'' then
           (if rq_origin rq \<notin> set (ch_clients c) \<and> int (length (ch_clients c)) < MAX_NUM_CLIENTS
            then verdict rq True (c\<lparr>ch_clients := ch_clients c @ [rq_origin rq]\<rparr>)
            else verdict rq False c)
         else if msg_text rq = ''disconnect_client'' then
           verdict rq (rq_origin rq \<in> set (ch_clients c))
             (c\<lparr>ch_clients := remove1 (rq_origin rq) (ch_clients c)\<rparr>)
         else verdict rq True c)
      else if rq_global rq then
        verdict rq True (relay rq (filter (\<lambda>x. x \<noteq> rq_origin rq) (ch_clients c)) c)
      else if rq_dest rq \<in> set (ch_clients c) then verdict rq True (relay rq [rq_dest rq] c)
      else verdict rq True c)"

fun spec_run :: "chat \<Rightarrow> read_event list \<Rightarrow> chat" where
  "spec_run c [] = c"
| "spec_run c (Read_Short # es) = spec_run c es"
| "spec_run c (Read_Request rq # es) = spec_run (spec_request c rq) es"

section \<open>The simulation\<close>

definition sent_texts :: "server \<Rightarrow> (string \<times> string res) list" where
  "sent_texts s = map (\<lambda>(path, rs). (path, cstr (rs_message rs))) (sv_out s)"

definition sim :: "server \<Rightarrow> chat \<Rightarrow> bool" where
  "sim s c \<longleftrightarrow> server_inv s (ch_clients c) \<and> sv_seq s = ch_seq c \<and>
     sent_texts s = map (\<lambda>(pid, t). (client_fifo_name pid, ok t)) (ch_sent c)"

text \<open>
  A client that always has its FIFO open for reading, and reads often enough that there is always
  room in it for a response.
\<close>

definition reaches :: "fifo_env \<Rightarrow> int \<Rightarrow> bool" where
  "reaches env pid \<longleftrightarrow> (\<forall>n. env n (client_fifo_name pid) =
     \<lparr>io_open = Opened, io_write_ok = True, io_close_ok = True\<rparr>)"

text \<open>Requests as the client program writes them: whole, terminated, with a length.\<close>

definition valid_req :: "request \<Rightarrow> bool" where
  "valid_req rq \<longleftrightarrow> req_wf rq \<and> NUL \<in> set (rq_message rq) \<and> 0 \<le> rq_seq_len rq"

definition good_outcome :: "server \<Rightarrow> chat \<Rightarrow> server \<Rightarrow> bool" where
  "good_outcome s c s' \<longleftrightarrow> sim s' c \<and> avail (sv_mem s) \<le> avail (sv_mem s') + 2 \<and> sv_fds s' = sv_fds s"

lemma valid_cstr: "valid_req rq \<Longrightarrow> cstr (rq_message rq) = ok (msg_text rq)"
  by (simp add: valid_req_def cstr_def msg_text_def)

lemma send_to_reaches:
  "reaches env pid \<Longrightarrow> send_to env s (client_fifo_name pid) =
     ok (True, s\<lparr>sv_opens := Suc (sv_opens s), sv_out := sv_out s @ [(client_fifo_name pid, sv_resp s)]\<rparr>)"
  by (simp add: reaches_def send_to_def)

lemma reply_sim:
  assumes "reaches env (rq_origin rq)" and "sim s c" and "int_ok (ch_seq c + rq_seq_len rq)"
  shows "\<exists>s'. reply_verdict env s rq b = ok s' \<and> sim s' (verdict rq b c) \<and>
    sv_mem s' = sv_mem s \<and> sv_fds s' = sv_fds s"
proof -
  from assms(2) have wf: "resp_wf (sv_resp s)" and inv: "server_inv s (ch_clients c)"
    by (auto simp: sim_def server_inv_def)
  let ?rs = "verdict_resp (sv_resp s) (rq_origin rq) b"
  let ?s' = "s\<lparr>sv_resp := ?rs, sv_opens := Suc (sv_opens s),
    sv_out := sv_out s @ [(client_fifo_name (rq_origin rq), ?rs)], sv_seq := sv_seq s + rq_seq_len rq\<rparr>"
  have "reply_verdict env s rq b = ok ?s'"
    using assms by (simp add: reply_verdict_eq [OF wf] send_sys_response_to send_to_reaches sim_def)
  moreover have "server_inv ?s' (ch_clients c)"
    using inv verdict_resp_wf [OF wf] by (simp add: server_inv_def)
  ultimately show ?thesis
    using assms(2) by (auto simp: sim_def verdict_def sent_texts_def verdict_text)
qed

text \<open>The sequence number grows by \<open>seq_len\<close> for every message, so the last value bounds all.\<close>

lemma seq_bound:
  fixes len :: int
  assumes "0 \<le> len" "0 \<le> n" "n + int k * len \<le> INT_MAX" "j \<le> k"
  shows "int_ok (n + int j * len)"
proof -
  have "int j * len \<le> int k * len" using assms by (simp add: mult_right_mono)
  moreover have "0 \<le> int j * len" using assms by simp
  ultimately show ?thesis
    using assms unfolding int_ok_def INT_MIN_def by linarith
qed

definition relayed :: "response \<Rightarrow> request \<Rightarrow> int \<Rightarrow> response" where
  "relayed rs rq n = rs\<lparr>rs_seq_num := n,
     rs_message := msg_text rq @ NUL # drop (Suc (length (msg_text rq))) (rs_message rs),
     rs_origin := rq_origin rq, rs_dest := rq_dest rq, rs_global := rq_global rq\<rparr>"

lemma relayed_facts:
  assumes "valid_req rq" "resp_wf rs"
  shows "resp_format_msg rs rq n = ok (relayed rs rq n)" "resp_wf (relayed rs rq n)"
    "cstr (rs_message (relayed rs rq n)) = ok (msg_text rq)"
proof -
  show eq: "resp_format_msg rs rq n = ok (relayed rs rq n)"
    using assms resp_format_msg_eq [OF assms(2) _ valid_cstr]
    by (simp add: relayed_def valid_req_def)
  show "resp_wf (relayed rs rq n)"
    using resp_format_msg_ok [OF eq assms(2)] by blast
  show "cstr (rs_message (relayed rs rq n)) = ok (msg_text rq)"
    using cstr_no_nul [OF valid_cstr [OF assms(1)]] by (simp add: relayed_def)
qed

lemma relay_sim:
  assumes v: "valid_req rq" and s: "sim s c"
    and s': "s' = s\<lparr>sv_opens := k, sv_resp := relayed (sv_resp s) rq (sv_seq s),
      sv_out := sv_out s @ [(client_fifo_name t, relayed (sv_resp s) rq (sv_seq s))],
      sv_seq := sv_seq s + rq_seq_len rq\<rparr>"
  shows "sim s' (relay rq [t] c)"
proof -
  from s have wf: "resp_wf (sv_resp s)" by (simp add: sim_def server_inv_def)
  from s relayed_facts [OF v wf] show ?thesis
    by (simp add: s' sim_def relay_def server_inv_def sent_texts_def)
qed

lemma relay_relay: "relay rq ts (relay rq [t] c) = relay rq (t # ts) c"
  by (simp add: relay_def algebra_simps)

lemma relay_none [simp]: "relay rq [] c = c"
  by (simp add: relay_def)

lemma bcast_sim:
  assumes "valid_req rq" and "\<And>x. x \<in> set cs \<Longrightarrow> x \<noteq> rq_origin rq \<Longrightarrow> reaches env x"
    and "sim s c" and "0 \<le> ch_seq c"
    and "ch_seq c + int (length (filter (\<lambda>x. x \<noteq> rq_origin rq) cs)) * rq_seq_len rq \<le> INT_MAX"
  shows "\<exists>s'. bcast_list env rq cs flag s = ok (flag, s') \<and>
    sim s' (relay rq (filter (\<lambda>x. x \<noteq> rq_origin rq) cs) c) \<and> sv_mem s' = sv_mem s \<and> sv_fds s' = sv_fds s"
  using assms(2-)
proof (induction cs arbitrary: s c)
  case (Cons x cs)
  let ?ts = "filter (\<lambda>x. x \<noteq> rq_origin rq) cs"
  show ?case
  proof (cases "x = rq_origin rq")
    case True
    with Cons show ?thesis by simp
  next
    case False
    have len: "0 \<le> rq_seq_len rq" using assms(1) by (simp add: valid_req_def)
    have wf: "resp_wf (sv_resp s)" using Cons.prems(2) by (simp add: sim_def server_inv_def)
    have ok1: "int_ok (ch_seq c + rq_seq_len rq)"
      using seq_bound [OF len Cons.prems(3) Cons.prems(4), of 1] False by simp
    let ?rs = "relayed (sv_resp s) rq (sv_seq s)"
    let ?s1 = "s\<lparr>sv_opens := Suc (sv_opens s), sv_resp := ?rs,
      sv_out := sv_out s @ [(client_fifo_name x, ?rs)], sv_seq := sv_seq s + rq_seq_len rq\<rparr>"
    have step: "bcast_list env rq (x # cs) flag s = bcast_list env rq cs flag ?s1"
      using False Cons.prems(1) [of x] Cons.prems(2) ok1 relayed_facts(1) [OF assms(1) wf]
      by (simp add: fifo_open_def reaches_def Let_def fifo_write_def fifo_close_def sim_def)
    have sim1: "sim ?s1 (relay rq [x] c)"
      by (rule relay_sim [OF assms(1) Cons.prems(2) refl])
    have "\<exists>s'. bcast_list env rq cs flag ?s1 = ok (flag, s') \<and> sim s' (relay rq ?ts (relay rq [x] c)) \<and>
      sv_mem s' = sv_mem ?s1 \<and> sv_fds s' = sv_fds ?s1"
      by (rule Cons.IH [OF _ sim1])
        (use Cons.prems False len in \<open>auto simp: relay_def algebra_simps\<close>)
    then show ?thesis using False by (simp add: step relay_relay del: bcast_list.simps)
  qed
qed simp

lemma verdict_seq [simp]: "ch_seq (verdict rq b c) = ch_seq c + rq_seq_len rq"
  by (simp add: verdict_def)

lemma relay_seq [simp]: "ch_seq (relay rq ts c) = ch_seq c + int (length ts) * rq_seq_len rq"
  by (simp add: relay_def)

lemma relay_clients [simp]: "ch_clients (relay rq ts c) = ch_clients c"
  by (simp add: relay_def)

lemma spec_seq_mono: "0 \<le> rq_seq_len rq \<Longrightarrow> ch_seq c \<le> ch_seq (spec_request c rq)"
  by (simp add: spec_request_def)

lemma in_range: "0 \<le> n \<Longrightarrow> n \<le> INT_MAX \<Longrightarrow> int_ok n"
  by (simp add: int_ok_def INT_MIN_def)

lemma sim_clients:
  assumes "sim s c" and "server_inv (s\<lparr>sv_mem := m, sv_list := L\<rparr>) cs"
  shows "sim (s\<lparr>sv_mem := m, sv_list := L\<rparr>) (c\<lparr>ch_clients := cs\<rparr>)"
  using assms by (simp add: sim_def sent_texts_def)

lemma system_streq:
  assumes "valid_req rq" "NUL \<notin> set t"
  shows "c_streq (rq_message rq) (lit t) = ok (msg_text rq = t)"
  by (rule c_streq_cstr [OF valid_cstr [OF assms(1)] assms(2)])

lemma new_client_sim:
  assumes "reaches env (rq_origin rq)" "sim s c" "int_ok (ch_seq c + rq_seq_len rq)"
    "2 \<le> avail (sv_mem s)"
  shows "\<exists>s'. handle_new_client env s rq = ok s' \<and> good_outcome s
    (if rq_origin rq \<notin> set (ch_clients c) \<and> int (length (ch_clients c)) < MAX_NUM_CLIENTS
     then verdict rq True (c\<lparr>ch_clients := ch_clients c @ [rq_origin rq]\<rparr>) else verdict rq False c) s'"
proof -
  have inv: "server_inv s (ch_clients c)" using assms(2) by (simp add: sim_def)
  show ?thesis
  proof (cases "rq_origin rq \<notin> set (ch_clients c) \<and> int (length (ch_clients c)) < MAX_NUM_CLIENTS")
    case True
    then obtain m L where p: "list_push_back (sv_mem s) (sv_list s) (rq_origin rq) = ok (m, L)"
      "server_inv (s\<lparr>sv_mem := m, sv_list := L\<rparr>) (ch_clients c @ [rq_origin rq])"
      "avail m = avail (sv_mem s) - 2"
      using server_push [OF inv] assms(4) by blast
    have "\<exists>s'. reply_verdict env (s\<lparr>sv_mem := m, sv_list := L\<rparr>) rq True = ok s' \<and>
      sim s' (verdict rq True (c\<lparr>ch_clients := ch_clients c @ [rq_origin rq]\<rparr>)) \<and>
      sv_mem s' = m \<and> sv_fds s' = sv_fds s"
      using reply_sim [OF assms(1) sim_clients [OF assms(2) p(2)]] assms(3) by simp
    with True p show ?thesis
      by (auto simp: handle_new_client_eq [OF inv] good_outcome_def)
  next
    case False
    with reply_sim [OF assms(1-3), of False] show ?thesis
      by (simp only: handle_new_client_eq [OF inv] good_outcome_def if_False) auto
  qed
qed

lemma disconnect_sim:
  assumes "reaches env (rq_origin rq)" "sim s c" "int_ok (ch_seq c + rq_seq_len rq)"
  shows "\<exists>s'. handle_disconnect env s rq = ok s' \<and> good_outcome s
    (verdict rq (rq_origin rq \<in> set (ch_clients c))
      (c\<lparr>ch_clients := remove1 (rq_origin rq) (ch_clients c)\<rparr>)) s'"
proof -
  have inv: "server_inv s (ch_clients c)" using assms(2) by (simp add: sim_def)
  let ?b = "rq_origin rq \<in> set (ch_clients c)"
  obtain s1 where r: "client_remove s (rq_origin rq) = ok (?b, s1)"
    "server_inv s1 (remove1 (rq_origin rq) (ch_clients c))"
    and s1: "s1 = s\<lparr>sv_mem := sv_mem s1, sv_list := sv_list s1\<rparr>"
    and av: "avail (sv_mem s1) = avail (sv_mem s)"
    using client_remove_eq [OF inv] by blast
  from s1 r(2) have "sim s1 (c\<lparr>ch_clients := remove1 (rq_origin rq) (ch_clients c)\<rparr>)"
    using sim_clients [OF assms(2)] by metis
  from reply_sim [OF assms(1) this, of ?b] assms(3) obtain s' where
    "reply_verdict env s1 rq ?b = ok s'"
    "sim s' (verdict rq ?b (c\<lparr>ch_clients := remove1 (rq_origin rq) (ch_clients c)\<rparr>))"
    "sv_mem s' = sv_mem s1" "sv_fds s' = sv_fds s1"
    by auto
  moreover have "sv_fds s1 = sv_fds s" by (subst s1) simp
  ultimately show ?thesis using r(1) av by (auto simp: handle_disconnect_def good_outcome_def)
qed

lemma verdict_sim:
  assumes "reaches env (rq_origin rq)" "sim s c" "int_ok (ch_seq c + rq_seq_len rq)"
  shows "\<exists>s'. reply_verdict env s rq b = ok s' \<and> good_outcome s (verdict rq b c) s'"
  using reply_sim [OF assms, of b] by (auto simp: good_outcome_def)

lemma global_sim:
  assumes "valid_req rq" "\<And>x. x \<in> set (ch_clients c) \<Longrightarrow> x \<noteq> rq_origin rq \<Longrightarrow> reaches env x"
    and "reaches env (rq_origin rq)" "sim s c" "0 \<le> ch_seq c"
    and "ch_seq (verdict rq True (relay rq (filter (\<lambda>x. x \<noteq> rq_origin rq) (ch_clients c)) c)) \<le> INT_MAX"
  shows "\<exists>s'. handle_global env s rq = ok s' \<and>
    good_outcome s (verdict rq True (relay rq (filter (\<lambda>x. x \<noteq> rq_origin rq) (ch_clients c)) c)) s'"
proof -
  let ?ts = "filter (\<lambda>x. x \<noteq> rq_origin rq) (ch_clients c)"
  have inv: "server_inv s (ch_clients c)" using assms(4) by (simp add: sim_def)
  have len: "0 \<le> rq_seq_len rq" using assms(1) by (simp add: valid_req_def)
  obtain s1 where s1: "bcast_list env rq (ch_clients c) True s = ok (True, s1)"
    "sim s1 (relay rq ?ts c)" "sv_mem s1 = sv_mem s" "sv_fds s1 = sv_fds s"
    using bcast_sim [OF assms(1,2,4,5)] assms(6) len by fastforce
  have "int_ok (ch_seq (relay rq ?ts c) + rq_seq_len rq)"
    using assms(5,6) len by (intro in_range) auto
  from verdict_sim [OF assms(3) s1(2) this, of True] s1 show ?thesis
    by (auto simp: handle_global_list [OF inv] good_outcome_def)
qed

lemma direct_sim:
  assumes v: "valid_req rq" and "reaches env (rq_dest rq)" "reaches env (rq_origin rq)"
    and s: "sim s c" "0 \<le> ch_seq c" and "ch_seq (verdict rq True (relay rq [rq_dest rq] c)) \<le> INT_MAX"
  shows "\<exists>s'. handle_direct env s rq = ok s' \<and>
    good_outcome s (verdict rq True (relay rq [rq_dest rq] c)) s'"
proof -
  have len: "0 \<le> rq_seq_len rq" using v by (simp add: valid_req_def)
  have wf: "resp_wf (sv_resp s)" using s by (simp add: sim_def server_inv_def)
  have ok1: "int_ok (sv_seq s + rq_seq_len rq)"
    and ok2: "int_ok (ch_seq (relay rq [rq_dest rq] c) + rq_seq_len rq)"
    using s assms(6) len by (auto intro!: in_range simp: sim_def)
  let ?rs = "relayed (sv_resp s) rq (sv_seq s)"
  let ?s1 = "s\<lparr>sv_opens := Suc (sv_opens s), sv_resp := ?rs,
    sv_out := sv_out s @ [(client_fifo_name (rq_dest rq), ?rs)], sv_seq := sv_seq s + rq_seq_len rq\<rparr>"
  have "handle_direct env s rq = reply_verdict env ?s1 rq True"
    using relayed_facts(1) [OF v wf] ok1
    by (cases s) (simp add: handle_direct_def send_msg_to send_to_reaches [OF assms(2)])
  moreover have "sim ?s1 (relay rq [rq_dest rq] c)"
    by (rule relay_sim [OF v s(1) refl])
  ultimately show ?thesis
    using verdict_sim [OF assms(3) _ ok2, of ?s1 True] by (auto simp: good_outcome_def)
qed

text \<open>One request.\<close>

lemma request_sim:
  assumes v: "valid_req rq" and reach: "\<And>pid. reaches env pid"
    and s: "sim s c" "0 \<le> ch_seq c" and bound: "ch_seq (spec_request c rq) \<le> INT_MAX"
    and av: "2 \<le> avail (sv_mem s)"
  shows "\<exists>s'. handle_request env s rq = ok s' \<and> good_outcome s (spec_request c rq) s'"
proof -
  have len: "0 \<le> rq_seq_len rq" using v by (simp add: valid_req_def)
  have inv: "server_inv s (ch_clients c)" using s by (simp add: sim_def)
  have lits: "NUL \<notin> set ''new_client''" "NUL \<notin> set ''disconnect_client''"
      "NUL \<notin> set ''check_connection''" by simp_all
  note streq = system_streq [OF v lits(1)] system_streq [OF v lits(2)] system_streq [OF v lits(3)]
  consider (sys) "rq_system rq" | (glob) "\<not> rq_system rq" "rq_global rq"
    | (direct) "\<not> rq_system rq" "\<not> rq_global rq" "rq_dest rq \<in> set (ch_clients c)"
    | (unknown) "\<not> rq_system rq" "\<not> rq_global rq" "rq_dest rq \<notin> set (ch_clients c)"
    by blast
  then show ?thesis
  proof cases
    case sys
    then have "ch_seq (spec_request c rq) = ch_seq c + rq_seq_len rq"
      by (simp add: spec_request_def)
    with bound s(2) len have ok1: "int_ok (ch_seq c + rq_seq_len rq)" by (intro in_range) auto
    note sims = new_client_sim [OF reach s(1) ok1 av] disconnect_sim [OF reach s(1) ok1]
      verdict_sim [OF reach s(1) ok1, of True]
    show ?thesis
      using sys sims by (simp add: handle_request_def handle_system_def handle_check_def streq spec_request_def)
  next
    case glob
    then show ?thesis
      using global_sim [OF v reach reach s] bound by (simp add: handle_request_def spec_request_def)
  next
    case direct
    then show ?thesis
      using direct_sim [OF v reach reach s] bound
      by (simp add: handle_request_def spec_request_def server_contains [OF inv])
  next
    case unknown
    then have "int_ok (ch_seq c + rq_seq_len rq)"
      using bound s(2) len by (intro in_range) (auto simp: spec_request_def)
    with unknown verdict_sim [OF reach s(1) this, of True] show ?thesis
      by (simp add: handle_request_def spec_request_def server_contains [OF inv] handle_unknown_dest_def)
  qed
qed

text \<open>A whole run.\<close>

definition valid_event :: "read_event \<Rightarrow> bool" where
  "valid_event e = (case e of Read_Short \<Rightarrow> True | Read_Request rq \<Rightarrow> valid_req rq)"

lemma spec_run_mono: "(\<And>e. e \<in> set es \<Longrightarrow> valid_event e) \<Longrightarrow> ch_seq c \<le> ch_seq (spec_run c es)"
proof (induction c es rule: spec_run.induct)
  case (3 c rq es)
  from "3.prems" [of "Read_Request rq"] have "0 \<le> rq_seq_len rq"
    by (simp add: valid_event_def valid_req_def)
  with 3 show ?case using spec_seq_mono [of rq c] by force
qed (auto simp: valid_event_def)

lemma run_sim:
  assumes "\<And>pid. reaches env pid" and "\<And>e. e \<in> set es \<Longrightarrow> valid_event e"
    and "sim s c" and "0 \<le> ch_seq c" and "ch_seq (spec_run c es) \<le> INT_MAX"
    and "2 * length es \<le> avail (sv_mem s)"
  shows "\<exists>s'. server_run env s es = ok s' \<and> sim s' (spec_run c es) \<and> sv_fds s' = sv_fds s"
  using assms(2-)
proof (induction es arbitrary: s c)
  case (Cons e es)
  show ?case
  proof (cases e)
    case Read_Short
    with Cons show ?thesis by simp
  next
    case (Read_Request rq)
    with Cons.prems(1) [of e] have v: "valid_req rq" by (simp add: valid_event_def)
    then have "ch_seq c \<le> ch_seq (spec_request c rq)"
      by (simp add: spec_seq_mono valid_req_def)
    moreover have "ch_seq (spec_request c rq) \<le> ch_seq (spec_run c (e # es))"
      using spec_run_mono [of es] Cons.prems(1) Read_Request by simp
    ultimately obtain s1 where s1: "handle_request env s rq = ok s1" "sim s1 (spec_request c rq)"
      "avail (sv_mem s) \<le> avail (sv_mem s1) + 2" "sv_fds s1 = sv_fds s"
      using request_sim [OF v assms(1) Cons.prems(2,3)] Cons.prems(4,5) by (fastforce simp: good_outcome_def)
    have "\<exists>s'. server_run env s1 es = ok s' \<and> sim s' (spec_run (spec_request c rq) es) \<and> sv_fds s' = sv_fds s1"
      by (rule Cons.IH [OF _ s1(2)])
        (use Cons.prems s1(3) Read_Request \<open>ch_seq c \<le> ch_seq (spec_request c rq)\<close> in auto)
    with s1 Read_Request show ?thesis by simp
  qed
qed simp

section \<open>Start of the server\<close>

lemma server_init_ok:
  assumes "mkfifo_ok su" "open_read_ok su" "open_write_ok su" "signal_ok su"
    and "fresh_brk m" "4 \<le> avail m" "resp_wf resp0"
  shows "\<exists>s. server_init su m resp0 = ok s \<and> server_inv s [] \<and> sv_seq s = 0 \<and> sv_out s = [] \<and>
    sv_fds s = 0 \<and> avail (sv_mem s) = avail m - 4"
proof -
  let ?m0 = "m\<lparr>brk := Suc (brk m), avail := avail m - 1\<rparr>"
  have raw: "malloc_raw m = (?m0, Some (brk m))" using assms(6) by (simp add: malloc_raw_def)
  have "3 \<le> avail ?m0" "fresh_brk ?m0" using assms(5,6) by (auto simp: fresh_brk_def)
  from list_init_crep [OF this compare_pidt_eq, of 4 free_pidt] obtain m1 L where
    "list_init ?m0 4 free_pidt compare_pidt = ok (m1, L)" "crep m1 L []" "avail m1 = avail m - 4"
    by auto
  with raw assms show ?thesis by (simp add: server_init_def server_inv_def MAX_NUM_CLIENTS_def)
qed

lemma server_init_inv:
  assumes "server_init su m resp0 = ok s" "fresh_brk m" "resp_wf resp0"
  shows "server_inv s []"
proof -
  have "4 \<le> avail m"
  proof (rule ccontr)
    assume less: "\<not> 4 \<le> avail m"
    have "avail (fst (malloc_raw m)) < 3" using less by (auto simp: malloc_raw_def)
    from list_init_exhausted [OF this] assms(1) show False
      by (simp add: server_init_def split: prod.splits)
  qed
  moreover have "mkfifo_ok su" "open_read_ok su" "open_write_ok su" "signal_ok su"
    using assms(1) by (auto simp: server_init_def rbind_eq_ok split: prod.splits if_splits)
  ultimately show ?thesis using server_init_ok [OF _ _ _ _ assms(2) _ assms(3)] assms(1) by fastforce
qed

lemma server_run_inv:
  "server_run env s es = ok s' \<Longrightarrow> server_inv s cs \<Longrightarrow> \<exists>cs'. server_inv s' cs'"
proof (induction es arbitrary: s cs)
  case (Cons e es)
  then show ?case
    by (cases e) (auto simp: rbind_eq_ok dest: handle_request_inv)
qed auto

lemma demo_state:
  \<comment> \<open>a server with two registered clients, for the witnesses\<close>
  obtains s where "server_inv s [10, 20]" "sv_seq s = 0" "sv_out s = []" "8 \<le> avail (sv_mem s)"
proof -
  let ?m = "\<lparr>nodes = Map.empty, blocks = Map.empty, brk = 0, avail = 100\<rparr> :: int mem"
  let ?su = "\<lparr>mkfifo_ok = True, open_read_ok = True, open_write_ok = True, signal_ok = True\<rparr>"
  let ?r = "\<lparr>rs_seq_num = 0, rs_global = False, rs_system = False, rs_origin = 0, rs_dest = 0,
    rs_message = replicate 512 NUL\<rparr>"
  obtain s0 where s0: "server_inv s0 []" "sv_seq s0 = 0" "sv_out s0 = []" "avail (sv_mem s0) = 96"
    using server_init_ok [of ?su ?m ?r] by (auto simp: fresh_brk_def resp_wf_def MESSAGE_LENGTH_def)
  then obtain m1 L1 where 1: "server_inv (s0\<lparr>sv_mem := m1, sv_list := L1\<rparr>) [10]" "avail m1 = 94"
    using server_push [OF s0(1), of 10] by (auto simp: MAX_NUM_CLIENTS_def)
  then obtain m2 L2 where "server_inv (s0\<lparr>sv_mem := m2, sv_list := L2\<rparr>) [10, 20]" "avail m2 = 92"
    using server_push [OF 1(1), of 20] by (auto simp: MAX_NUM_CLIENTS_def)
  then show thesis using that [of "s0\<lparr>sv_mem := m2, sv_list := L2\<rparr>"] s0 by simp
qed

definition demo_req :: "bool \<Rightarrow> bool \<Rightarrow> int \<Rightarrow> string \<Rightarrow> request" where
  "demo_req sys glob dest t = \<lparr>rq_seq_len = 528, rq_global = glob, rq_system = sys, rq_origin = 10,
     rq_dest = dest, rq_message = t @ NUL # replicate (511 - length t) NUL\<rparr>"

definition demo_env :: "int \<Rightarrow> open_result \<Rightarrow> fifo_env" where
  "demo_env pid r = (\<lambda>n path. \<lparr>io_open = (if path = client_fifo_name pid then r else Opened),
     io_write_ok = True, io_close_ok = True\<rparr>)"

lemma client_fifo_name_inject:
  "int_ok p \<Longrightarrow> int_ok q \<Longrightarrow> client_fifo_name p = client_fifo_name q \<longleftrightarrow> p = q"
  by (auto simp: client_fifo_name_whole dest: dec_int_inject)

lemma demo_reaches: "reaches (demo_env pid Opened) q"
  "int_ok p \<Longrightarrow> int_ok q \<Longrightarrow> p \<noteq> q \<Longrightarrow> reaches (demo_env p r) q"
  by (auto simp: reaches_def demo_env_def client_fifo_name_inject)

lemma demo_req_fields [simp]:
  "rq_seq_len (demo_req sys glob dest t) = 528" "rq_global (demo_req sys glob dest t) = glob"
  "rq_system (demo_req sys glob dest t) = sys" "rq_origin (demo_req sys glob dest t) = 10"
  "rq_dest (demo_req sys glob dest t) = dest"
  by (simp_all add: demo_req_def)

lemma demo_open [simp]: "io_open (demo_env pid r n (client_fifo_name pid)) = r"
  by (simp add: demo_env_def)

lemma demo_valid: "NUL \<notin> set t \<Longrightarrow> length t < 512 \<Longrightarrow> valid_req (demo_req sys glob dest t)"
  "NUL \<notin> set t \<Longrightarrow> msg_text (demo_req sys glob dest t) = t"
  by (auto simp: valid_req_def req_wf_def demo_req_def MESSAGE_LENGTH_def msg_text_def takeWhile_nul)

lemma bcast_list_append:
  "bcast_list env rq (xs @ ys) flag s =
     rbind (bcast_list env rq xs flag s) (\<lambda>(fl, s1). bcast_list env rq ys fl s1)"
proof (induction xs arbitrary: flag s)
  case (Cons x xs)
  show ?case
    by (cases "x = rq_origin rq")
      (auto simp: Cons rbind_assoc split: option.splits prod.splits
        intro!: arg_cong [where f = "rbind _"] ext)
qed simp

lemma bcast_dead_client:
  assumes v: "valid_req rq" and s: "sim s c" "0 \<le> ch_seq c"
    and cs: "ch_clients c = pre @ x # post" "x \<noteq> rq_origin rq"
    and reach: "\<And>y. y \<in> set pre \<Longrightarrow> reaches env y"
    and bound: "ch_seq c + int (length pre) * rq_seq_len rq \<le> INT_MAX"
  obtains s1 fl where "bcast_list env rq (ch_clients c) True s =
    rbind (fifo_open env s1 (client_fifo_name x)) (\<lambda>(fd, s2). case fd of None \<Rightarrow> err Bad_Deref
      | Some io \<Rightarrow> bcast_list env rq (x # post) fl s1)"
proof -
  have len: "0 \<le> rq_seq_len rq" using v by (simp add: valid_req_def)
  have "int (length (filter (\<lambda>x. x \<noteq> rq_origin rq) pre)) * rq_seq_len rq \<le> int (length pre) * rq_seq_len rq"
    using len length_filter_le by (intro mult_right_mono) auto
  with bound have "ch_seq c + int (length (filter (\<lambda>x. x \<noteq> rq_origin rq) pre)) * rq_seq_len rq \<le> INT_MAX"
    by linarith
  with bcast_sim [OF v reach s, of pre True] obtain s1 where
    s1: "bcast_list env rq pre True s = ok (True, s1)" by blast
  have "bcast_list env rq (x # post) True s1 =
    rbind (fifo_open env s1 (client_fifo_name x)) (\<lambda>(fd, s2). case fd of None \<Rightarrow> err Bad_Deref
      | Some io \<Rightarrow> bcast_list env rq (x # post) True s1)"
  proof (cases "fifo_open env s1 (client_fifo_name x)" rule: res_cases)
    case (ok r)
    then show ?thesis using cs(2) by (cases r; cases "fst r") auto
  qed (use cs(2) in auto)
  with s1 cs(1) that show thesis by (simp add: bcast_list_append del: bcast_list.simps)
qed

lemma reply_verdict_system:
  assumes "server_inv s cs" "reply_verdict env s rq b = ok s'"
  shows "rs_system (sv_resp s')"
proof -
  from assms(1) have wf: "resp_wf (sv_resp s)" by (simp add: server_inv_def)
  from assms(2) show ?thesis
    by (auto simp: reply_verdict_eq [OF wf] send_sys_response_to rbind_eq_ok same_core_def verdict_resp_def
        dest!: send_to_core)
qed

lemma handle_request_system:
  assumes "server_inv s cs" "handle_request env s rq = ok s'"
  shows "rs_system (sv_resp s')"
  using handle_request_last [OF assms] reply_verdict_system by metis

section \<open>Properties of the server\<close>

text \<open>
  C1: the server refines the abstract chat room. Over named pipes that are always open for
  reading, and for requests as the client writes them, the whole program (start, list
  pointers, formatting, replies, sequence numbers) returns from every request and reaches
  the state the abstract chat room reaches, and leaves no descriptor open.
\<close>

theorem server_refines_chat:
  assumes "mkfifo_ok su" "open_read_ok su" "open_write_ok su" "signal_ok su"
    and "fresh_brk m" "4 + 2 * length es \<le> avail m" "resp_wf resp0"
    and "\<And>pid. reaches env pid" "\<And>e. e \<in> set es \<Longrightarrow> valid_event e"
    and "ch_seq (spec_run \<lparr>ch_clients = [], ch_seq = 0, ch_sent = []\<rparr> es) \<le> INT_MAX"
  shows "\<exists>s. server_main env su m resp0 es = ok s \<and> sv_fds s = 0 \<and>
    sim s (spec_run \<lparr>ch_clients = [], ch_seq = 0, ch_sent = []\<rparr> es)"
proof -
  let ?c = "\<lparr>ch_clients = [], ch_seq = 0, ch_sent = []\<rparr> :: chat"
  obtain s0 where s0: "server_init su m resp0 = ok s0" "server_inv s0 []" "sv_seq s0 = 0"
    "sv_out s0 = []" "sv_fds s0 = 0" "avail (sv_mem s0) = avail m - 4"
    using server_init_ok [OF assms(1-5) _ assms(7)] assms(6) by auto
  then have "sim s0 ?c" by (simp add: sim_def sent_texts_def)
  moreover have "2 * length es \<le> avail (sv_mem s0)" using assms(6) s0(6) by simp
  ultimately obtain s where "server_run env s0 es = ok s" "sim s (spec_run ?c es)" "sv_fds s = sv_fds s0"
    using run_sim [OF assms(8,9), of es s0 ?c] assms(10) by auto
  with s0 show ?thesis by (auto simp: server_main_def)
qed

theorem server_refines_chat_witness:
  "\<exists>s. server_main (demo_env 1 Opened)
     \<lparr>mkfifo_ok = True, open_read_ok = True, open_write_ok = True, signal_ok = True\<rparr>
     \<lparr>nodes = Map.empty, blocks = Map.empty, brk = 0, avail = 20\<rparr>
     \<lparr>rs_seq_num = 0, rs_global = False, rs_system = False, rs_origin = 0, rs_dest = 0,
       rs_message = replicate 512 NUL\<rparr>
     [Read_Request (demo_req True False 0 ''new_client''), Read_Request (demo_req False False 10 ''hello'')]
     = ok s \<and> sv_fds s = 0 \<and>
   sim s (spec_run \<lparr>ch_clients = [], ch_seq = 0, ch_sent = []\<rparr>
     [Read_Request (demo_req True False 0 ''new_client''), Read_Request (demo_req False False 10 ''hello'')])"
proof (rule server_refines_chat)
  show "e \<in> set [Read_Request (demo_req True False 0 ''new_client''),
      Read_Request (demo_req False False 10 ''hello'')] \<Longrightarrow> valid_event e" for e
    by (auto simp: valid_event_def intro!: demo_valid)
  show "ch_seq (spec_run \<lparr>ch_clients = [], ch_seq = 0, ch_sent = []\<rparr>
      [Read_Request (demo_req True False 0 ''new_client''),
       Read_Request (demo_req False False 10 ''hello'')]) \<le> INT_MAX"
    by (simp add: spec_request_def demo_valid(2) INT_MAX_def MAX_NUM_CLIENTS_def verdict_def relay_def)
qed (simp_all add: demo_reaches fresh_brk_def resp_wf_def MESSAGE_LENGTH_def)

text \<open>
  C17: whatever the named pipes do and whatever is read, a run that has not failed keeps the
  client registry a well-formed list of at most 100 process ids without repetition.
\<close>

theorem server_registry_invariant:
  assumes "server_main env su m resp0 es = ok s" "fresh_brk m" "resp_wf resp0"
  shows "\<exists>cs. crep (sv_mem s) (sv_list s) cs \<and> distinct cs \<and> length cs \<le> 100 \<and>
    l_length (sv_list s) = int (length cs)"
proof -
  from assms(1) obtain s0 where "server_init su m resp0 = ok s0" "server_run env s0 es = ok s"
    by (auto simp: server_main_def rbind_eq_ok)
  with server_init_inv [OF _ assms(2,3)] server_run_inv obtain cs where "server_inv s cs" by blast
  then show ?thesis
    by (auto simp: server_inv_def MAX_NUM_CLIENTS_def intro: crep_length)
qed

theorem server_registry_invariant_witness:
  "\<exists>s cs. server_main (demo_env 1 Opened)
     \<lparr>mkfifo_ok = True, open_read_ok = True, open_write_ok = True, signal_ok = True\<rparr>
     \<lparr>nodes = Map.empty, blocks = Map.empty, brk = 0, avail = 20\<rparr>
     \<lparr>rs_seq_num = 0, rs_global = False, rs_system = False, rs_origin = 0, rs_dest = 0,
       rs_message = replicate 512 NUL\<rparr> [Read_Short] = ok s \<and> crep (sv_mem s) (sv_list s) cs"
proof -
  let ?m = "\<lparr>nodes = Map.empty, blocks = Map.empty, brk = 0, avail = 20\<rparr> :: int mem"
  let ?su = "\<lparr>mkfifo_ok = True, open_read_ok = True, open_write_ok = True, signal_ok = True\<rparr>"
  let ?r = "\<lparr>rs_seq_num = 0, rs_global = False, rs_system = False, rs_origin = 0, rs_dest = 0,
    rs_message = replicate 512 NUL\<rparr>"
  have h: "fresh_brk ?m" "resp_wf ?r" by (simp_all add: fresh_brk_def resp_wf_def MESSAGE_LENGTH_def)
  obtain s where s: "server_main (demo_env 1 Opened) ?su ?m ?r [Read_Short] = ok s"
    using server_init_ok [of ?su ?m ?r] h by (auto simp: server_main_def)
  with server_registry_invariant [OF s h] show ?thesis by blast
qed

text \<open>
  C34: a broadcast with an unreachable client is a use after free. If the FIFO of a registered
  client other than the sender cannot be opened, the loop removes the client, which frees
  its node, and then reads the \<open>next\<close> pointer of that node.
\<close>

theorem broadcast_unreachable_use_after_free:
  assumes "valid_req rq" "\<not> rq_system rq" "rq_global rq" and "sim s c" "0 \<le> ch_seq c"
    and "ch_clients c = pre @ x # post" "x \<noteq> rq_origin rq" "\<And>y. y \<in> set pre \<Longrightarrow> reaches env y"
    and "ch_seq c + int (length pre) * rq_seq_len rq \<le> INT_MAX"
    and "\<And>n. io_open (env n (client_fifo_name x)) = Open_Fails"
  shows "handle_request env s rq = err Bad_Deref"
proof -
  have inv: "server_inv s (ch_clients c)" using assms(4) by (simp add: sim_def)
  obtain s1 fl where "bcast_list env rq (ch_clients c) True s =
    rbind (fifo_open env s1 (client_fifo_name x)) (\<lambda>(fd, s2). case fd of None \<Rightarrow> err Bad_Deref
      | Some io \<Rightarrow> bcast_list env rq (x # post) fl s1)"
    by (rule bcast_dead_client [OF assms(1,4-9)])
  then show ?thesis
    using assms(2,3,10) by (simp add: handle_request_def handle_global_list [OF inv] fifo_open_def)
qed

theorem broadcast_unreachable_use_after_free_witness:
  "\<exists>s. server_inv s [10, 20] \<and>
    handle_request (demo_env 20 Open_Fails) s (demo_req False True 0 ''hi'') = err Bad_Deref"
proof -
  obtain s where s: "server_inv s [10, 20]" "sv_seq s = 0" "sv_out s = []" by (rule demo_state)
  have "handle_request (demo_env 20 Open_Fails) s (demo_req False True 0 ''hi'') = err Bad_Deref"
  proof (rule broadcast_unreachable_use_after_free
      [where c = "\<lparr>ch_clients = [10, 20], ch_seq = 0, ch_sent = []\<rparr>" and pre = "[10]" and x = 20 and post = "[]"])
    show "sim s \<lparr>ch_clients = [10, 20], ch_seq = 0, ch_sent = []\<rparr>"
      using s by (simp add: sim_def sent_texts_def)
  qed (auto simp: INT_MAX_def intro!: demo_valid(1) demo_reaches(2) int_ok_small)
  with s show ?thesis by blast
qed

text \<open>
  A client whose FIFO exists and is opened by nobody stops the server. The server never
  returns from a broadcast that reaches it: no later request is served.
\<close>

theorem broadcast_blocked_client_hangs:
  assumes "valid_req rq" "\<not> rq_system rq" "rq_global rq" and "sim s c" "0 \<le> ch_seq c"
    and "ch_clients c = pre @ x # post" "x \<noteq> rq_origin rq" "\<And>y. y \<in> set pre \<Longrightarrow> reaches env y"
    and "ch_seq c + int (length pre) * rq_seq_len rq \<le> INT_MAX"
    and "\<And>n. io_open (env n (client_fifo_name x)) = Open_Blocks"
  shows "server_run env s (Read_Request rq # es) = None"
proof -
  have inv: "server_inv s (ch_clients c)" using assms(4) by (simp add: sim_def)
  obtain s1 fl where "bcast_list env rq (ch_clients c) True s =
    rbind (fifo_open env s1 (client_fifo_name x)) (\<lambda>(fd, s2). case fd of None \<Rightarrow> err Bad_Deref
      | Some io \<Rightarrow> bcast_list env rq (x # post) fl s1)"
    by (rule bcast_dead_client [OF assms(1,4-9)])
  then show ?thesis
    using assms(2,3,10) by (simp add: handle_request_def handle_global_list [OF inv] fifo_open_def)
qed

theorem broadcast_blocked_client_hangs_witness:
  "\<exists>s. server_inv s [10, 20] \<and>
    server_run (demo_env 20 Open_Blocks) s [Read_Request (demo_req False True 0 ''hi''), Read_Short] = None"
proof -
  obtain s where s: "server_inv s [10, 20]" "sv_seq s = 0" "sv_out s = []" by (rule demo_state)
  have "server_run (demo_env 20 Open_Blocks) s [Read_Request (demo_req False True 0 ''hi''), Read_Short] = None"
  proof (rule broadcast_blocked_client_hangs
      [where c = "\<lparr>ch_clients = [10, 20], ch_seq = 0, ch_sent = []\<rparr>" and pre = "[10]" and x = 20 and post = "[]"])
    show "sim s \<lparr>ch_clients = [10, 20], ch_seq = 0, ch_sent = []\<rparr>"
      using s by (simp add: sim_def sent_texts_def)
  qed (auto simp: INT_MAX_def intro!: demo_valid(1) demo_reaches(2) int_ok_small)
  with s show ?thesis by blast
qed

text \<open>
  A message to a process id that is not registered is acknowledged with \<open>OK\<close>: the only
  thing written is the verdict to the sender, nothing is delivered.
\<close>

theorem unknown_destination_acknowledged:
  assumes "\<not> rq_system rq" "\<not> rq_global rq" "server_inv s cs" "rq_dest rq \<notin> set cs"
    and "reaches env (rq_origin rq)" "int_ok (sv_seq s + rq_seq_len rq)"
  shows "\<exists>s' rs. handle_request env s rq = ok s' \<and> server_inv s' cs \<and>
    sv_out s' = sv_out s @ [(client_fifo_name (rq_origin rq), rs)] \<and> cstr (rs_message rs) = ok ''OK''"
proof -
  from assms(3) have wf: "resp_wf (sv_resp s)" by (simp add: server_inv_def)
  have "\<exists>s'. reply_verdict env s rq True = ok s' \<and> sv_out s' = sv_out s @
      [(client_fifo_name (rq_origin rq), verdict_resp (sv_resp s) (rq_origin rq) True)]"
    using assms(6) by (simp add: reply_verdict_eq [OF wf] send_sys_response_to send_to_reaches [OF assms(5)])
  with reply_verdict_inv [OF assms(3)] assms(1,2,4) verdict_text [of "sv_resp s" "rq_origin rq" True]
  show ?thesis
    by (fastforce simp: handle_request_def server_contains [OF assms(3)] handle_unknown_dest_def)
qed

theorem unknown_destination_acknowledged_witness:
  "\<exists>s s' rs. server_inv s [10, 20] \<and>
    handle_request (demo_env 1 Opened) s (demo_req False False 99 ''hi'') = ok s' \<and>
    sv_out s' = [(client_fifo_name 10, rs)] \<and> cstr (rs_message rs) = ok ''OK''"
proof -
  obtain s where s: "server_inv s [10, 20]" "sv_seq s = 0" "sv_out s = []" by (rule demo_state)
  have "\<exists>s' rs. handle_request (demo_env 1 Opened) s (demo_req False False 99 ''hi'') = ok s' \<and>
    server_inv s' [10, 20] \<and>
    sv_out s' = sv_out s @ [(client_fifo_name (rq_origin (demo_req False False 99 ''hi'')), rs)] \<and>
    cstr (rs_message rs) = ok ''OK''"
    by (rule unknown_destination_acknowledged) (use s in \<open>simp_all add: demo_reaches int_ok_small\<close>)
  with s show ?thesis by auto
qed

text \<open>
  After any request the response buffer is marked as a system message, and formatting a
  chat message does not clear the mark: every chat message relayed after the first request
  reaches its client with the \<open>system\<close> flag set.
\<close>

theorem relayed_message_marked_system:
  assumes "handle_request env s rq = ok s1" "server_inv s cs"
    and "resp_format_msg (sv_resp s1) rq2 (sv_seq s1) = ok rs"
  shows "rs_system rs \<and> rs_seq_num rs = sv_seq s1 \<and> rs_origin rs = rq_origin rq2"
proof -
  have wf: "resp_wf (sv_resp s1)"
    using handle_request_inv [OF assms(2,1)] by (simp add: server_inv_def)
  have "rs_system (sv_resp s1)"
    using handle_request_system [OF assms(2,1)] .
  with resp_format_msg_ok [OF assms(3) wf] show ?thesis by simp
qed

theorem relayed_message_marked_system_witness:
  "\<exists>s s1 rs. handle_request (demo_env 1 Opened) s (demo_req True False 0 ''check_connection'') = ok s1 \<and>
    resp_format_msg (sv_resp s1) (demo_req False False 20 ''hi'') (sv_seq s1) = ok rs \<and> rs_system rs"
proof -
  obtain s where s: "server_inv s [10, 20]" "sv_seq s = 0" "sv_out s = []" "8 \<le> avail (sv_mem s)"
    by (rule demo_state)
  let ?c = "\<lparr>ch_clients = [10, 20], ch_seq = 0, ch_sent = []\<rparr> :: chat"
  let ?rq = "demo_req True False 0 ''check_connection''" and ?rq2 = "demo_req False False 20 ''hi''"
  have v: "valid_req ?rq" "valid_req ?rq2" by (auto intro!: demo_valid)
  have "sim s ?c" using s by (simp add: sim_def sent_texts_def)
  from request_sim [OF v(1) demo_reaches(1) this, of 1] s obtain s1 where
    s1: "handle_request (demo_env 1 Opened) s ?rq = ok s1"
    by (auto simp: spec_request_def demo_valid INT_MAX_def)
  have "resp_wf (sv_resp s1)"
    using handle_request_inv [OF s(1) s1] by (simp add: server_inv_def)
  from relayed_facts(1) [OF v(2) this] obtain rs where
    rs: "resp_format_msg (sv_resp s1) ?rq2 (sv_seq s1) = ok rs" by blast
  from relayed_message_marked_system [OF s1 s(1) rs] s1 rs show ?thesis by blast
qed

text \<open>C7: distinct process ids have distinct client FIFO names, which fit the name buffer.\<close>

theorem client_fifo_names_distinct:
  assumes "int_ok p" "int_ok q" "client_fifo_name p = client_fifo_name q"
  shows "p = q \<and> length (client_fifo_name p) < CLIENT_FIFO_NAME_LEN"
  using assms client_fifo_name_inject [OF assms(1,2)] dec_int_length [OF assms(1)]
  by (simp add: client_fifo_name_whole CLIENT_FIFO_NAME_LEN_def fifo_prefix_length)

theorem client_fifo_names_distinct_witness:
  "client_fifo_name 4711 = ''/tmp/wja35_chat_client.4711'' \<and>
   length (client_fifo_name 4711) < CLIENT_FIFO_NAME_LEN"
proof -
  have "length (client_fifo_name 4711) < CLIENT_FIFO_NAME_LEN"
    using client_fifo_names_distinct [of 4711 4711] by (simp add: int_ok_small)
  moreover have "client_fifo_name 4711 = ''/tmp/wja35_chat_client.4711''"
    by (simp add: client_fifo_name_whole int_ok_small fifo_prefix_def dec_int_def dec_nat.simps digit_def)
      code_simp
  ultimately show ?thesis by blast
qed

text \<open>
  Every branch of the reply to the sender. It blocks with the open, fails without a trace
  when the open fails, leaves the descriptor open when the write fails, and otherwise has
  written the response and closed the descriptor, whatever \<open>close\<close> reports.
\<close>

theorem send_sys_response_branches:
  "send_sys_response env s rq =
    (let path = client_fifo_name (rq_origin rq); io = env (sv_opens s) path;
         s1 = s\<lparr>sv_opens := Suc (sv_opens s)\<rparr> in
     case io_open io of
       Open_Blocks \<Rightarrow> None
     | Open_Fails \<Rightarrow> ok (False, s1)
     | Opened \<Rightarrow>
         if \<not> io_write_ok io then ok (False, s1\<lparr>sv_fds := sv_fds s + 1\<rparr>)
         else ok (io_close_ok io, s1\<lparr>sv_out := sv_out s @ [(path, sv_resp s)]\<rparr>))"
  by (simp add: send_sys_response_to send_to_def Let_def split: open_result.split)

definition out_view :: "string \<times> response \<Rightarrow> string \<times> int \<times> int \<times> string res" where
  "out_view e = (fst e, rs_seq_num (snd e), rs_origin (snd e), cstr (rs_message (snd e)))"

definition relay_views :: "request \<Rightarrow> int \<Rightarrow> int list \<Rightarrow> (string \<times> int \<times> int \<times> string res) list" where
  "relay_views rq n ts = map (\<lambda>(k, t). (client_fifo_name t, n + int k * rq_seq_len rq, rq_origin rq,
     ok (msg_text rq))) (enumerate 0 ts)"

lemma relay_views_Cons:
  "relay_views rq n (t # ts) =
     (client_fifo_name t, n, rq_origin rq, ok (msg_text rq)) # relay_views rq (n + rq_seq_len rq) ts"
  by (auto simp: relay_views_def enumerate_Suc_eq algebra_simps)

lemma bcast_out:
  assumes "valid_req rq" and "\<And>x. x \<in> set cs \<Longrightarrow> x \<noteq> rq_origin rq \<Longrightarrow> reaches env x"
    and "resp_wf (sv_resp s)" and "bcast_list env rq cs flag s = ok (b, s')"
  shows "\<exists>out. sv_out s' = sv_out s @ out \<and> length out = length (filter (\<lambda>x. x \<noteq> rq_origin rq) cs) \<and>
    map out_view out = relay_views rq (sv_seq s) (filter (\<lambda>x. x \<noteq> rq_origin rq) cs)"
  using assms(2-)
proof (induction cs arbitrary: flag s)
  case Nil
  then show ?case by (simp add: relay_views_def)
next
  case (Cons x cs)
  show ?case
  proof (cases "x = rq_origin rq")
    case True
    with Cons show ?thesis by simp
  next
    case False
    let ?rs = "relayed (sv_resp s) rq (sv_seq s)"
    let ?s1 = "s\<lparr>sv_opens := Suc (sv_opens s), sv_resp := ?rs,
      sv_out := sv_out s @ [(client_fifo_name x, ?rs)], sv_seq := sv_seq s + rq_seq_len rq\<rparr>"
    note facts = relayed_facts [OF assms(1) Cons.prems(2), of "sv_seq s"]
    have "bcast_list env rq (x # cs) flag s =
        rbind (c_add (sv_seq s) (rq_seq_len rq)) (\<lambda>k. bcast_list env rq cs flag (?s1\<lparr>sv_seq := k\<rparr>))"
      using False Cons.prems(1) [of x] facts(1)
      by (simp add: fifo_open_def reaches_def Let_def fifo_write_def fifo_close_def)
    with Cons.prems(3) have "rbind (c_add (sv_seq s) (rq_seq_len rq))
        (\<lambda>k. bcast_list env rq cs flag (?s1\<lparr>sv_seq := k\<rparr>)) = ok (b, s')" by simp
    then have rest: "bcast_list env rq cs flag ?s1 = ok (b, s')"
      by (auto simp: rbind_eq_ok c_add_eq_ok)
    obtain out where out: "sv_out s' = sv_out ?s1 @ out"
      "length out = length (filter (\<lambda>x. x \<noteq> rq_origin rq) cs)"
      "map out_view out = relay_views rq (sv_seq ?s1) (filter (\<lambda>x. x \<noteq> rq_origin rq) cs)"
      using Cons.IH [of ?s1 flag] rest Cons.prems(1) facts(2) by auto
    show ?thesis
    proof (intro exI conjI)
      show "sv_out s' = sv_out s @ ((client_fifo_name x, ?rs) # out)" using out(1) by simp
      show "map out_view ((client_fifo_name x, ?rs) # out) =
          relay_views rq (sv_seq s) (filter (\<lambda>x. x \<noteq> rq_origin rq) (x # cs))"
        using out(3) False facts(3) by (simp add: relay_views_Cons out_view_def) (simp add: relayed_def)
    qed (use out(2) False in simp)
  qed
qed



end
