(* ===== verification/ChatClient.thy ===== *)
theory ChatClient
  imports ChatSpec
begin

text \<open>
  The chat client (\<open>pp_1_client/client.c\<close>): the requests it formats, the exchanges with the server
  over the two named pipes, the entry of messages at the keyboard, the reading of messages and the
  main loop. The pipes and the keyboard are the environment. Console output other than the messages
  shown is not modelled. The client does not check its calls of \<open>malloc\<close> (request, response, and the
  buffers of \<open>req_format_message\<close>); memory for these blocks is taken to be there. \<open>client_turn\<close> takes
  signals at the connection check and at the prompt; ClientRuns takes them at every place between two
  calls.
\<close>

section \<open>The keyboard\<close>

text \<open>
  What comes from \<open>stdin\<close>: characters and ends of file (\<open>None\<close>, the key ctrl-D); after the last
  item it is at its end for good. A conforming library keeps the end-of-file indicator of the stream
  set (\<open>sticky\<close>); older ones read on after it.
\<close>

type_synonym keyboard = "char option list"

definition after_eof :: "bool \<Rightarrow> keyboard \<Rightarrow> keyboard" where
  "after_eof sticky inp = (if sticky then inp else drop 1 inp)"

text \<open>\<open>scanf(" %c", &ch)\<close>: the first character that is no white space; nothing at the end of file.\<close>

fun scan_char :: "bool \<Rightarrow> keyboard \<Rightarrow> char \<Rightarrow> char \<times> keyboard" where
  "scan_char sticky [] ch = (ch, [])"
| "scan_char sticky (None # inp) ch = (ch, after_eof sticky (None # inp))"
| "scan_char sticky (Some c # inp) ch = (if is_space c then scan_char sticky inp ch else (c, inp))"

definition get_char :: "bool \<Rightarrow> keyboard \<Rightarrow> keyboard" where
  "get_char sticky inp =
     (case inp of [] \<Rightarrow> [] | None # r \<Rightarrow> after_eof sticky inp | Some c # r \<Rightarrow> r)"

text \<open>\<open>fgets\<close> with room for \<open>n\<close> characters and a terminator: it returns the line read.\<close>

fun read_line :: "bool \<Rightarrow> nat \<Rightarrow> keyboard \<Rightarrow> string \<times> keyboard" where
  "read_line sticky 0 inp = ([], inp)"
| "read_line sticky (Suc n) [] = ([], [])"
| "read_line sticky (Suc n) (None # inp) = ([], after_eof sticky (None # inp))"
| "read_line sticky (Suc n) (Some c # inp) =
     (if c = CHR 0x0A then ([c], inp) else apfst ((#) c) (read_line sticky n inp))"

definition STD_LEN :: nat where "STD_LEN = 1024"

text \<open>The string in \<open>choice\<close> after \<open>fgets(choice, STD_LEN, stdin)\<close>: the old one when nothing was read.\<close>

definition fgets_choice :: "bool \<Rightarrow> keyboard \<Rightarrow> string option \<Rightarrow> string option \<times> keyboard" where
  "fgets_choice sticky inp choice =
     (case read_line sticky (STD_LEN - 1) inp of (line, inp1) \<Rightarrow>
      (if line = [] then choice else Some (takeWhile (\<lambda>c. c \<noteq> NUL) line), inp1))"

section \<open>Requests\<close>

text \<open>The size of \<open>struct request\<close>: two integers, two bools with padding, two process ids, the text.\<close>

definition SEQ_LENGTH :: int where "SEQ_LENGTH = 528"

definition req_format_check_connection :: "request \<Rightarrow> request res" where
  "req_format_check_connection rq =
     rbind (c_strcpy (rq_message rq) ''check_connection'') (\<lambda>msg.
     ok (rq\<lparr>rq_dest := 0, rq_global := False, rq_system := True, rq_message := msg\<rparr>))"

definition req_format_connect :: "request \<Rightarrow> request res" where
  "req_format_connect rq =
     rbind (c_strcpy (rq_message rq) ''new_client'') (\<lambda>msg.
     ok (rq\<lparr>rq_dest := 0, rq_global := False, rq_system := True, rq_message := msg\<rparr>))"

definition req_format_disconnect :: "request \<Rightarrow> request res" where
  "req_format_disconnect rq =
     rbind (c_strcpy (rq_message rq) ''disconnect_client'') (\<lambda>msg.
     ok (rq\<lparr>rq_dest := 0, rq_global := False, rq_system := True, rq_message := msg\<rparr>))"

text \<open>
  \<open>get_text_EOF\<close> into a buffer of \<open>MESSAGE_LENGTH\<close> bytes, of which \<open>text\<close> has been written. The
  result is the part of the buffer that has been written, with its terminator.
\<close>

fun get_text_EOF :: "bool \<Rightarrow> keyboard \<Rightarrow> string \<Rightarrow> (char list \<times> keyboard) res" where
  "get_text_EOF sticky [] text =
     (if length text < MESSAGE_LENGTH then ok (text @ [NUL], []) else err Out_Of_Bounds)"
| "get_text_EOF sticky (None # inp) text =
     (if length text < MESSAGE_LENGTH then ok (text @ [NUL], after_eof sticky (None # inp)) else err Out_Of_Bounds)"
| "get_text_EOF sticky (Some c # inp) text =
     (if length text < MESSAGE_LENGTH then get_text_EOF sticky inp (text @ [c]) else err Out_Of_Bounds)"

text \<open>
  The loop that asks where the message goes. \<open>choice\<close> is the string in the buffer, none as long as
  nothing was written into it. Signals are delivered at the two points \<open>turn\<close> names, not in here.
\<close>

partial_function (option) ask_loop :: "bool \<Rightarrow> keyboard \<Rightarrow> string option \<Rightarrow> request \<Rightarrow> (request \<times> keyboard) res" where
  "ask_loop sticky inp choice rq =
     (case fgets_choice sticky inp choice of (choice1, inp1) \<Rightarrow>
      if choice1 = None then err Uninit_Read
      else if choice1 = Some ''y\<newline>'' then ok (rq\<lparr>rq_global := True, rq_dest := 0\<rparr>, inp1)
      else if choice1 = Some ''n\<newline>'' then
        (case fgets_choice sticky inp1 choice1 of (choice2, inp2) \<Rightarrow>
         rbind (c_atoi (the choice2)) (\<lambda>pid. ok (rq\<lparr>rq_global := False, rq_dest := pid\<rparr>, inp2)))
      else ask_loop sticky inp1 choice1 rq)"

definition req_format_message :: "bool \<Rightarrow> bool \<Rightarrow> keyboard \<Rightarrow> request \<Rightarrow> (request \<times> keyboard) res" where
  "req_format_message sticky int_sys_flag inp rq =
     (let rq1 = rq\<lparr>rq_dest := 0, rq_global := False, rq_system := False\<rparr> in
      rbind (get_text_EOF sticky inp []) (\<lambda>(message, inp1).
      rbind (cstr message) (\<lambda>text.
      rbind (c_strcpy (rq_message rq1) text) (\<lambda>msg.
      let rq2 = rq1\<lparr>rq_message := msg\<rparr> in
      if int_sys_flag then ok (rq2, inp1) else ask_loop sticky inp1 None rq2))))"

section \<open>Exchanges with the server\<close>

text \<open>
  The client: its request and response, the responses waiting in its own FIFO, what it has written
  to the server, the descriptors it has open, the keyboard, the flag the signal handler sets, and
  the messages it has shown.
\<close>

record client =
  cl_req :: request
  cl_resp :: response
  cl_fifo :: "response list"
  cl_sent :: "request list"
  cl_fds :: nat
  cl_stdin :: keyboard
  int_sys_flag :: bool
  cl_shown :: "(int \<times> string) list"

text \<open>
  What happens during one exchange: how the FIFO of the server opens, whether the write succeeds,
  how the own FIFO opens, what has been written into it by the time it is read, and whether reading
  it when empty reports an end of file (nobody has it open for writing) or blocks.
\<close>

record exchange =
  ex_server :: open_result
  ex_write_ok :: bool
  ex_client :: open_result
  ex_arrivals :: "response list"
  ex_eof :: bool

definition check_sys_response :: "exchange \<Rightarrow> client \<Rightarrow> (bool \<times> client) res" where
  "check_sys_response x s =
     (case ex_client x of
        Open_Blocks \<Rightarrow> None
      | Open_Fails \<Rightarrow> ok (False, s)
      | Opened \<Rightarrow>
          (let s1 = s\<lparr>cl_fds := Suc (cl_fds s), cl_fifo := cl_fifo s @ ex_arrivals x\<rparr> in
           case cl_fifo s1 of
             [] \<Rightarrow> if ex_eof x then ok (False, s1) else None
           | r # rs \<Rightarrow>
               rbind (c_streq (rs_message r) (lit ''OK'')) (\<lambda>same.
               ok (same, s1\<lparr>cl_resp := r, cl_fifo := rs\<rparr>))))"

text \<open>
  Opening the FIFO of the server, writing the request and reading the verdict. Where a blocking
  \<open>open\<close> would wait for a reader, a non-blocking one fails.
\<close>

definition post_request :: "bool \<Rightarrow> exchange \<Rightarrow> client \<Rightarrow> (bool \<times> client) res" where
  "post_request nonblock x s =
     (case ex_server x of
        Open_Blocks \<Rightarrow> if nonblock then ok (False, s) else None
      | Open_Fails \<Rightarrow> ok (False, s)
      | Opened \<Rightarrow>
          (let s1 = s\<lparr>cl_fds := Suc (cl_fds s)\<rparr> in
           if \<not> ex_write_ok x then ok (False, s1)
           else check_sys_response x (s1\<lparr>cl_sent := cl_sent s @ [cl_req s]\<rparr>)))"

definition client_connect :: "exchange \<Rightarrow> client \<Rightarrow> (bool \<times> client) res" where
  "client_connect x s =
     rbind (req_format_connect (cl_req s)) (\<lambda>rq. post_request False x (s\<lparr>cl_req := rq\<rparr>))"

definition client_disconnect :: "exchange \<Rightarrow> client \<Rightarrow> (bool \<times> client) res" where
  "client_disconnect x s =
     rbind (req_format_disconnect (cl_req s)) (\<lambda>rq. post_request True x (s\<lparr>cl_req := rq\<rparr>))"

definition client_send :: "exchange \<Rightarrow> client \<Rightarrow> (bool \<times> client) res" where
  "client_send x s = post_request True x s"

section \<open>Reading messages\<close>

text \<open>
  Turn \<open>k\<close> of the loop: \<open>polls k\<close> is what has arrived when \<open>poll\<close> is called, and whether \<open>poll\<close>
  reports a hang-up on an empty FIFO. Then the FIFO counts as not empty, and \<open>read\<close> returns 0.
\<close>

type_synonym polls = "nat \<Rightarrow> response list \<times> bool"

partial_function (option) read_loop :: "polls \<Rightarrow> nat \<Rightarrow> client \<Rightarrow> client res" where
  "read_loop polls k s =
     (if cl_fifo s @ fst (polls k) = [] then
        (if snd (polls k) then read_loop polls (Suc k) s else ok s)
      else
        (let r = hd (cl_fifo s @ fst (polls k)) in
         rbind (cstr (rs_message r)) (\<lambda>text.
         read_loop polls (Suc k)
           (s\<lparr>cl_resp := r, cl_fifo := tl (cl_fifo s @ fst (polls k)),
              cl_shown := cl_shown s @ [(rs_origin r, text)]\<rparr>))))"

definition client_read_messages :: "bool \<Rightarrow> polls \<Rightarrow> client \<Rightarrow> (bool \<times> client) res" where
  "client_read_messages opens polls s =
     (if \<not> opens then ok (False, s)
      else rbind (read_loop polls 0 (s\<lparr>cl_fds := Suc (cl_fds s)\<rparr>)) (\<lambda>s1. ok (True, s1)))"

section \<open>The main loop\<close>

text \<open>
  The environment of one turn: the exchange that checks the connection, whether a signal arrives
  during it or while the client waits at the prompt, how messages are read, and the exchange that
  sends a message.
\<close>

record turn =
  tn_check :: exchange
  tn_sig_check :: bool
  tn_sig_prompt :: bool
  tn_open :: bool
  tn_polls :: polls
  tn_send :: exchange

text \<open>The handler of \<open>SIGINT\<close> and \<open>SIGQUIT\<close> closes \<open>stdin\<close> and sets the flag.\<close>

definition int_sys_handler :: "client \<Rightarrow> client" where
  "int_sys_handler s = s\<lparr>cl_stdin := [], int_sys_flag := True\<rparr>"

definition send_message :: "bool \<Rightarrow> turn \<Rightarrow> client \<Rightarrow> client res" where
  "send_message sticky t s =
     rbind (client_read_messages (tn_open t) (tn_polls t) s) (\<lambda>(read, s1).
     rbind (req_format_message sticky (int_sys_flag s1) (cl_stdin s1) (cl_req s1)) (\<lambda>(rq, inp).
     rbind (client_send (tn_send t) (s1\<lparr>cl_req := rq, cl_stdin := inp\<rparr>)) (\<lambda>(sent, s2).
     ok s2)))"

text \<open>
  One turn. The result says whether the connection is alive and whether the user quits, and gives
  the character last entered. After a signal at the prompt \<open>getchar\<close> works on the closed stream.
\<close>

definition client_turn :: "bool \<Rightarrow> turn \<Rightarrow> client \<Rightarrow> char \<Rightarrow> (bool \<times> bool \<times> client \<times> char) res" where
  "client_turn sticky t s ch =
     rbind (req_format_check_connection (cl_req s)) (\<lambda>rq.
     rbind (client_send (tn_check t) (s\<lparr>cl_req := rq\<rparr>)) (\<lambda>(conn_alive, s1).
     let s2 = (if tn_sig_check t then int_sys_handler s1 else s1) in
     if \<not> conn_alive then ok (False, False, s2, ch)
     else if int_sys_flag s2 then ok (True, False, s2, ch)
     else if tn_sig_prompt t then err Bad_Deref
     else
       (case scan_char sticky (cl_stdin s2) ch of (ch1, inp) \<Rightarrow>
        let s3 = s2\<lparr>cl_stdin := get_char sticky inp\<rparr> in
        if ch1 = CHR ''s'' then
          rbind (send_message sticky t s3) (\<lambda>s4. ok (True, False, s4, ch1))
        else if ch1 = CHR ''r'' then
          rbind (client_read_messages (tn_open t) (tn_polls t) s3) (\<lambda>(read, s4). ok (True, False, s4, ch1))
        else if ch1 = CHR ''q'' then ok (True, True, s3, ch1)
        else ok (True, False, s3, ch1))))"

partial_function (option) client_loop :: "bool \<Rightarrow> (nat \<Rightarrow> turn) \<Rightarrow> nat \<Rightarrow> bool \<Rightarrow> client \<Rightarrow> char \<Rightarrow> (bool \<times> client) res" where
  "client_loop sticky turns k conn_alive s ch =
     (if int_sys_flag s \<or> \<not> conn_alive then ok (conn_alive, s)
      else
        rbind (client_turn sticky (turns k) s ch) (\<lambda>r.
        case r of (alive, quit, s1, ch1) \<Rightarrow>
          if quit then ok (alive, s1) else client_loop sticky turns (Suc k) alive s1 ch1))"

record client_setup =
  cs_mkfifo_ok :: bool     \<comment> \<open>\<open>mkfifo\<close> succeeds, or fails with \<open>EEXIST\<close>\<close>
  cs_atexit_ok :: bool

text \<open>
  \<open>main\<close>: the exit status and the client at the end. \<open>req0\<close> and \<open>resp0\<close> are what \<open>malloc\<close> left in
  the two blocks.
\<close>

definition client_start :: "int \<Rightarrow> request \<Rightarrow> response \<Rightarrow> keyboard \<Rightarrow> client" where
  "client_start pid req0 resp0 inp =
     \<lparr>cl_req = req0\<lparr>rq_origin := pid, rq_seq_len := SEQ_LENGTH\<rparr>, cl_resp = resp0, cl_fifo = [], cl_sent = [],
      cl_fds = 0, cl_stdin = inp, int_sys_flag = False, cl_shown = []\<rparr>"

definition client_end :: "exchange \<Rightarrow> bool \<Rightarrow> client \<Rightarrow> (int \<times> client) res" where
  "client_end bye connected s =
     (if connected then
        rbind (req_format_disconnect (cl_req s)) (\<lambda>rq.
        rbind (client_disconnect bye (s\<lparr>cl_req := rq\<rparr>)) (\<lambda>(disconn_success, s1).
        if disconn_success then ok (0, s1) else ok (1, s1)))
      else ok (0, s))"

definition client_main :: "bool \<Rightarrow> client_setup \<Rightarrow> int \<Rightarrow> request \<Rightarrow> response \<Rightarrow> keyboard \<Rightarrow>
    exchange \<Rightarrow> (nat \<Rightarrow> turn) \<Rightarrow> exchange \<Rightarrow> (int \<times> client) res" where
  "client_main sticky su pid req0 resp0 inp hello turns bye =
     (if \<not> cs_mkfifo_ok su then err (Exit_Call 1)
      else if \<not> cs_atexit_ok su then err (Exit_Call 1)
      else
        rbind (client_connect hello (client_start pid req0 resp0 inp)) (\<lambda>(conn_success, s1).
        rbind (client_loop sticky turns 0 conn_success s1 NUL) (\<lambda>(conn_alive, s2).
        client_end bye (conn_success \<and> conn_alive) s2)))"

section \<open>The requests the client sends\<close>

lemma formatted_valid:
  assumes "req_wf rq" "0 \<le> rq_seq_len rq" "NUL \<notin> set t" "length t < 512"
    and "rbind (c_strcpy (rq_message rq) t) (\<lambda>msg.
      ok (rq\<lparr>rq_dest := 0, rq_global := False, rq_system := True, rq_message := msg\<rparr>)) = r"
  shows "\<exists>rq'. r = ok rq' \<and> valid_req rq' \<and> msg_text rq' = t \<and> rq_system rq' \<and>
    rq_origin rq' = rq_origin rq \<and> rq_seq_len rq' = rq_seq_len rq"
  using assms by (auto simp: req_wf_def valid_req_def msg_text_def MESSAGE_LENGTH_def takeWhile_nul)

lemma format_valid:
  assumes "req_wf rq" "0 \<le> rq_seq_len rq"
  shows "\<exists>rq'. req_format_connect rq = ok rq' \<and> valid_req rq' \<and> msg_text rq' = ''new_client'' \<and> rq_system rq' \<and>
      rq_origin rq' = rq_origin rq \<and> rq_seq_len rq' = rq_seq_len rq"
    "\<exists>rq'. req_format_check_connection rq = ok rq' \<and> valid_req rq' \<and> msg_text rq' = ''check_connection'' \<and> rq_system rq' \<and>
      rq_origin rq' = rq_origin rq \<and> rq_seq_len rq' = rq_seq_len rq"
    "\<exists>rq'. req_format_disconnect rq = ok rq' \<and> valid_req rq' \<and> msg_text rq' = ''disconnect_client'' \<and> rq_system rq' \<and>
      rq_origin rq' = rq_origin rq \<and> rq_seq_len rq' = rq_seq_len rq"
  unfolding req_format_connect_def req_format_check_connection_def req_format_disconnect_def
  by (rule formatted_valid [OF assms _ _ refl]; simp)+

text \<open>The loop that asks changes the destination only.\<close>

definition readdressed :: "request \<Rightarrow> request \<Rightarrow> bool" where
  "readdressed rq rq' \<longleftrightarrow> rq_origin rq' = rq_origin rq \<and> rq_seq_len rq' = rq_seq_len rq \<and>
     rq_message rq' = rq_message rq \<and> rq_system rq' = rq_system rq"

lemma ask_loop_readdressed:
  assumes "ask_loop sticky inp choice rq = ok (rq', inp')"
  shows "readdressed rq rq'"
proof -
  let ?P = "\<lambda>sticky inp choice rq y. case y of Inl e \<Rightarrow> True | Inr (rq', inp') \<Rightarrow> readdressed rq rq'"
  have "?P sticky inp choice rq r" if "ask_loop sticky inp choice rq = Some r" for r
    using that
    by (rule ask_loop.raw_induct [of ?P, rotated])
      (force simp: readdressed_def rbind_eq_ok ok_def err_def rbind_def split: prod.splits if_splits sum.splits option.splits bind_splits)
  from this [of "Inr (rq', inp')"] assms show ?thesis by (simp add: ok_def)
qed

lemma format_message_valid:
  assumes "req_format_message sticky flag inp rq = ok (rq', inp')" "req_wf rq" "0 \<le> rq_seq_len rq"
  shows "valid_req rq' \<and> rq_origin rq' = rq_origin rq \<and> rq_seq_len rq' = rq_seq_len rq \<and> \<not> rq_system rq'"
proof -
  let ?rq1 = "rq\<lparr>rq_dest := 0, rq_global := False, rq_system := False\<rparr>"
  obtain message inp1 str msg where m: "cstr message = ok str" "c_strcpy (rq_message ?rq1) str = ok msg"
    and e: "(if flag then ok (?rq1\<lparr>rq_message := msg\<rparr>, inp1) else ask_loop sticky inp1 None (?rq1\<lparr>rq_message := msg\<rparr>)) = ok (rq', inp')"
    using assms(1) by (auto simp: req_format_message_def Let_def rbind_eq_ok)
  have msg: "length msg = MESSAGE_LENGTH" "NUL \<in> set msg"
    using m(2) c_strcpy_length [OF m(2)] assms(2) by (auto simp: req_wf_def c_strcpy_def split: if_splits)
  have "readdressed (?rq1\<lparr>rq_message := msg\<rparr>) rq'"
    using e ask_loop_readdressed by (auto simp: readdressed_def split: if_splits)
  with msg assms(3) show ?thesis by (simp add: readdressed_def valid_req_def req_wf_def)
qed

text \<open>What the client keeps of its request, and of the requests it has sent.\<close>

definition client_inv :: "int \<Rightarrow> client \<Rightarrow> bool" where
  "client_inv pid s \<longleftrightarrow>
     req_wf (cl_req s) \<and> rq_origin (cl_req s) = pid \<and> rq_seq_len (cl_req s) = SEQ_LENGTH \<and>
     (\<forall>rq\<in>set (cl_sent s). valid_req rq \<and> rq_origin rq = pid \<and> rq_seq_len rq = SEQ_LENGTH)"

lemma client_inv_same:
  "client_inv pid s \<Longrightarrow> cl_req s' = cl_req s \<Longrightarrow> cl_sent s' = cl_sent s \<Longrightarrow> client_inv pid s'"
  by (simp add: client_inv_def)

lemma check_response_same:
  "check_sys_response x s = ok (b, s') \<Longrightarrow> cl_req s' = cl_req s \<and> cl_sent s' = cl_sent s \<and>
     cl_shown s' = cl_shown s \<and> int_sys_flag s' = int_sys_flag s \<and> cl_stdin s' = cl_stdin s"
  by (auto simp: check_sys_response_def Let_def rbind_eq_ok split: open_result.split_asm list.split_asm if_splits)

lemma post_request_inv:
  assumes "post_request nb x s = ok (b, s')" "client_inv pid s" "valid_req (cl_req s)"
  shows "client_inv pid s' \<and> cl_stdin s' = cl_stdin s \<and> int_sys_flag s' = int_sys_flag s"
proof (cases "ex_server x = Opened \<and> ex_write_ok x")
  case True
  with assms(1) have "check_sys_response x (s\<lparr>cl_fds := Suc (cl_fds s), cl_sent := cl_sent s @ [cl_req s]\<rparr>) = ok (b, s')"
    by (simp add: post_request_def)
  from check_response_same [OF this] assms(2,3) show ?thesis by (auto simp: client_inv_def)
next
  case False
  with assms show ?thesis
    by (auto simp: post_request_def client_inv_def split: open_result.split_asm if_splits)
qed

lemma formatted_inv:
  assumes "client_inv pid s" "valid_req rq'" "rq_origin rq' = rq_origin (cl_req s)" "rq_seq_len rq' = rq_seq_len (cl_req s)"
  shows "client_inv pid (s\<lparr>cl_req := rq'\<rparr>)"
  using assms by (simp add: client_inv_def valid_req_def)

lemma inv_formatted:
  assumes "client_inv pid s"
    and "\<exists>rq'. r = ok rq' \<and> valid_req rq' \<and> msg_text rq' = t \<and> rq_system rq' \<and>
      rq_origin rq' = rq_origin (cl_req s) \<and> rq_seq_len rq' = rq_seq_len (cl_req s)"
  shows "\<exists>rq'. r = ok rq' \<and> valid_req rq' \<and> client_inv pid (s\<lparr>cl_req := rq'\<rparr>)"
proof -
  from assms(2) obtain rq' where r: "r = ok rq'" "valid_req rq'" "rq_origin rq' = rq_origin (cl_req s)"
    "rq_seq_len rq' = rq_seq_len (cl_req s)" by (elim exE conjE)
  have "client_inv pid (s\<lparr>cl_req := rq'\<rparr>)" by (rule formatted_inv [OF assms(1) r(2-4)])
  with r(1,2) show ?thesis by (intro exI [of _ rq']) simp
qed

lemma inv_format:
  assumes "client_inv pid s"
  shows "\<exists>rq'. req_format_connect (cl_req s) = ok rq' \<and> valid_req rq' \<and> client_inv pid (s\<lparr>cl_req := rq'\<rparr>)"
    "\<exists>rq'. req_format_check_connection (cl_req s) = ok rq' \<and> valid_req rq' \<and> client_inv pid (s\<lparr>cl_req := rq'\<rparr>)"
    "\<exists>rq'. req_format_disconnect (cl_req s) = ok rq' \<and> valid_req rq' \<and> client_inv pid (s\<lparr>cl_req := rq'\<rparr>)"
proof -
  have r: "req_wf (cl_req s)" "0 \<le> rq_seq_len (cl_req s)" using assms by (simp_all add: client_inv_def SEQ_LENGTH_def)
  note f = format_valid [OF r]
  show "\<exists>rq'. req_format_connect (cl_req s) = ok rq' \<and> valid_req rq' \<and> client_inv pid (s\<lparr>cl_req := rq'\<rparr>)"
    by (rule inv_formatted [OF assms f(1)])
  show "\<exists>rq'. req_format_check_connection (cl_req s) = ok rq' \<and> valid_req rq' \<and> client_inv pid (s\<lparr>cl_req := rq'\<rparr>)"
    by (rule inv_formatted [OF assms f(2)])
  show "\<exists>rq'. req_format_disconnect (cl_req s) = ok rq' \<and> valid_req rq' \<and> client_inv pid (s\<lparr>cl_req := rq'\<rparr>)"
    by (rule inv_formatted [OF assms f(3)])
qed

lemma read_loop_same:
  assumes "read_loop polls k s = ok s'"
  shows "cl_req s' = cl_req s \<and> cl_sent s' = cl_sent s \<and> cl_fds s' = cl_fds s"
proof -
  let ?P = "\<lambda>polls k s y. case y of Inl e \<Rightarrow> True
    | Inr s' \<Rightarrow> cl_req s' = cl_req s \<and> cl_sent s' = cl_sent s \<and> cl_fds s' = cl_fds s"
  have "?P polls k s r" if "read_loop polls k s = Some r" for r
    using that
  proof (rule read_loop.raw_induct [of ?P, rotated])
    fix loop polls k s y
    assume ih: "\<And>a b c y. loop a b c = Some y \<Longrightarrow> ?P a b c y"
      and body: "(if cl_fifo s @ fst (polls k) = [] then if snd (polls k) then loop polls (Suc k) s else ok s
        else let r = hd (cl_fifo s @ fst (polls k)) in rbind (cstr (rs_message r)) (\<lambda>text. loop polls (Suc k)
           (s\<lparr>cl_resp := r, cl_fifo := tl (cl_fifo s @ fst (polls k)), cl_shown := cl_shown s @ [(rs_origin r, text)]\<rparr>))) = Some y"
    show "?P polls k s y"
    proof (cases "cl_fifo s @ fst (polls k) = []")
      case True
      with body ih [of polls "Suc k" s y] show ?thesis by (auto simp: ok_def split: if_splits)
    next
      case False
      let ?r = "hd (cl_fifo s @ fst (polls k))"
      let ?s = "\<lambda>str. s\<lparr>cl_resp := ?r, cl_fifo := tl (cl_fifo s @ fst (polls k)),
        cl_shown := cl_shown s @ [(rs_origin ?r, str)]\<rparr>"
      have run: "rbind (cstr (rs_message ?r)) (\<lambda>str. loop polls (Suc k) (?s str)) = Some y"
        using body unfolding Let_def by (simp only: False if_False)
      show ?thesis
      proof (cases "cstr (rs_message ?r)" rule: res_cases)
        case (ok str)
        with run ih [of polls "Suc k" "?s str" y] show ?thesis by (auto split: sum.splits)
      qed (use run in \<open>simp_all add: res_eq_Some\<close>)
    qed
  qed
  from this [of "Inr s'"] assms show ?thesis by (simp add: ok_def)
qed

lemma read_messages_inv:
  "client_read_messages opens polls s = ok (b, s') \<Longrightarrow> client_inv pid s \<Longrightarrow> client_inv pid s'"
  by (auto simp: client_read_messages_def rbind_eq_ok client_inv_def dest: read_loop_same split: if_splits)

section \<open>Entering a message\<close>

lemma get_text_typed:
  "get_text_EOF sticky (map Some t @ None # inp) acc =
     (if length acc + length t < MESSAGE_LENGTH then ok (acc @ t @ [NUL], after_eof sticky (None # inp))
      else err Out_Of_Bounds)"
proof (induction t arbitrary: acc)
  case (Cons c t)
  then show ?case by (cases "length acc < MESSAGE_LENGTH") auto
qed simp

lemma get_text_too_long:
  "MESSAGE_LENGTH \<le> length acc + length t \<Longrightarrow> get_text_EOF sticky (map Some t @ inp) acc = err Out_Of_Bounds"
proof (induction t arbitrary: acc)
  case Nil
  then show ?case by (cases "(sticky, inp, acc)" rule: get_text_EOF.cases) auto
next
  case (Cons c t)
  then show ?case by (cases "length acc < MESSAGE_LENGTH") auto
qed

lemma read_line_typed:
  "length l < n \<Longrightarrow> CHR 0x0A \<notin> set l \<Longrightarrow>
   read_line sticky n (map Some (l @ [CHR 0x0A]) @ inp) = (l @ [CHR 0x0A], inp)"
proof (induction l arbitrary: n)
  case Nil
  then show ?case by (cases n) auto
next
  case (Cons c l)
  then show ?case by (cases n) auto
qed

lemma fgets_typed:
  assumes "length l < 1000" "CHR 0x0A \<notin> set l" "NUL \<notin> set l"
  shows "fgets_choice sticky (map Some (l @ [CHR 0x0A]) @ inp) choice = (Some (l @ [CHR 0x0A]), inp)"
proof -
  have "takeWhile (\<lambda>c. c \<noteq> NUL) (l @ [CHR 0x0A]) = l @ [CHR 0x0A]"
    using assms(3) by (auto simp: takeWhile_eq_all_conv)
  with read_line_typed [of l "STD_LEN - 1" sticky inp] assms show ?thesis
    by (simp add: fgets_choice_def STD_LEN_def)
qed

lemma atoi_line: "int n \<le> INT_MAX \<Longrightarrow> c_atoi (dec_nat n @ [CHR 0x0A]) = ok (int n)"
proof -
  assume n: "int n \<le> INT_MAX"
  obtain k s where k: "k < 10" "dec_nat n = digit k # s" using dec_nat_head by blast
  have c: "(of_char (digit k) :: nat) = 48 + k" using of_char_digit [OF k(1)] .
  have ns: "\<not> is_space (digit k)" "digit k \<noteq> CHR ''-''" "digit k \<noteq> CHR ''+''"
    using c by (auto simp: is_space_def)
  have "digits_value (dec_nat n @ [CHR 0x0A]) 0 = int n" using digits_value_dec [of n "[CHR 0x0A]" 0] by simp
  then have "digits_value (digit k # (s @ [CHR 0x0A])) 0 = int n" unfolding k(2) by simp
  with ns int_ok_nat [OF n] show ?thesis
    unfolding c_atoi_def k(2) by (simp del: digits_value.simps)
qed

lemma dec_nat_chars: "c \<in> set (dec_nat n) \<Longrightarrow> c \<noteq> CHR 0x0A \<and> c \<noteq> NUL"
proof (induction n rule: dec_nat.induct)
  case (1 n)
  have "digit k \<noteq> CHR 0x0A \<and> digit k \<noteq> NUL" if "k < 10" for k
    using of_char_digit [OF that] by auto
  with 1 show ?case by (auto simp: dec_nat.simps [of n] split: if_splits)
qed

lemma format_message_typed:
  assumes "req_wf rq" "NUL \<notin> set t" "length t < MESSAGE_LENGTH"
    and "ask_loop sticky (after_eof sticky (None # inp)) None (rq\<lparr>rq_dest := 0, rq_global := False, rq_system := False,
      rq_message := t @ NUL # drop (Suc (length t)) (rq_message rq)\<rparr>) = r"
  shows "req_format_message sticky False (map Some t @ None # inp) rq = r"
  using assms get_text_typed [of sticky t inp "[]"] cstr_append [of t "[]"]
  by (simp add: req_format_message_def req_wf_def)

lemma ask_pid:
  assumes "int pid \<le> INT_MAX"
  shows "ask_loop sticky (map Some (''n'' @ [CHR 0x0A]) @ map Some (dec_nat pid @ [CHR 0x0A]) @ inp) None rq =
    ok (rq\<lparr>rq_global := False, rq_dest := int pid\<rparr>, inp)"
proof -
  have d: "CHR 0x0A \<notin> set (dec_nat pid)" "NUL \<notin> set (dec_nat pid)" using dec_nat_chars by blast+
  have "pid < 10 ^ Suc 9" using assms by (simp add: INT_MAX_def)
  from dec_nat_length [OF this] have l: "length (dec_nat pid) < 1000" by simp
  note f = fgets_typed [OF l d, of sticky inp] fgets_typed [of "''n''" sticky "map Some (dec_nat pid @ [CHR 0x0A]) @ inp"]
  show ?thesis
    by (subst ask_loop.simps) (use f atoi_line [OF assms] in simp)
qed

section \<open>Reading the FIFO\<close>

lemma read_loop_shows:
  "list_all2 (\<lambda>r t. cstr (rs_message r) = ok t) (cl_fifo s) ts \<Longrightarrow> \<forall>j. fst (polls j) = [] \<Longrightarrow>
   \<not> snd (polls (k + length ts)) \<Longrightarrow>
   \<exists>s'. read_loop polls k s = ok s' \<and> cl_fifo s' = [] \<and>
     cl_shown s' = cl_shown s @ zip (map rs_origin (cl_fifo s)) ts"
proof (induction ts arbitrary: k s)
  case Nil
  then show ?case by (subst read_loop.simps) simp
next
  case (Cons t ts)
  then obtain r rs where r: "cl_fifo s = r # rs" "cstr (rs_message r) = ok t"
    "list_all2 (\<lambda>r t. cstr (rs_message r) = ok t) rs ts" by (auto simp: list_all2_Cons2)
  let ?s = "s\<lparr>cl_resp := r, cl_fifo := rs, cl_shown := cl_shown s @ [(rs_origin r, t)]\<rparr>"
  have "read_loop polls k s = read_loop polls (Suc k) ?s"
    using r Cons.prems(2) by (subst read_loop.simps) (simp add: Let_def)
  with Cons.IH [of ?s "Suc k"] Cons.prems(2,3) r show ?case by simp
qed

lemma read_loop_hangs:
  assumes "\<forall>j. polls j = ([], True)" "\<forall>r\<in>set (cl_fifo s). \<exists>t. cstr (rs_message r) = ok t"
  shows "read_loop polls k s = None"
proof -
  let ?P = "\<lambda>polls k s y. \<not> ((\<forall>j. polls j = ([], True)) \<and> (\<forall>r\<in>set (cl_fifo s). \<exists>t. cstr (rs_message r) = ok t))"
  have "?P polls k s r" if "read_loop polls k s = Some r" for r
    using that
  proof (rule read_loop.raw_induct [of ?P, rotated])
    fix loop polls k s y
    assume ih: "\<And>a b c y. loop a b c = Some y \<Longrightarrow> ?P a b c y"
      and body: "(if cl_fifo s @ fst (polls k) = [] then if snd (polls k) then loop polls (Suc k) s else ok s
        else let r = hd (cl_fifo s @ fst (polls k)) in rbind (cstr (rs_message r)) (\<lambda>text. loop polls (Suc k)
           (s\<lparr>cl_resp := r, cl_fifo := tl (cl_fifo s @ fst (polls k)), cl_shown := cl_shown s @ [(rs_origin r, text)]\<rparr>))) = Some y"
    show "?P polls k s y"
    proof
      assume h: "(\<forall>j. polls j = ([], True)) \<and> (\<forall>r\<in>set (cl_fifo s). \<exists>t. cstr (rs_message r) = ok t)"
      then have p: "polls k = ([], True)" by simp
      show False
      proof (cases "cl_fifo s")
        case Nil
        with body p have "loop polls (Suc k) s = Some y" by simp
        from ih [OF this] h show False by simp
      next
        case (Cons r rs)
        with h obtain t where t: "cstr (rs_message r) = ok t" by auto
        from body Cons p t have "loop polls (Suc k)
            (s\<lparr>cl_resp := r, cl_fifo := rs, cl_shown := cl_shown s @ [(rs_origin r, t)]\<rparr>) = Some y"
          by (simp add: Let_def)
        from ih [OF this] h Cons show False by simp
      qed
    qed
  qed
  with assms show ?thesis by (cases "read_loop polls k s") auto
qed

section \<open>The exchange with the server program\<close>

text \<open>What a server writes into the FIFO of a client between two of its states.\<close>

definition inbox :: "int \<Rightarrow> server \<Rightarrow> server \<Rightarrow> response list" where
  "inbox pid s s' = map snd (filter (\<lambda>x. fst x = client_fifo_name pid) (drop (length (sv_out s)) (sv_out s')))"

lemma texts_filter:
  "map (\<lambda>(path, rs). (path, cstr (rs_message rs))) xs = map (\<lambda>(p, t). (client_fifo_name p, ok t)) ys \<Longrightarrow>
   \<forall>y\<in>set ys. int_ok (fst y) \<Longrightarrow> int_ok pid \<Longrightarrow>
   map (\<lambda>r. cstr (rs_message r)) (map snd (filter (\<lambda>x. fst x = client_fifo_name pid) xs)) =
     map (\<lambda>y. ok (snd y)) (filter (\<lambda>y. fst y = pid) ys)"
proof (induction xs arbitrary: ys)
  case (Cons x xs)
  then obtain y ys' where ys: "ys = y # ys'" by (cases ys) auto
  have "client_fifo_name (fst y) = client_fifo_name pid \<longleftrightarrow> fst y = pid"
    using client_fifo_name_inject [of "fst y" pid] Cons.prems ys by auto
  with Cons ys show ?case by (auto split: prod.splits)
qed simp

lemma inbox_texts:
  assumes "sim s c" "sim s' c'" "ch_sent c' = ch_sent c @ new" "\<forall>y\<in>set new. int_ok (fst y)" "int_ok pid"
  shows "map (\<lambda>r. cstr (rs_message r)) (inbox pid s s') = map (\<lambda>y. ok (snd y)) (filter (\<lambda>y. fst y = pid) new)"
proof -
  let ?G = "\<lambda>(path, rs). (path, cstr (rs_message rs))" and ?F = "\<lambda>(p, t). (client_fifo_name p, ok t :: string res)"
  have t: "map ?G (sv_out s) = map ?F (ch_sent c)" "map ?G (sv_out s') = map ?F (ch_sent c) @ map ?F new"
    using assms(1-3) by (simp_all add: sim_def sent_texts_def)
  then have n: "length (sv_out s) = length (ch_sent c)" by (metis length_map)
  have "map ?G (drop (length (sv_out s)) (sv_out s')) = map ?F new"
    using t(2) n by (simp add: drop_map [symmetric])
  from texts_filter [OF this assms(4,5)] show ?thesis by (simp add: inbox_def)
qed

text \<open>What the room sends for a request: messages to others, then the verdict to the sender.\<close>

definition relay_targets :: "chat \<Rightarrow> request \<Rightarrow> int list" where
  "relay_targets c rq =
     (if rq_system rq then []
      else if rq_global rq then filter (\<lambda>x. x \<noteq> rq_origin rq) (ch_clients c)
      else if rq_dest rq \<in> set (ch_clients c) then [rq_dest rq] else [])"

definition accepted :: "chat \<Rightarrow> request \<Rightarrow> bool" where
  "accepted c rq \<longleftrightarrow>
     \<not> (rq_system rq \<and>
        (msg_text rq = ''new_client'' \<and>
           \<not> (rq_origin rq \<notin> set (ch_clients c) \<and> int (length (ch_clients c)) < MAX_NUM_CLIENTS) \<or>
         msg_text rq = ''disconnect_client'' \<and> rq_origin rq \<notin> set (ch_clients c)))"

lemma spec_sent:
  "ch_sent (spec_request c rq) = ch_sent c @ map (\<lambda>t. (t, msg_text rq)) (relay_targets c rq) @
     [(rq_origin rq, if accepted c rq then ''OK'' else ''FAIL'')]"
  by (simp add: spec_request_def verdict_def relay_def relay_targets_def accepted_def)

lemma post_request_reads:
  assumes "ex_server x = Opened" "ex_write_ok x" "ex_client x = Opened" "cl_fifo s @ ex_arrivals x = r # rs"
    and "cstr (rs_message r) = ok t"
  shows "post_request nb x s = ok (t = ''OK'', s\<lparr>cl_resp := r, cl_fifo := rs, cl_fds := cl_fds s + 2,
     cl_sent := cl_sent s @ [cl_req s]\<rparr>)"
  using assms c_streq_cstr [OF assms(5), of "''OK''"]
  by (simp add: post_request_def check_sys_response_def Let_def)

text \<open>The clients of the room and the addressee of a request have process ids.\<close>

definition pids_ok :: "chat \<Rightarrow> request \<Rightarrow> bool" where
  "pids_ok c rq \<longleftrightarrow> int_ok (rq_origin rq) \<and> int_ok (rq_dest rq) \<and> (\<forall>p\<in>set (ch_clients c). int_ok p)"

lemma server_answers:
  assumes "valid_req rq" "\<And>p. reaches env p" "sim s c" "0 \<le> ch_seq c" "ch_seq (spec_request c rq) \<le> INT_MAX"
    and "2 \<le> avail (sv_mem s)" "pids_ok c rq"
  shows "\<exists>s'. handle_request env s rq = ok s' \<and> sim s' (spec_request c rq) \<and>
    map (\<lambda>r. cstr (rs_message r)) (inbox (rq_origin rq) s s') =
      map (\<lambda>t. ok (msg_text rq)) (filter (\<lambda>t. t = rq_origin rq) (relay_targets c rq)) @
      [ok (if accepted c rq then ''OK'' else ''FAIL'')]"
proof -
  obtain s' where s': "handle_request env s rq = ok s'" "sim s' (spec_request c rq)"
    using request_sim [OF assms(1-6)] by (auto simp: good_outcome_def)
  let ?new = "map (\<lambda>t. (t, msg_text rq)) (relay_targets c rq) @ [(rq_origin rq, if accepted c rq then ''OK'' else ''FAIL'')]"
  have "\<forall>y\<in>set ?new. int_ok (fst y)" "int_ok (rq_origin rq)"
    using assms(7) by (auto simp: pids_ok_def relay_targets_def split: if_splits)
  from inbox_texts [OF assms(3) s'(2) spec_sent this] s' show ?thesis
    by (auto simp: filter_map o_def)
qed

text \<open>
  C19: with a library that reads on after an end of file, and when no signal comes during the entry, a
  text of at most 511 characters, none of them NUL, typed and ended with ctrl-D, and addressed to a
  client by a process id that is an \<open>int\<close>, becomes a request that says just this; the response the
  server makes of it has the same text, and the client that finds this response alone in its FIFO
  shows the text with the sender's process id. A library that keeps the end-of-file indicator has no
  such round trip: \<open>client_text_overflows\<close> shows what happens there.
\<close>

theorem client_message_roundtrip:
  assumes "req_wf rq" "0 \<le> rq_seq_len rq" "NUL \<notin> set t" "length t < 512" "int pid \<le> INT_MAX"
    and "inp = map Some t @ None # map Some (''n'' @ [CHR 0x0A]) @ map Some (dec_nat pid @ [CHR 0x0A]) @ inp'"
    and "resp_wf rs" "cl_fifo s = []"
  shows "\<exists>rq' rs'. req_format_message False False inp rq = ok (rq', inp') \<and>
    rq_dest rq' = int pid \<and> \<not> rq_global rq' \<and> \<not> rq_system rq' \<and> rq_origin rq' = rq_origin rq \<and> msg_text rq' = t \<and>
    resp_format_msg rs rq' n = ok rs' \<and>
    (\<exists>s'. client_read_messages True (\<lambda>k. (if k = 0 then [rs'] else [], False)) s = ok (True, s') \<and>
       cl_shown s' = cl_shown s @ [(rq_origin rq, t)])"
proof -
  define rq1 where "rq1 = rq\<lparr>rq_dest := 0, rq_global := False, rq_system := False,
      rq_message := t @ NUL # drop (Suc (length t)) (rq_message rq)\<rparr>"
  let ?rq = "rq1\<lparr>rq_global := False, rq_dest := int pid\<rparr>"
  have f: "req_format_message False False inp rq = ok (?rq, inp')"
    unfolding assms(6) rq1_def
    by (rule format_message_typed [OF assms(1,3)])
      (use assms(4) ask_pid [OF assms(5)] in \<open>simp_all add: MESSAGE_LENGTH_def after_eof_def\<close>)
  have v: "valid_req ?rq" using assms by (simp add: rq1_def valid_req_def req_wf_def MESSAGE_LENGTH_def)
  have m: "msg_text ?rq = t" using assms(3) by (simp add: rq1_def msg_text_def takeWhile_nul)
  note rel = relayed_facts [OF v assms(7), of n]
  have o: "rs_origin (relayed rs ?rq n) = rq_origin rq" by (simp add: relayed_def rq1_def)
  have "\<exists>s'. client_read_messages True (\<lambda>k. (if k = 0 then [relayed rs ?rq n] else [], False)) s = ok (True, s') \<and>
       cl_shown s' = cl_shown s @ [(rq_origin rq, t)]"
    using rel(3) o assms(8)
    by (simp add: client_read_messages_def read_loop.simps [of _ 0] read_loop.simps [of _ "Suc 0"] m Let_def)
  with f rel(1) m show ?thesis by (intro exI [of _ ?rq] exI [of _ "relayed rs ?rq n"]) (simp add: rq1_def)
qed

text \<open>
  C36: a text of 512 characters or more overflows the buffer, although the documentation says it is
  cut off; and with a library that keeps the end-of-file indicator of \<open>stdin\<close> no message can be
  addressed at all: the answer to the first question is read from memory nobody has written.
\<close>

theorem client_text_overflows:
  assumes "req_wf rq"
  shows "(512 \<le> length t \<longrightarrow> req_format_message sticky flag (map Some t @ inp) rq = err Out_Of_Bounds) \<and>
    (length t < 512 \<longrightarrow> NUL \<notin> set t \<longrightarrow>
      req_format_message True False (map Some t @ None # inp) rq = err Uninit_Read)"
proof (intro conjI impI)
  assume "512 \<le> length t"
  then show "req_format_message sticky flag (map Some t @ inp) rq = err Out_Of_Bounds"
    using get_text_too_long [of "[]" t sticky inp] by (simp add: req_format_message_def MESSAGE_LENGTH_def)
next
  assume t: "length t < 512" "NUL \<notin> set t"
  show "req_format_message True False (map Some t @ None # inp) rq = err Uninit_Read"
    by (rule format_message_typed [OF assms t(2)], use t in \<open>simp add: MESSAGE_LENGTH_def\<close>)
      (subst ask_loop.simps, simp add: fgets_choice_def STD_LEN_def after_eof_def numeral_eq_Suc)
qed

text \<open>
  C5: the client program and the server program together. The server stands for a chat room, every
  client it writes to has its FIFO open, its sequence number stays an \<open>int\<close> and two cells of memory are
  left. A client that has nothing unread in its FIFO sends a valid request, not a message to itself,
  and the opens and the write of its exchange succeed. Then the server handles the request as the room
  does, and the client reads success exactly when the room accepts the request; its FIFO is empty
  again, and two more descriptors are open than before. With an unread message the verdict is mistaken
  (\<open>client_mistakes_message\<close>), and with a message to itself too (\<open>client_message_to_itself\<close>).
\<close>

theorem client_learns_verdict:
  assumes "valid_req (cl_req cl)" "\<And>p. reaches env p" "sim s c" "0 \<le> ch_seq c"
    and "ch_seq (spec_request c (cl_req cl)) \<le> INT_MAX" "2 \<le> avail (sv_mem s)" "pids_ok c (cl_req cl)"
    and "rq_system (cl_req cl) \<or> rq_global (cl_req cl) \<or> rq_dest (cl_req cl) \<noteq> rq_origin (cl_req cl)"
    and "cl_fifo cl = []" "ex_server x = Opened" "ex_write_ok x" "ex_client x = Opened"
  shows "\<exists>s' cl'. handle_request env s (cl_req cl) = ok s' \<and> sim s' (spec_request c (cl_req cl)) \<and>
    post_request nonblock (x\<lparr>ex_arrivals := inbox (rq_origin (cl_req cl)) s s'\<rparr>) cl = ok (accepted c (cl_req cl), cl') \<and>
    cl_fifo cl' = [] \<and> cl_fds cl' = cl_fds cl + 2"
proof -
  let ?rq = "cl_req cl"
  obtain s' where s': "handle_request env s ?rq = ok s'" "sim s' (spec_request c ?rq)"
    "map (\<lambda>r. cstr (rs_message r)) (inbox (rq_origin ?rq) s s') =
      map (\<lambda>t. ok (msg_text ?rq)) (filter (\<lambda>t. t = rq_origin ?rq) (relay_targets c ?rq)) @
      [ok (if accepted c ?rq then ''OK'' else ''FAIL'')]"
    using server_answers [OF assms(1-7)] by blast
  have "filter (\<lambda>t. t = rq_origin ?rq) (relay_targets c ?rq) = []"
    using assms(8) by (auto simp: relay_targets_def filter_empty_conv)
  with s'(3) obtain r where r: "inbox (rq_origin ?rq) s s' = [r]"
    "cstr (rs_message r) = ok (if accepted c ?rq then ''OK'' else ''FAIL'')" by auto
  have "post_request nonblock (x\<lparr>ex_arrivals := [r]\<rparr>) cl =
      ok ((if accepted c ?rq then ''OK'' else ''FAIL'') = ''OK'', cl\<lparr>cl_resp := r, cl_fifo := [],
        cl_fds := cl_fds cl + 2, cl_sent := cl_sent cl @ [?rq]\<rparr>)"
    by (rule post_request_reads) (use assms(9-12) r(2) in simp_all)
  with s'(1,2) r(1) show ?thesis by (auto split: if_splits)
qed

text \<open>
  A registered client that sends a message to itself is told that it failed, unless the text
  is \<open>OK\<close>: it takes its own message for the verdict. The verdict stays in the FIFO.
\<close>

theorem client_message_to_itself:
  assumes "valid_req (cl_req cl)" "\<And>p. reaches env p" "sim s c" "0 \<le> ch_seq c"
    and "ch_seq (spec_request c (cl_req cl)) \<le> INT_MAX" "2 \<le> avail (sv_mem s)" "pids_ok c (cl_req cl)"
    and "\<not> rq_system (cl_req cl)" "\<not> rq_global (cl_req cl)" "rq_dest (cl_req cl) = rq_origin (cl_req cl)"
    and "rq_origin (cl_req cl) \<in> set (ch_clients c)"
    and "cl_fifo cl = []" "ex_server x = Opened" "ex_write_ok x" "ex_client x = Opened"
  shows "\<exists>s' cl' r. handle_request env s (cl_req cl) = ok s' \<and> accepted c (cl_req cl) \<and>
    client_send (x\<lparr>ex_arrivals := inbox (rq_origin (cl_req cl)) s s'\<rparr>) cl = ok (msg_text (cl_req cl) = ''OK'', cl') \<and>
    cl_fifo cl' = [r] \<and> cstr (rs_message r) = ok ''OK''"
proof -
  let ?rq = "cl_req cl"
  obtain s' where s': "handle_request env s ?rq = ok s'"
    "map (\<lambda>r. cstr (rs_message r)) (inbox (rq_origin ?rq) s s') =
      map (\<lambda>t. ok (msg_text ?rq)) (filter (\<lambda>t. t = rq_origin ?rq) (relay_targets c ?rq)) @
      [ok (if accepted c ?rq then ''OK'' else ''FAIL'')]"
    using server_answers [OF assms(1-7)] by blast
  have acc: "accepted c ?rq" using assms(8) by (simp add: accepted_def)
  have "filter (\<lambda>t. t = rq_origin ?rq) (relay_targets c ?rq) = [rq_origin ?rq]"
    using assms(8-11) by (simp add: relay_targets_def)
  with s'(2) acc obtain r r2 where r: "inbox (rq_origin ?rq) s s' = [r, r2]"
    "cstr (rs_message r) = ok (msg_text ?rq)" "cstr (rs_message r2) = ok ''OK''" by auto
  have "post_request True (x\<lparr>ex_arrivals := [r, r2]\<rparr>) cl =
      ok (msg_text ?rq = ''OK'', cl\<lparr>cl_resp := r, cl_fifo := [r2],
        cl_fds := cl_fds cl + 2, cl_sent := cl_sent cl @ [?rq]\<rparr>)"
    by (rule post_request_reads) (use assms(12-15) r(2) in simp_all)
  with s'(1) r acc show ?thesis by (auto simp: client_send_def)
qed

text \<open>
  C35: when a message of another client is waiting unread, the check of the connection takes it for
  the verdict. Unless its text is \<open>OK\<close> the client believes the connection lost and exits with
  status 0, without telling the server, which keeps it registered.
\<close>

theorem client_mistakes_message:
  assumes "req_wf (cl_req s)" "0 \<le> rq_seq_len (cl_req s)" "cl_fifo s = r # rs" "cstr (rs_message r) = ok t" "t \<noteq> ''OK''"
    and "\<not> int_sys_flag s" "\<not> tn_sig_check (turns k)" "ex_server (tn_check (turns k)) = Opened"
    and "ex_write_ok (tn_check (turns k))" "ex_client (tn_check (turns k)) = Opened"
  shows "\<exists>s' rq. client_loop sticky turns k True s ch = ok (False, s') \<and> client_end bye False s' = ok (0, s') \<and>
    cl_sent s' = cl_sent s @ [rq] \<and> msg_text rq = ''check_connection'' \<and> cl_shown s' = cl_shown s"
proof -
  obtain rq where rq: "req_format_check_connection (cl_req s) = ok rq" "msg_text rq = ''check_connection''"
    using format_valid(2) [OF assms(1,2)] by (elim exE conjE)
  let ?s = "s\<lparr>cl_req := rq, cl_resp := r, cl_fifo := rs @ ex_arrivals (tn_check (turns k)), cl_fds := cl_fds s + 2,
     cl_sent := cl_sent s @ [rq]\<rparr>"
  have "client_send (tn_check (turns k)) (s\<lparr>cl_req := rq\<rparr>) = ok (False, ?s)"
    using post_request_reads [OF assms(8-10), of "s\<lparr>cl_req := rq\<rparr>" r "rs @ ex_arrivals (tn_check (turns k))" t True]
      assms(3-5) by (simp add: client_send_def)
  then have "client_turn sticky (turns k) s ch = ok (False, False, ?s, ch)"
    using rq(1) assms(7) by (simp add: client_turn_def)
  then have "client_loop sticky turns k True s ch = ok (False, ?s)"
    using assms(6) by (simp add: client_loop.simps [of _ _ k] client_loop.simps [of _ _ "Suc k" False])
  then show ?thesis using rq(2) by (intro exI [of _ ?s] exI [of _ rq]) (simp add: client_end_def)
qed

text \<open>
  Reading shows the unread messages in the order of their arrival, each with its sender, and
  leaves the FIFO empty; but when \<open>poll\<close> reports that the last writer has gone, the loop never ends.
\<close>

theorem client_reads_in_order:
  assumes "list_all2 (\<lambda>r t. cstr (rs_message r) = ok t) (cl_fifo s) ts" "\<forall>k. fst (polls k) = []"
  shows "(\<not> snd (polls (length ts)) \<longrightarrow>
      (\<exists>s'. client_read_messages True polls s = ok (True, s') \<and> cl_fifo s' = [] \<and>
         cl_shown s' = cl_shown s @ zip (map rs_origin (cl_fifo s)) ts)) \<and>
    ((\<forall>k. snd (polls k)) \<longrightarrow> client_read_messages True polls s = None)"
proof (intro conjI impI)
  let ?s = "s\<lparr>cl_fds := Suc (cl_fds s)\<rparr>"
  assume "\<not> snd (polls (length ts))"
  with read_loop_shows [of ?s ts polls 0] assms
  show "\<exists>s'. client_read_messages True polls s = ok (True, s') \<and> cl_fifo s' = [] \<and>
      cl_shown s' = cl_shown s @ zip (map rs_origin (cl_fifo s)) ts"
    by (auto simp: client_read_messages_def)
next
  assume "\<forall>k. snd (polls k)"
  then have p: "\<forall>j. polls j = ([], True)" using assms(2) by (metis prod.collapse)
  have "\<forall>r\<in>set (cl_fifo s). \<exists>t. cstr (rs_message r) = ok t"
    using assms(1) by (auto simp: list_all2_conv_all_nth in_set_conv_nth)
  with read_loop_hangs [OF p, of "s\<lparr>cl_fds := Suc (cl_fds s)\<rparr>" 0]
  show "client_read_messages True polls s = None" by (simp add: client_read_messages_def)
qed

section \<open>Examples\<close>

definition demo_response :: "int \<Rightarrow> string \<Rightarrow> response" where
  "demo_response origin t = \<lparr>rs_seq_num = 0, rs_global = False, rs_system = False, rs_origin = origin, rs_dest = 10,
     rs_message = t @ NUL # replicate (511 - length t) NUL\<rparr>"

definition demo_exchange :: "response list \<Rightarrow> exchange" where
  "demo_exchange rs = \<lparr>ex_server = Opened, ex_write_ok = True, ex_client = Opened, ex_arrivals = rs, ex_eof = True\<rparr>"

definition demo_client :: "response list \<Rightarrow> request \<Rightarrow> client" where
  "demo_client fifo rq = \<lparr>cl_req = rq, cl_resp = demo_response 0 [], cl_fifo = fifo, cl_sent = [], cl_fds = 0, cl_stdin = [],
     int_sys_flag = False, cl_shown = []\<rparr>"

definition demo_turn :: turn where
  "demo_turn = \<lparr>tn_check = demo_exchange [demo_response 0 ''OK''], tn_sig_check = False, tn_sig_prompt = False, tn_open = True,
     tn_polls = (\<lambda>k. ([], False)), tn_send = demo_exchange [demo_response 0 ''OK'']\<rparr>"

lemma demo_text: "NUL \<notin> set t \<Longrightarrow> cstr (rs_message (demo_response origin t)) = ok t"
  by (simp add: demo_response_def)

lemma demo_ok:
  "cl_fifo s = [] \<Longrightarrow> post_request nb (demo_exchange [demo_response 0 ''OK'']) s =
     ok (True, s\<lparr>cl_resp := demo_response 0 ''OK'', cl_fifo := [], cl_fds := cl_fds s + 2, cl_sent := cl_sent s @ [cl_req s]\<rparr>)"
  using post_request_reads [of "demo_exchange [demo_response 0 ''OK'']" s "demo_response 0 ''OK''" "[]" "''OK''" nb]
    demo_text [of "''OK''" 0] by (simp add: demo_exchange_def)

text \<open>The client connects, quits at the first prompt and disconnects.\<close>

lemma demo_main:
  assumes "req_wf req0"
  shows "\<exists>s. client_main True \<lparr>cs_mkfifo_ok = True, cs_atexit_ok = True\<rparr> 10 req0 resp0
      [Some CHR ''q'', Some CHR 0x0A] (demo_exchange [demo_response 0 ''OK'']) (\<lambda>k. demo_turn)
      (demo_exchange [demo_response 0 ''OK'']) = ok (0, s) \<and> length (cl_sent s) = 3"
proof -
  define s0 where "s0 = client_start 10 req0 resp0 [Some CHR ''q'', Some CHR 0x0A]"
  have i0: "client_inv 10 s0" using assms by (simp add: client_inv_def client_start_def req_wf_def s0_def)
  obtain rq1 where 1: "req_format_connect (cl_req s0) = ok rq1" "client_inv 10 (s0\<lparr>cl_req := rq1\<rparr>)"
    using inv_format(1) [OF i0] by (elim exE conjE)
  have f0: "cl_fifo s0 = []" "cl_sent s0 = []" "cl_fds s0 = 0" by (simp_all add: s0_def client_start_def)
  define s1 where "s1 = s0\<lparr>cl_req := rq1, cl_resp := demo_response 0 ''OK'', cl_fifo := [], cl_fds := 2, cl_sent := [rq1]\<rparr>"
  have c: "client_connect (demo_exchange [demo_response 0 ''OK'']) s0 = ok (True, s1)"
    by (simp add: client_connect_def 1(1) demo_ok f0 s1_def)
  obtain rq2 where 2: "req_format_check_connection rq1 = ok rq2" "client_inv 10 ((s0\<lparr>cl_req := rq1\<rparr>)\<lparr>cl_req := rq2\<rparr>)"
    using inv_format(2) [OF 1(2)] by auto
  define s2 where "s2 = s1\<lparr>cl_req := rq2, cl_fds := 4, cl_sent := [rq1, rq2], cl_stdin := []\<rparr>"
  have t: "client_turn True demo_turn s1 NUL = ok (True, True, s2, CHR ''q'')"
    using 2(1) by (simp add: client_turn_def s1_def s0_def client_start_def client_send_def demo_turn_def demo_ok s2_def
        is_space_def get_char_def)
  have l: "client_loop True (\<lambda>k. demo_turn) 0 True s1 NUL = ok (True, s2)"
    using t by (simp add: client_loop.simps [of _ _ 0] s1_def s0_def client_start_def)
  obtain rq3 where 3: "req_format_disconnect rq2 = ok rq3" "client_inv 10 ((s0\<lparr>cl_req := rq2\<rparr>)\<lparr>cl_req := rq3\<rparr>)"
    using inv_format(3) [OF 2(2)] by auto
  obtain rq4 where 4: "req_format_disconnect rq3 = ok rq4"
    using inv_format(3) [OF 3(2)] by auto
  have "\<exists>s. client_end (demo_exchange [demo_response 0 ''OK'']) True s2 = ok (0, s) \<and> length (cl_sent s) = 3"
    using 3(1) 4 by (simp add: client_end_def client_disconnect_def s2_def s1_def s0_def client_start_def demo_ok)
  with c l show ?thesis by (simp add: client_main_def s0_def [symmetric])
qed

lemma demo_req_wf: "length t < 512 \<Longrightarrow> req_wf (demo_req sys glob dest t)"
  by (simp add: demo_req_def req_wf_def MESSAGE_LENGTH_def)

lemma client_message_roundtrip_witness:
  "\<exists>rq' rs'. req_format_message False False
      [Some CHR ''h'', Some CHR ''i'', None, Some CHR ''n'', Some CHR 0x0A, Some CHR ''7'', Some CHR 0x0A]
      (demo_req False False 0 ''x'') = ok (rq', []) \<and> rq_dest rq' = 7 \<and> msg_text rq' = ''hi'' \<and>
    resp_format_msg (demo_response 0 []) rq' 5 = ok rs' \<and>
    (\<exists>s'. client_read_messages True (\<lambda>k. (if k = 0 then [rs'] else [], False)) (demo_client [] (demo_req False False 0 ''x'')) =
       ok (True, s') \<and> cl_shown s' = [(10, ''hi'')])"
proof -
  have "dec_nat 7 = ''7''" by code_simp
  then have inp: "[Some CHR ''h'', Some CHR ''i'', None, Some CHR ''n'', Some CHR 0x0A, Some CHR ''7'', Some CHR 0x0A] =
      map Some ''hi'' @ None # map Some (''n'' @ [CHR 0x0A]) @ map Some (dec_nat 7 @ [CHR 0x0A]) @ []" by simp
  have "req_wf (demo_req False False 0 ''x'')" "0 \<le> rq_seq_len (demo_req False False 0 ''x'')"
    "resp_wf (demo_response 0 [])" "cl_fifo (demo_client [] (demo_req False False 0 ''x'')) = []"
    by (simp_all add: demo_req_def req_wf_def demo_response_def resp_wf_def MESSAGE_LENGTH_def demo_client_def)
  from client_message_roundtrip [OF this(1,2) _ _ _ inp this(3,4), of 5] show ?thesis
    by (auto simp: INT_MAX_def demo_client_def demo_req_def)
qed

lemma client_text_overflows_witness:
  "req_format_message False False (map Some (replicate 512 CHR ''a'') @ [None]) (demo_req False False 0 ''x'') = err Out_Of_Bounds \<and>
   req_format_message True False [Some CHR ''a'', None] (demo_req False False 0 ''x'') = err Uninit_Read"
  using client_text_overflows [of "demo_req False False 0 ''x''" "replicate 512 CHR ''a''" False False "[None]"]
    client_text_overflows [of "demo_req False False 0 ''x''" "''a''" False False "[]"] demo_req_wf [of "''x''" False False 0]
  by simp

lemma demo_chat:
  obtains s where "sim s \<lparr>ch_clients = [10, 20], ch_seq = 0, ch_sent = []\<rparr>" "2 \<le> avail (sv_mem s)"
proof -
  obtain s where "server_inv s [10, 20]" "sv_seq s = 0" "sv_out s = []" "8 \<le> avail (sv_mem s)" by (rule demo_state)
  then show thesis using that [of s] by (simp add: sim_def sent_texts_def)
qed

lemma demo_client_fields [simp]:
  "cl_req (demo_client fifo rq) = rq" "cl_fifo (demo_client fifo rq) = fifo" "cl_shown (demo_client fifo rq) = []"
  "int_sys_flag (demo_client fifo rq) = False" "cl_sent (demo_client fifo rq) = []"
  by (simp_all add: demo_client_def)

lemma client_learns_verdict_witness:
  "\<exists>s s' cl'. sim s \<lparr>ch_clients = [10, 20], ch_seq = 0, ch_sent = []\<rparr> \<and>
    handle_request (demo_env 1 Opened) s (demo_req True False 0 ''new_client'') = ok s' \<and>
    post_request False (demo_exchange (inbox 10 s s')) (demo_client [] (demo_req True False 0 ''new_client'')) = ok (False, cl')"
proof -
  let ?c = "\<lparr>ch_clients = [10, 20], ch_seq = 0, ch_sent = []\<rparr>" and ?rq = "demo_req True False 0 ''new_client''"
  obtain s where s: "sim s ?c" "2 \<le> avail (sv_mem s)" by (rule demo_chat)
  have v: "valid_req ?rq" by (rule demo_valid) simp_all
  have t: "msg_text ?rq = ''new_client''" by (rule demo_valid) simp
  have a: "\<not> accepted ?c ?rq" by (simp add: accepted_def t)
  have "ch_seq (spec_request ?c ?rq) \<le> INT_MAX" by (simp add: spec_request_def t INT_MAX_def)
  moreover have "pids_ok ?c ?rq" by (simp add: pids_ok_def int_ok_small)
  ultimately show ?thesis
    using client_learns_verdict [of "demo_client [] ?rq" "demo_env 1 Opened" s ?c "demo_exchange []" False] s v a
    by (auto simp: demo_reaches demo_exchange_def)
qed

lemma client_message_to_itself_witness:
  "\<exists>s s' cl'. sim s \<lparr>ch_clients = [10, 20], ch_seq = 0, ch_sent = []\<rparr> \<and>
    handle_request (demo_env 1 Opened) s (demo_req False False 10 ''hi'') = ok s' \<and>
    client_send (demo_exchange (inbox 10 s s')) (demo_client [] (demo_req False False 10 ''hi'')) = ok (False, cl')"
proof -
  let ?c = "\<lparr>ch_clients = [10, 20], ch_seq = 0, ch_sent = []\<rparr>" and ?rq = "demo_req False False 10 ''hi''"
  obtain s where s: "sim s ?c" "2 \<le> avail (sv_mem s)" by (rule demo_chat)
  have v: "valid_req ?rq" by (rule demo_valid) simp_all
  have t: "msg_text ?rq = ''hi''" by (rule demo_valid) simp
  have "ch_seq (spec_request ?c ?rq) \<le> INT_MAX" by (simp add: spec_request_def INT_MAX_def)
  moreover have "pids_ok ?c ?rq" by (simp add: pids_ok_def int_ok_small)
  ultimately show ?thesis
    using client_message_to_itself [of "demo_client [] ?rq" "demo_env 1 Opened" s ?c "demo_exchange []"] s v t
    by (auto simp: demo_reaches demo_exchange_def)
qed

lemma client_mistakes_message_witness:
  "\<exists>s'. client_loop True (\<lambda>k. demo_turn) 0 True (demo_client [demo_response 20 ''hi''] (demo_req False False 0 ''x'')) NUL =
      ok (False, s') \<and> client_end (demo_exchange []) False s' = ok (0, s') \<and> length (cl_sent s') = 1 \<and> cl_shown s' = []"
proof -
  have "req_wf (demo_req False False 0 ''x'')" by (rule demo_req_wf) simp
  moreover have "cstr (rs_message (demo_response 20 ''hi'')) = ok ''hi''" by (rule demo_text) simp
  ultimately show ?thesis
    using client_mistakes_message [of "demo_client [demo_response 20 ''hi''] (demo_req False False 0 ''x'')"
        "demo_response 20 ''hi''" "[]" "''hi''" "\<lambda>k. demo_turn" 0 True NUL "demo_exchange []"]
    by (auto simp: demo_turn_def demo_exchange_def)
qed

lemma client_reads_in_order_witness:
  "(\<exists>s'. client_read_messages True (\<lambda>k. ([], False))
      (demo_client [demo_response 20 ''hi'', demo_response 30 ''ho''] (demo_req False False 0 ''x'')) = ok (True, s') \<and>
      cl_shown s' = [(20, ''hi''), (30, ''ho'')]) \<and>
   client_read_messages True (\<lambda>k. ([], True)) (demo_client [] (demo_req False False 0 ''x'')) = None"
proof -
  have t: "cstr (rs_message (demo_response 20 ''hi'')) = ok ''hi''" "cstr (rs_message (demo_response 30 ''ho'')) = ok ''ho''"
    by (rule demo_text; simp)+
  have o: "rs_origin (demo_response 20 ''hi'') = 20" "rs_origin (demo_response 30 ''ho'') = 30"
    by (simp_all add: demo_response_def)
  show ?thesis
    using client_reads_in_order [of "demo_client [demo_response 20 ''hi'', demo_response 30 ''ho''] (demo_req False False 0 ''x'')"
        "[''hi'', ''ho'']" "\<lambda>k. ([], False)"]
      client_reads_in_order [of "demo_client [] (demo_req False False 0 ''x'')" "[]" "\<lambda>k. ([], True)"] t o
    by auto
qed

end
