(* ===== verification/ChatSystem.thy ===== *)
theory ChatSystem
  imports ChatClient
begin

text \<open>
  The chat room as a system: the server and any number of clients, whose reads and writes of the
  named pipes interleave in every order. A client writes its request and reads the verdict in two
  steps, between which the server and the other clients move. The steps are made of the definitions
  of ChatServer and ChatClient; the theory shows that what every client finds in its FIFO is, in
  order, what the abstract room says to it.
\<close>

section \<open>What the room says\<close>

text \<open>A message with its sender, or a verdict, and the response that carries it.\<close>

datatype item = Said int string | Told bool

fun carries :: "response \<Rightarrow> item \<Rightarrow> bool" where
  "carries r (Said p t) \<longleftrightarrow> rs_origin r = p \<and> cstr (rs_message r) = ok t"
| "carries r (Told b) \<longleftrightarrow> cstr (rs_message r) = ok (if b then ''OK'' else ''FAIL'')"

definition room_items :: "chat \<Rightarrow> request \<Rightarrow> (int \<times> item) list" where
  "room_items c rq =
     map (\<lambda>t. (t, Said (rq_origin rq) (msg_text rq))) (relay_targets c rq) @ [(rq_origin rq, Told (accepted c rq))]"

definition items_for :: "int \<Rightarrow> (int \<times> item) list \<Rightarrow> item list" where
  "items_for p xs = map snd (filter (\<lambda>x. fst x = p) xs)"

text \<open>The room after some requests, and all it has said to one client.\<close>

definition empty_room :: chat where
  "empty_room = \<lparr>ch_clients = [], ch_seq = 0, ch_sent = []\<rparr>"

definition room_after :: "request list \<Rightarrow> chat" where
  "room_after rqs = foldl spec_request empty_room rqs"

fun says_from :: "chat \<Rightarrow> int \<Rightarrow> request list \<Rightarrow> item list" where
  "says_from c p [] = []"
| "says_from c p (rq # rqs) = items_for p (room_items c rq) @ says_from (spec_request c rq) p rqs"

definition room_says :: "int \<Rightarrow> request list \<Rightarrow> item list" where
  "room_says p rqs = says_from empty_room p rqs"

lemma room_after_simps [simp]:
  "room_after [] = empty_room" "room_after (rqs @ [rq]) = spec_request (room_after rqs) rq"
  by (simp_all add: room_after_def)

lemma says_from_snoc:
  "says_from c p (rqs @ [rq]) = says_from c p rqs @ items_for p (room_items (foldl spec_request c rqs) rq)"
  by (induction rqs arbitrary: c) simp_all

lemma room_says_simps [simp]:
  "room_says p [] = []"
  "room_says p (rqs @ [rq]) = room_says p rqs @ items_for p (room_items (room_after rqs) rq)"
  by (simp_all add: room_says_def room_after_def says_from_snoc)

lemma items_for_simps [simp]:
  "items_for p [] = []"
  "items_for p ((q, v) # xs) = (if q = p then v # items_for p xs else items_for p xs)"
  "items_for p (xs @ ys) = items_for p xs @ items_for p ys"
  by (simp_all add: items_for_def)

section \<open>What one request makes the server write\<close>

definition written :: "server \<Rightarrow> server \<Rightarrow> (int \<times> item) list \<Rightarrow> bool" where
  "written s s' vs \<longleftrightarrow> (\<exists>out. sv_out s' = sv_out s @ out \<and>
     list_all2 (\<lambda>e v. fst e = client_fifo_name (fst v) \<and> carries (snd e) (snd v)) out vs)"

lemma written_trans: "written s s1 vs \<Longrightarrow> written s1 s2 ws \<Longrightarrow> written s s2 (vs @ ws)"
  by (force simp: written_def intro: list_all2_appendI)

lemma written_none: "sv_out s' = sv_out s \<Longrightarrow> written s s' []"
  by (simp add: written_def)

lemma written_same: "sv_out s1 = sv_out s \<Longrightarrow> written s1 s' vs \<Longrightarrow> written s s' vs"
  by (simp add: written_def)

lemma reply_written:
  assumes "resp_wf (sv_resp s)" "reaches env (rq_origin rq)" "reply_verdict env s rq b = ok s'"
  shows "written s s' [(rq_origin rq, Told b)]"
  using assms verdict_text [of "sv_resp s" "rq_origin rq" b]
  by (auto simp: written_def reply_verdict_eq [OF assms(1)] send_sys_response_to send_to_reaches rbind_eq_ok)

lemma bcast_written:
  assumes "valid_req rq" "\<And>p. reaches env p" "resp_wf (sv_resp s)" "bcast_list env rq cs flag s = ok (b, s')"
  shows "written s s' (map (\<lambda>t. (t, Said (rq_origin rq) (msg_text rq))) (filter (\<lambda>x. x \<noteq> rq_origin rq) cs))"
proof -
  obtain out where o: "sv_out s' = sv_out s @ out"
    "map out_view out = relay_views rq (sv_seq s) (filter (\<lambda>x. x \<noteq> rq_origin rq) cs)"
    using bcast_out [OF assms(1) assms(2) assms(3,4)] by blast
  then have "length out = length (filter (\<lambda>x. x \<noteq> rq_origin rq) cs)"
    by (metis length_map length_enumerate relay_views_def)
  then have "list_all2 (\<lambda>e v. fst e = client_fifo_name (fst v) \<and> carries (snd e) (snd v)) out
      (map (\<lambda>t. (t, Said (rq_origin rq) (msg_text rq))) (filter (\<lambda>x. x \<noteq> rq_origin rq) cs))"
    using o(2) by (auto simp: list_all2_conv_all_nth list_eq_iff_nth_eq out_view_def relay_views_def nth_enumerate_eq)
  with o(1) show ?thesis unfolding written_def by blast
qed

lemma bcast_flag:
  assumes "valid_req rq" "\<And>p. reaches env p" "resp_wf (sv_resp s)" "bcast_list env rq cs flag s = ok (b, s')"
  shows "b = flag"
  using assms(3-)
proof (induction cs arbitrary: s)
  case (Cons x cs)
  show ?case
  proof (cases "x = rq_origin rq")
    case False
    let ?rs = "relayed (sv_resp s) rq (sv_seq s)"
    let ?s1 = "s\<lparr>sv_opens := Suc (sv_opens s), sv_resp := ?rs, sv_out := sv_out s @ [(client_fifo_name x, ?rs)]\<rparr>"
    note rel = relayed_facts [OF assms(1) Cons.prems(1), of "sv_seq s"]
    have "bcast_list env rq (x # cs) flag s =
        rbind (c_add (sv_seq s) (rq_seq_len rq)) (\<lambda>k. bcast_list env rq cs flag (?s1\<lparr>sv_seq := k\<rparr>))"
      using False assms(2) [of x] rel(1)
      by (simp add: fifo_open_def reaches_def Let_def fifo_write_def fifo_close_def)
    with Cons.prems(2) obtain k where "bcast_list env rq cs flag (?s1\<lparr>sv_seq := k\<rparr>) = ok (b, s')"
      by (auto simp: rbind_eq_ok simp del: bcast_list.simps)
    from Cons.IH [OF _ this] rel(2) show ?thesis by simp
  qed (use Cons in simp)
qed simp

lemma direct_written:
  assumes "valid_req rq" "\<And>p. reaches env p" "resp_wf (sv_resp s)" "handle_direct env s rq = ok s'"
  shows "written s s' [(rq_dest rq, Said (rq_origin rq) (msg_text rq)), (rq_origin rq, Told True)]"
proof -
  let ?rs = "relayed (sv_resp s) rq (sv_seq s)"
  let ?s1 = "s\<lparr>sv_resp := ?rs, sv_opens := Suc (sv_opens s), sv_out := sv_out s @ [(client_fifo_name (rq_dest rq), ?rs)]\<rparr>"
  note rel = relayed_facts [OF assms(1,3), of "sv_seq s"]
  obtain n where "reply_verdict env (?s1\<lparr>sv_seq := n\<rparr>) rq True = ok s'"
    using assms(4) rel(1) by (auto simp: handle_direct_def send_msg_to send_to_reaches [OF assms(2)] rbind_eq_ok)
  from reply_written [OF _ assms(2) this] rel(2)
  have "written (?s1\<lparr>sv_seq := n\<rparr>) s' [(rq_origin rq, Told True)]" by simp
  moreover have "written s (?s1\<lparr>sv_seq := n\<rparr>) [(rq_dest rq, Said (rq_origin rq) (msg_text rq))]"
    using rel(3) by (simp add: written_def relayed_def)
  ultimately show ?thesis using written_trans by fastforce
qed

lemma system_written:
  assumes v: "valid_req rq" and reach: "\<And>p. reaches env p" and inv: "server_inv s (ch_clients c)"
    and sys: "rq_system rq" and run: "handle_system env s rq = ok s'"
  shows "written s s' [(rq_origin rq, Told (accepted c rq))]"
proof -
  from inv have wf: "resp_wf (sv_resp s)" by (simp add: server_inv_def)
  have streq: "c_streq (rq_message rq) (lit t) = ok (msg_text rq = t)" if "NUL \<notin> set t" for t
    by (rule system_streq [OF v that])
  consider (connect) "msg_text rq = ''new_client''" | (disconnect) "msg_text rq = ''disconnect_client''"
    | (other) "msg_text rq \<noteq> ''new_client''" "msg_text rq \<noteq> ''disconnect_client''" by blast
  then show ?thesis
  proof cases
    case connect
    let ?new = "rq_origin rq \<notin> set (ch_clients c) \<and> int (length (ch_clients c)) < MAX_NUM_CLIENTS"
    have a: "accepted c rq = ?new" using connect sys by (simp add: accepted_def)
    have h: "handle_new_client env s rq = ok s'" using run connect by (simp add: handle_system_def streq)
    show ?thesis
    proof (cases ?new)
      case True
      with h obtain m L where "reply_verdict env (s\<lparr>sv_mem := m, sv_list := L\<rparr>) rq True = ok s'"
        by (auto simp: handle_new_client_eq [OF inv] rbind_eq_ok)
      from reply_written [OF _ reach this] wf have "written (s\<lparr>sv_mem := m, sv_list := L\<rparr>) s' [(rq_origin rq, Told True)]"
        by simp
      from written_same [OF _ this] show ?thesis using a True by simp
    next
      case False
      with h have "reply_verdict env s rq False = ok s'" by (simp only: handle_new_client_eq [OF inv] if_False)
      from reply_written [OF wf reach this] show ?thesis using a False by (simp only:)
    qed
  next
    case disconnect
    let ?b = "rq_origin rq \<in> set (ch_clients c)"
    obtain s1 where s1: "client_remove s (rq_origin rq) = ok (?b, s1)" "s1 = s\<lparr>sv_mem := sv_mem s1, sv_list := sv_list s1\<rparr>"
      using client_remove_eq [OF inv] by blast
    have h: "reply_verdict env s1 rq ?b = ok s'"
      using run disconnect s1(1) by (simp add: handle_system_def streq handle_disconnect_def)
    have same: "sv_out s1 = sv_out s" "sv_resp s1 = sv_resp s" by (subst s1(2); simp)+
    from reply_written [OF _ reach h] wf same(2) have "written s1 s' [(rq_origin rq, Told ?b)]" by simp
    from written_same [OF same(1) this] show ?thesis using disconnect sys by (simp add: accepted_def)
  next
    case other
    then have "reply_verdict env s rq True = ok s'"
      using run by (simp add: handle_system_def handle_check_def streq split: if_splits)
    from reply_written [OF wf reach this] other show ?thesis by (simp add: accepted_def)
  qed
qed

lemma request_written:
  assumes v: "valid_req rq" and reach: "\<And>p. reaches env p" and inv: "server_inv s (ch_clients c)"
    and run: "handle_request env s rq = ok s'"
  shows "written s s' (room_items c rq)"
proof -
  from inv have wf: "resp_wf (sv_resp s)" by (simp add: server_inv_def)
  consider (sys) "rq_system rq" | (glob) "\<not> rq_system rq" "rq_global rq"
    | (direct) "\<not> rq_system rq" "\<not> rq_global rq" "rq_dest rq \<in> set (ch_clients c)"
    | (unknown) "\<not> rq_system rq" "\<not> rq_global rq" "rq_dest rq \<notin> set (ch_clients c)"
    by blast
  then show ?thesis
  proof cases
    case sys
    with run system_written [OF v reach inv] show ?thesis
      by (simp add: handle_request_def room_items_def relay_targets_def)
  next
    case glob
    with run obtain b s1 where s1: "bcast_list env rq (ch_clients c) True s = ok (b, s1)" "reply_verdict env s1 rq b = ok s'"
      by (auto simp: handle_request_def handle_global_list [OF inv] rbind_eq_ok)
    have "b" using s1(1) bcast_flag [OF v reach wf] by blast
    have wf1: "resp_wf (sv_resp s1)" using bcast_list_inv [OF s1(1) inv] by (auto simp: server_inv_def)
    from written_trans [OF bcast_written [OF v reach wf s1(1)] reply_written [OF wf1 reach s1(2)]] glob \<open>b\<close>
    show ?thesis by (simp add: room_items_def relay_targets_def accepted_def)
  next
    case direct
    with run direct_written [OF v reach wf] show ?thesis
      by (simp add: handle_request_def server_contains [OF inv] room_items_def relay_targets_def accepted_def)
  next
    case unknown
    with run have "reply_verdict env s rq True = ok s'"
      by (simp add: handle_request_def server_contains [OF inv] handle_unknown_dest_def)
    from reply_written [OF wf reach this] unknown show ?thesis
      by (simp add: room_items_def relay_targets_def accepted_def)
  qed
qed

lemma inbox_carries:
  assumes "written s s' vs" "\<forall>v\<in>set vs. int_ok (fst v)" "int_ok p"
  shows "list_all2 carries (inbox p s s') (items_for p vs)"
proof -
  let ?P = "\<lambda>e v. fst e = client_fifo_name (fst v) \<and> carries (snd e) (snd v)"
  obtain out where o: "sv_out s' = sv_out s @ out" "list_all2 ?P out vs" using assms(1) by (auto simp: written_def)
  from o(2) assms(2) have "list_all2 carries (map snd (filter (\<lambda>x. fst x = client_fifo_name p) out)) (items_for p vs)"
  proof (induction out vs rule: list_all2_induct)
    case (Cons e out v vs)
    then show ?case using client_fifo_name_inject [OF _ assms(3), of "fst v"] by (cases v) auto
  qed simp
  with o(1) show ?thesis by (simp add: inbox_def)
qed

section \<open>The steps of a client\<close>

text \<open>The requests of the client program, formatted in the client's \<open>req\<close>.\<close>

datatype ask = Ask_Connect | Ask_Check | Ask_Disconnect | Ask_Message

definition prepare :: "bool \<Rightarrow> ask \<Rightarrow> client \<Rightarrow> client res" where
  "prepare sticky a s =
     (case a of
        Ask_Connect \<Rightarrow> rbind (req_format_connect (cl_req s)) (\<lambda>rq. ok (s\<lparr>cl_req := rq\<rparr>))
      | Ask_Check \<Rightarrow> rbind (req_format_check_connection (cl_req s)) (\<lambda>rq. ok (s\<lparr>cl_req := rq\<rparr>))
      | Ask_Disconnect \<Rightarrow> rbind (req_format_disconnect (cl_req s)) (\<lambda>rq. ok (s\<lparr>cl_req := rq\<rparr>))
      | Ask_Message \<Rightarrow>
          rbind (req_format_message sticky (int_sys_flag s) (cl_stdin s) (cl_req s)) (\<lambda>(rq, inp).
          ok (s\<lparr>cl_req := rq, cl_stdin := inp\<rparr>)))"

text \<open>The first half of an exchange: the FIFO of the server is open and the request written.\<close>

definition posted :: "client \<Rightarrow> client" where
  "posted s = s\<lparr>cl_fds := Suc (cl_fds s), cl_sent := cl_sent s @ [cl_req s]\<rparr>"

text \<open>
  The second half reads what is in the FIFO by then, and waits while there is nothing. Its \<open>open\<close> is
  taken to return: a client for which it never does takes no further step, which is a run of the
  system too. ChatOpens shows when this happens.
\<close>

definition waits :: exchange where
  "waits = \<lparr>ex_server = Opened, ex_write_ok = True, ex_client = Opened, ex_arrivals = [], ex_eof = False\<rparr>"

text \<open>One message of the reading loop.\<close>

definition show_one :: "client \<Rightarrow> client res" where
  "show_one s =
     (case cl_fifo s of
        [] \<Rightarrow> None
      | r # rs \<Rightarrow> rbind (cstr (rs_message r)) (\<lambda>t.
          ok (s\<lparr>cl_resp := r, cl_fifo := rs, cl_shown := cl_shown s @ [(rs_origin r, t)]\<rparr>)))"

lemma post_request_halves:
  "post_request nonblock (waits\<lparr>ex_arrivals := rs\<rparr>) s =
     check_sys_response waits ((posted s)\<lparr>cl_fifo := cl_fifo s @ rs\<rparr>)"
  by (cases s) (simp add: post_request_def check_sys_response_def waits_def posted_def Let_def split: list.split)

lemma read_loop_turn:
  "read_loop polls k s =
     (if cl_fifo s @ fst (polls k) = [] then if snd (polls k) then read_loop polls (Suc k) s else ok s
      else rbind (show_one (s\<lparr>cl_fifo := cl_fifo s @ fst (polls k)\<rparr>)) (read_loop polls (Suc k)))"
  by (subst read_loop.simps)
    (cases "cl_fifo s @ fst (polls k)"; simp add: show_one_def rbind_assoc Let_def)

section \<open>The system\<close>

text \<open>
  The server with the requests in its FIFO, and every client with its state, its FIFO being part of
  it. \<open>cy_waiting\<close> are the clients that have posted a request and not yet read a verdict. What was
  posted, told as a verdict and read is kept as a history.
\<close>

record chat_system =
  cy_server :: server
  cy_queue :: "request list"
  cy_clients :: "int \<Rightarrow> client"
  cy_waiting :: "int set"
  cy_posted :: "request list"
  cy_told :: "int \<Rightarrow> bool list"
  cy_read :: "int \<Rightarrow> response list"

definition chat_start :: "server \<Rightarrow> (int \<Rightarrow> client) \<Rightarrow> chat_system" where
  "chat_start s cls = \<lparr>cy_server = s, cy_queue = [], cy_clients = cls, cy_waiting = {}, cy_posted = [],
     cy_told = (\<lambda>p. []), cy_read = (\<lambda>p. [])\<rparr>"

definition client_posts :: "int \<Rightarrow> client \<Rightarrow> chat_system \<Rightarrow> chat_system" where
  "client_posts p cl S = S\<lparr>cy_clients := (cy_clients S)(p := posted cl), cy_waiting := insert p (cy_waiting S),
     cy_queue := cy_queue S @ [cl_req cl], cy_posted := cy_posted S @ [cl_req cl]\<rparr>"

definition client_hears :: "int \<Rightarrow> bool \<Rightarrow> client \<Rightarrow> chat_system \<Rightarrow> chat_system" where
  "client_hears p b cl S = S\<lparr>cy_clients := (cy_clients S)(p := cl), cy_waiting := cy_waiting S - {p},
     cy_told := (cy_told S)(p := cy_told S p @ [b]), cy_read := (cy_read S)(p := cy_read S p @ [cl_resp cl])\<rparr>"

definition client_shows :: "int \<Rightarrow> client \<Rightarrow> chat_system \<Rightarrow> chat_system" where
  "client_shows p cl S = S\<lparr>cy_clients := (cy_clients S)(p := cl), cy_read := (cy_read S)(p := cy_read S p @ [cl_resp cl])\<rparr>"

definition server_serves :: "server \<Rightarrow> request list \<Rightarrow> chat_system \<Rightarrow> chat_system" where
  "server_serves s' rqs S = S\<lparr>cy_server := s', cy_queue := rqs,
     cy_clients := (\<lambda>p. (cy_clients S p)\<lparr>cl_fifo := cl_fifo (cy_clients S p) @ inbox p (cy_server S) s'\<rparr>)\<rparr>"

text \<open>
  One step of one process. The keyboard and the signals of a client that is not in an exchange do
  what they like. A client that waits for its verdict does nothing else.
\<close>

inductive chat_step :: "bool \<Rightarrow> fifo_env \<Rightarrow> chat_system \<Rightarrow> chat_system \<Rightarrow> bool" for sticky env where
  post: "int_ok p \<Longrightarrow> p \<notin> cy_waiting S \<Longrightarrow> prepare sticky a (cy_clients S p) = ok cl \<Longrightarrow>
    chat_step sticky env S (client_posts p cl S)"
| hear: "p \<in> cy_waiting S \<Longrightarrow> check_sys_response waits (cy_clients S p) = ok (b, cl) \<Longrightarrow>
    chat_step sticky env S (client_hears p b cl S)"
| display: "p \<notin> cy_waiting S \<Longrightarrow> show_one (cy_clients S p) = ok cl \<Longrightarrow>
    chat_step sticky env S (client_shows p cl S)"
| user: "p \<notin> cy_waiting S \<Longrightarrow>
    chat_step sticky env S (S\<lparr>cy_clients := (cy_clients S)(p := (cy_clients S p)\<lparr>cl_stdin := inp, int_sys_flag := flag\<rparr>)\<rparr>)"
| serve: "cy_queue S = rq # rqs \<Longrightarrow> handle_request env (cy_server S) rq = ok s' \<Longrightarrow>
    chat_step sticky env S (server_serves s' rqs S)"

inductive chat_run :: "bool \<Rightarrow> fifo_env \<Rightarrow> chat_system \<Rightarrow> chat_system \<Rightarrow> bool" for sticky env S0 where
  init: "chat_run sticky env S0 S0"
| step: "chat_run sticky env S0 S \<Longrightarrow> chat_step sticky env S S' \<Longrightarrow> chat_run sticky env S0 S'"

lemma server_serves_simps [simp]:
  "cy_server (server_serves s' rqs S) = s'" "cy_queue (server_serves s' rqs S) = rqs"
  "cy_clients (server_serves s' rqs S) p =
     (cy_clients S p)\<lparr>cl_fifo := cl_fifo (cy_clients S p) @ inbox p (cy_server S) s'\<rparr>"
  "cy_waiting (server_serves s' rqs S) = cy_waiting S" "cy_posted (server_serves s' rqs S) = cy_posted S"
  "cy_told (server_serves s' rqs S) = cy_told S" "cy_read (server_serves s' rqs S) = cy_read S"
  by (simp_all add: server_serves_def)

lemma chat_run_trans: "chat_run sticky env S1 S2 \<Longrightarrow> chat_run sticky env S0 S1 \<Longrightarrow> chat_run sticky env S0 S2"
  by (induction rule: chat_run.induct) (auto intro: chat_run.intros)

section \<open>The invariant\<close>

text \<open>
  \<open>es\<close> are the requests the server has handled. \<open>N\<close> bounds the requests of a run: \<open>seq_num\<close> does not
  overflow before 40000 requests, whatever they are.
\<close>

definition chat_bound :: nat where "chat_bound = 40000"

definition request_ok :: "request \<Rightarrow> bool" where
  "request_ok rq \<longleftrightarrow> valid_req rq \<and> int_ok (rq_origin rq) \<and> rq_seq_len rq = SEQ_LENGTH"

definition room_ok :: "request list \<Rightarrow> bool" where
  "room_ok es \<longleftrightarrow> 0 \<le> ch_seq (room_after es) \<and> ch_seq (room_after es) \<le> int (length es) * (101 * SEQ_LENGTH) \<and>
     (\<forall>p\<in>set (ch_clients (room_after es)). int_ok p) \<and> length (ch_clients (room_after es)) \<le> 100"

lemma room_ok_snoc:
  assumes "room_ok es" "request_ok rq"
  shows "room_ok (es @ [rq])"
proof -
  let ?c = "room_after es"
  have l: "length (relay_targets ?c rq) \<le> 100"
    using assms(1) le_trans [OF length_filter_le] by (auto simp: relay_targets_def room_ok_def)
  have "ch_seq (spec_request ?c rq) = ch_seq ?c + (1 + int (length (relay_targets ?c rq))) * SEQ_LENGTH"
    using assms(2) by (simp add: spec_request_def relay_targets_def request_ok_def algebra_simps)
  moreover have "set (ch_clients (spec_request ?c rq)) \<subseteq> insert (rq_origin rq) (set (ch_clients ?c))"
    "length (ch_clients (spec_request ?c rq)) \<le> 100"
    using assms(1) set_remove1_subset by (auto simp: spec_request_def verdict_def relay_def room_ok_def MAX_NUM_CLIENTS_def length_remove1)
  ultimately show ?thesis
    using assms l by (auto simp: room_ok_def SEQ_LENGTH_def request_ok_def)
qed

lemma list_all2_member: "list_all2 P xs ys \<Longrightarrow> x \<in> set xs \<Longrightarrow> \<exists>y\<in>set ys. P x y"
  by (induction rule: list_all2_induct) auto

lemma prepare_facts:
  assumes "prepare sticky a s = ok cl" "client_inv p s"
  shows "client_inv p (posted cl)" "valid_req (cl_req cl)" "rq_origin (cl_req cl) = p"
    "rq_seq_len (cl_req cl) = SEQ_LENGTH" "cl_fifo cl = cl_fifo s" "cl_shown cl = cl_shown s"
proof -
  have "\<exists>rq inp. cl = s\<lparr>cl_req := rq, cl_stdin := inp\<rparr> \<and> valid_req rq \<and> client_inv p (s\<lparr>cl_req := rq\<rparr>)"
  proof (cases "a = Ask_Message")
    case True
    with assms(1) obtain rq inp where r: "req_format_message sticky (int_sys_flag s) (cl_stdin s) (cl_req s) = ok (rq, inp)"
      "cl = s\<lparr>cl_req := rq, cl_stdin := inp\<rparr>" by (auto simp: prepare_def rbind_eq_ok)
    from format_message_valid [OF r(1)] assms(2)
    have v: "valid_req rq" "rq_origin rq = rq_origin (cl_req s)" "rq_seq_len rq = rq_seq_len (cl_req s)"
      by (simp_all add: client_inv_def SEQ_LENGTH_def)
    from r(2) v(1) formatted_inv [OF assms(2) v] show ?thesis by blast
  next
    case False
    with assms(1) inv_format [OF assms(2)] obtain rq where
      "cl = s\<lparr>cl_req := rq\<rparr>" "valid_req rq" "client_inv p (s\<lparr>cl_req := rq\<rparr>)"
      by (cases a) (auto simp: prepare_def rbind_eq_ok)
    then show ?thesis by (intro exI [of _ rq] exI [of _ "cl_stdin s"]) simp
  qed
  then show "client_inv p (posted cl)" "valid_req (cl_req cl)" "rq_origin (cl_req cl) = p"
    "rq_seq_len (cl_req cl) = SEQ_LENGTH" "cl_fifo cl = cl_fifo s" "cl_shown cl = cl_shown s"
    by (auto simp: client_inv_def posted_def)
qed

lemma hear_facts:
  assumes "check_sys_response waits s = ok (b, cl)"
  obtains r rs where "cl_fifo s = r # rs" "cl = s\<lparr>cl_fds := Suc (cl_fds s), cl_resp := r, cl_fifo := rs\<rparr>"
    "c_streq (rs_message r) (lit ''OK'') = ok b"
  using assms by (cases "cl_fifo s") (auto simp: check_sys_response_def waits_def rbind_eq_ok Let_def)

lemma hear_verdict: "c_streq (rs_message r) (lit ''OK'') = ok b \<Longrightarrow> carries r (Told b') \<Longrightarrow> b = b'"
  using c_streq_cstr [of "rs_message r" "if b' then ''OK'' else ''FAIL''" "''OK''"] by auto

lemma show_facts:
  assumes "show_one s = ok cl"
  obtains r rs t where "cl_fifo s = r # rs" "cstr (rs_message r) = ok t"
    "cl = s\<lparr>cl_resp := r, cl_fifo := rs, cl_shown := cl_shown s @ [(rs_origin r, t)]\<rparr>"
  using assms by (cases "cl_fifo s") (auto simp: show_one_def rbind_eq_ok)

definition chat_inv :: "nat \<Rightarrow> request list \<Rightarrow> chat_system \<Rightarrow> bool" where
  "chat_inv N es S \<longleftrightarrow>
     cy_posted S = es @ cy_queue S \<and> (\<forall>rq\<in>set (cy_posted S). request_ok rq) \<and>
     sim (cy_server S) (room_after es) \<and> room_ok es \<and> 2 * N \<le> avail (sv_mem (cy_server S)) + 2 * length es \<and>
     (\<forall>p. client_inv p (cy_clients S p)) \<and>
     (\<forall>p. int_ok p \<longrightarrow> list_all2 carries (cy_read S p @ cl_fifo (cy_clients S p)) (room_says p es)) \<and>
     (\<forall>p\<in>cy_waiting S. int_ok p \<and> (cl_fifo (cy_clients S p) \<noteq> [] \<or> (\<exists>rq\<in>set (cy_queue S). rq_origin rq = p))) \<and>
     (\<forall>p. \<forall>x\<in>set (cl_shown (cy_clients S p)). \<exists>r\<in>set (cy_read S p). rs_origin r = fst x \<and> cstr (rs_message r) = ok (snd x))"

lemma chat_invD:
  assumes "chat_inv N es S"
  shows "cy_posted S = es @ cy_queue S" "\<forall>rq\<in>set (cy_posted S). request_ok rq" "sim (cy_server S) (room_after es)"
    "room_ok es" "2 * N \<le> avail (sv_mem (cy_server S)) + 2 * length es" "client_inv p (cy_clients S p)"
    "int_ok p \<Longrightarrow> list_all2 carries (cy_read S p @ cl_fifo (cy_clients S p)) (room_says p es)"
    "p \<in> cy_waiting S \<Longrightarrow> int_ok p \<and> (cl_fifo (cy_clients S p) \<noteq> [] \<or> (\<exists>rq\<in>set (cy_queue S). rq_origin rq = p))"
    "x \<in> set (cl_shown (cy_clients S p)) \<Longrightarrow>
       \<exists>r\<in>set (cy_read S p). rs_origin r = fst x \<and> cstr (rs_message r) = ok (snd x)"
  using assms by (auto simp: chat_inv_def)

lemma post_chat_inv:
  assumes "chat_inv N es S" "int_ok p" "prepare sticky a (cy_clients S p) = ok cl"
  shows "chat_inv N es (client_posts p cl S)"
proof -
  note f = prepare_facts [OF assms(3) chat_invD(6) [OF assms(1)]]
  have "request_ok (cl_req cl)" using f assms(2) by (simp add: request_ok_def)
  with assms(1,2) f show ?thesis by (auto simp: chat_inv_def client_posts_def posted_def)
qed

lemma hear_chat_inv:
  assumes "chat_inv N es S" "check_sys_response waits (cy_clients S p) = ok (b, cl)"
  shows "chat_inv N es (client_hears p b cl S)"
proof -
  obtain r rs where r: "cl_fifo (cy_clients S p) = r # rs"
    "cl = (cy_clients S p)\<lparr>cl_fds := Suc (cl_fds (cy_clients S p)), cl_resp := r, cl_fifo := rs\<rparr>"
    using assms(2) by (rule hear_facts)
  have "client_inv p cl" using client_inv_same [OF chat_invD(6) [OF assms(1)]] r(2) by simp
  with assms(1) r show ?thesis by (auto simp: chat_inv_def client_hears_def)
qed

lemma show_chat_inv:
  assumes "chat_inv N es S" "p \<notin> cy_waiting S" "show_one (cy_clients S p) = ok cl"
  shows "chat_inv N es (client_shows p cl S)"
proof -
  obtain r rs t where r: "cl_fifo (cy_clients S p) = r # rs" "cstr (rs_message r) = ok t"
    "cl = (cy_clients S p)\<lparr>cl_resp := r, cl_fifo := rs, cl_shown := cl_shown (cy_clients S p) @ [(rs_origin r, t)]\<rparr>"
    using assms(3) by (rule show_facts)
  have "client_inv p cl" using client_inv_same [OF chat_invD(6) [OF assms(1)]] r(3) by simp
  with assms(1,2) r show ?thesis by (auto simp: chat_inv_def client_shows_def)
qed

lemma user_chat_inv:
  assumes "chat_inv N es S"
  shows "chat_inv N es (S\<lparr>cy_clients := (cy_clients S)(p := (cy_clients S p)\<lparr>cl_stdin := inp, int_sys_flag := flag\<rparr>)\<rparr>)"
proof -
  have "client_inv p ((cy_clients S p)\<lparr>cl_stdin := inp, int_sys_flag := flag\<rparr>)"
    using client_inv_same [OF chat_invD(6) [OF assms]] by simp
  with assms show ?thesis by (auto simp: chat_inv_def)
qed

text \<open>The server can handle the request at the head of its queue, and does as the room does.\<close>

lemma chat_serves:
  assumes inv: "chat_inv N es S" and queue: "cy_queue S = rq # rqs"
    and len: "length (cy_posted S) \<le> N" "N \<le> chat_bound" and reach: "\<And>p. reaches env p"
  obtains s' where "handle_request env (cy_server S) rq = ok s'" "sim s' (room_after (es @ [rq]))"
    "avail (sv_mem (cy_server S)) \<le> avail (sv_mem s') + 2" "written (cy_server S) s' (room_items (room_after es) rq)"
    "room_ok (es @ [rq])" "request_ok rq"
proof -
  note I = chat_invD [OF inv]
  have rq: "request_ok rq" using I(2) by (simp add: I(1) queue)
  have ok: "room_ok (es @ [rq])" by (rule room_ok_snoc [OF I(4) rq])
  have "length (es @ [rq]) \<le> chat_bound" using len by (simp add: I(1) queue)
  with ok have bound: "ch_seq (spec_request (room_after es) rq) \<le> INT_MAX"
    by (simp add: room_ok_def chat_bound_def SEQ_LENGTH_def INT_MAX_def)
  have av: "2 \<le> avail (sv_mem (cy_server S))" using I(5) len by (simp add: I(1) queue)
  have v: "valid_req rq" "0 \<le> ch_seq (room_after es)" using rq I(4) by (simp_all add: request_ok_def room_ok_def)
  obtain s' where s': "handle_request env (cy_server S) rq = ok s'" "good_outcome (cy_server S) (spec_request (room_after es) rq) s'"
    using request_sim [OF v(1) reach I(3) v(2) bound av] by blast
  have "server_inv (cy_server S) (ch_clients (room_after es))" using I(3) by (simp add: sim_def)
  from request_written [OF v(1) reach this s'(1)] s' ok rq show thesis
    by (intro that [of s']) (simp_all add: good_outcome_def)
qed

lemma room_items_ok:
  "room_ok es \<Longrightarrow> request_ok rq \<Longrightarrow> \<forall>v\<in>set (room_items (room_after es) rq). int_ok (fst v)"
  by (auto simp: room_items_def relay_targets_def room_ok_def request_ok_def split: if_splits)

lemma serve_chat_inv:
  assumes inv: "chat_inv N es S" and queue: "cy_queue S = rq # rqs"
    and run: "handle_request env (cy_server S) rq = ok s'"
    and len: "length (cy_posted S) \<le> N" "N \<le> chat_bound" and reach: "\<And>p. reaches env p"
  shows "chat_inv N (es @ [rq]) (server_serves s' rqs S)"
proof -
  note I = chat_invD [OF inv]
  obtain s where s: "handle_request env (cy_server S) rq = ok s" "sim s (room_after (es @ [rq]))"
    "avail (sv_mem (cy_server S)) \<le> avail (sv_mem s) + 2" "written (cy_server S) s (room_items (room_after es) rq)"
    "room_ok (es @ [rq])" "request_ok rq"
    using chat_serves [OF inv queue len reach] by blast
  have [simp]: "s = s'" using s(1) run by simp
  have box: "list_all2 carries (inbox p (cy_server S) s') (items_for p (room_items (room_after es) rq))" if "int_ok p" for p
    using inbox_carries [OF s(4) room_items_ok [OF I(4) s(6)] that] by simp
  have told: "inbox (rq_origin rq) (cy_server S) s' \<noteq> []"
    using box [of "rq_origin rq"] s(6) by (auto simp: request_ok_def room_items_def)
  let ?S = "server_serves s' rqs S"
  show ?thesis
    unfolding chat_inv_def
  proof (intro conjI allI impI ballI)
    fix p assume "p \<in> cy_waiting ?S"
    with I(8) [of p] told
    show "int_ok p" "cl_fifo (cy_clients ?S p) \<noteq> [] \<or> (\<exists>rq\<in>set (cy_queue ?S). rq_origin rq = p)"
      by (auto simp: queue)
  next
    fix p x assume "x \<in> set (cl_shown (cy_clients ?S p))"
    with I(9) [of x p] show "\<exists>r\<in>set (cy_read ?S p). rs_origin r = fst x \<and> cstr (rs_message r) = ok (snd x)" by simp
  next
    fix p assume "int_ok p"
    from list_all2_appendI [OF I(7) [OF this] box [OF this]]
    show "list_all2 carries (cy_read ?S p @ cl_fifo (cy_clients ?S p)) (room_says p (es @ [rq]))" by simp
  next
    fix p show "client_inv p (cy_clients ?S p)" using client_inv_same [OF I(6) [of p]] by simp
  qed (use I(1,2,5) s queue in auto)
qed

text \<open>A client to which nobody says anything: its verdicts, one of which may be on its way.\<close>

definition only_told :: "item list \<Rightarrow> bool" where
  "only_told vs \<longleftrightarrow> (\<forall>v\<in>set vs. \<exists>b. v = Told b)"

definition told_inv :: "int \<Rightarrow> request list \<Rightarrow> chat_system \<Rightarrow> bool" where
  "told_inv p es S \<longleftrightarrow> cl_shown (cy_clients S p) = [] \<and>
     (\<exists>pend. room_says p es = map Told (cy_told S p @ pend) \<and> list_all2 carries (cl_fifo (cy_clients S p)) (map Told pend) \<and>
       length pend + length (filter (\<lambda>rq. rq_origin rq = p) (cy_queue S)) = (if p \<in> cy_waiting S then 1 else 0))"

lemma told_invE:
  assumes "told_inv p es S"
  obtains pend where "room_says p es = map Told (cy_told S p @ pend)" "list_all2 carries (cl_fifo (cy_clients S p)) (map Told pend)"
    "length pend + length (filter (\<lambda>rq. rq_origin rq = p) (cy_queue S)) = (if p \<in> cy_waiting S then 1 else 0)"
    "cl_shown (cy_clients S p) = []"
  using assms unfolding told_inv_def by blast

lemma post_told_inv:
  assumes "told_inv p es S" "q \<notin> cy_waiting S" "prepare sticky a (cy_clients S q) = ok cl" "client_inv q (cy_clients S q)"
  shows "told_inv p es (client_posts q cl S)"
  using assms(1) prepare_facts [OF assms(3,4)] assms(2)
  by (auto simp: told_inv_def client_posts_def posted_def)

lemma hear_told_inv:
  assumes "told_inv p es S" "q \<in> cy_waiting S" "check_sys_response waits (cy_clients S q) = ok (b, cl)"
  shows "told_inv p es (client_hears q b cl S)"
proof (cases "q = p")
  case True
  obtain r rs where r: "cl_fifo (cy_clients S q) = r # rs"
    "cl = (cy_clients S q)\<lparr>cl_fds := Suc (cl_fds (cy_clients S q)), cl_resp := r, cl_fifo := rs\<rparr>"
    "c_streq (rs_message r) (lit ''OK'') = ok b"
    using assms(3) by (rule hear_facts)
  obtain pend where p: "room_says p es = map Told (cy_told S p @ pend)" "list_all2 carries (cl_fifo (cy_clients S p)) (map Told pend)"
    "length pend + length (filter (\<lambda>rq. rq_origin rq = p) (cy_queue S)) = (if p \<in> cy_waiting S then 1 else 0)"
    "cl_shown (cy_clients S p) = []"
    using assms(1) by (rule told_invE)
  from p(2) r(1) True obtain b' bs where b: "pend = b' # bs" "carries r (Told b')" "list_all2 carries rs (map Told bs)"
    by (cases pend) auto
  have "b' = b" using hear_verdict [OF r(3) b(2)] by simp
  with p b r True assms(2) show ?thesis by (auto simp: told_inv_def client_hears_def)
next
  case False
  with assms(1) show ?thesis by (simp add: told_inv_def client_hears_def)
qed

lemma show_told_inv:
  assumes "told_inv p es S" "q \<notin> cy_waiting S" "show_one (cy_clients S q) = ok cl"
  shows "told_inv p es (client_shows q cl S)"
proof (cases "q = p")
  case True
  obtain r rs where "cl_fifo (cy_clients S q) = r # rs" using assms(3) by (rule show_facts)
  with assms(1,2) True show ?thesis by (auto simp: told_inv_def)
next
  case False
  with assms(1) show ?thesis by (simp add: told_inv_def client_shows_def)
qed

lemma serve_told_inv:
  assumes inv: "told_inv p es S" and queue: "cy_queue S = rq # rqs" and told: "only_told (room_says p (es @ [rq]))"
    and box: "list_all2 carries (inbox p (cy_server S) s') (items_for p (room_items (room_after es) rq))"
  shows "told_inv p (es @ [rq]) (server_serves s' rqs S)"
proof -
  obtain pend where p: "room_says p es = map Told (cy_told S p @ pend)" "list_all2 carries (cl_fifo (cy_clients S p)) (map Told pend)"
    "length pend + length (filter (\<lambda>rq. rq_origin rq = p) (cy_queue S)) = (if p \<in> cy_waiting S then 1 else 0)"
    "cl_shown (cy_clients S p) = []"
    using inv by (rule told_invE)
  let ?new = "if rq_origin rq = p then [accepted (room_after es) rq] else []"
  let ?said = "items_for p (map (\<lambda>t. (t, Said (rq_origin rq) (msg_text rq))) (relay_targets (room_after es) rq))"
  have "\<forall>v\<in>set ?said. v = Said (rq_origin rq) (msg_text rq)" by (auto simp: items_for_def)
  moreover have "\<forall>v\<in>set ?said. \<exists>b. v = Told b" using told by (simp add: only_told_def room_items_def)
  ultimately have "?said = []" by (cases ?said) auto
  then have new: "items_for p (room_items (room_after es) rq) = map Told ?new" by (simp add: room_items_def)
  have "list_all2 carries (cl_fifo (cy_clients S p) @ inbox p (cy_server S) s') (map Told (pend @ ?new))"
    using list_all2_appendI [OF p(2) box] unfolding new by simp
  then show ?thesis
    using p(1,3,4) queue new unfolding told_inv_def
    by (intro conjI exI [of _ "pend @ ?new"]) (auto split: if_splits)
qed


section \<open>Properties of the system\<close>

text \<open>The requests the server has taken from its FIFO.\<close>

definition handled :: "chat_system \<Rightarrow> request list" where
  "handled S = take (length (cy_posted S) - length (cy_queue S)) (cy_posted S)"

lemma handled_inv: "chat_inv N es S \<Longrightarrow> handled S = es"
  by (simp add: handled_def chat_inv_def)

text \<open>
  A server just started, with memory for \<open>N\<close> requests, and clients just started, each with its process
  id; their buffers and keyboards hold anything.
\<close>

definition chat_starts :: "server_setup \<Rightarrow> int mem \<Rightarrow> response \<Rightarrow> (int \<Rightarrow> client) \<Rightarrow> nat \<Rightarrow> chat_system \<Rightarrow> bool" where
  "chat_starts su m buf cls N S \<longleftrightarrow>
     (\<exists>s. server_init su m buf = ok s \<and> S = chat_start s cls) \<and> fresh_brk m \<and> resp_wf buf \<and> 4 + 2 * N \<le> avail m \<and>
     (\<forall>p. \<exists>req0 resp0 inp. req_wf req0 \<and> cls p = client_start p req0 resp0 inp)"

lemma chat_inv_start:
  assumes "chat_starts su m buf cls N S"
  shows "chat_inv N [] S" "told_inv p [] S"
proof -
  from assms obtain s where s: "server_init su m buf = ok s" "S = chat_start s cls" "fresh_brk m" "resp_wf buf"
    "4 + 2 * N \<le> avail m" by (auto simp: chat_starts_def)
  have ok: "mkfifo_ok su" "open_read_ok su" "open_write_ok su" "signal_ok su"
    using s(1) by (auto simp: server_init_def rbind_eq_ok split: prod.splits if_splits)
  from server_init_ok [OF ok s(3) _ s(4)] s(1,5)
  have s0: "server_inv s []" "sv_seq s = 0" "sv_out s = []" "avail (sv_mem s) = avail m - 4" by auto
  have c: "client_inv p (cls p) \<and> cl_fifo (cls p) = [] \<and> cl_shown (cls p) = []" for p
  proof -
    obtain req0 resp0 inp where "req_wf req0" "cls p = client_start p req0 resp0 inp"
      using assms unfolding chat_starts_def by blast
    then show ?thesis by (simp add: client_inv_def client_start_def req_wf_def)
  qed
  show "chat_inv N [] S"
    using s0 s(5) c by (simp add: chat_inv_def chat_start_def s(2) sim_def empty_room_def sent_texts_def room_ok_def)
  show "told_inv p [] S" using c by (simp add: told_inv_def chat_start_def s(2))
qed

lemma chat_step_grows: "chat_step sticky env S S' \<Longrightarrow> length (cy_posted S) \<le> length (cy_posted S')"
  by (induction rule: chat_step.induct) (simp_all add: client_posts_def client_hears_def client_shows_def)

lemma chat_step_inv:
  assumes "chat_step sticky env S S'" "chat_inv N es S" "only_told (room_says p es) \<Longrightarrow> told_inv p es S"
    and "length (cy_posted S') \<le> N" "N \<le> chat_bound" "\<And>p. reaches env p" "int_ok p"
  shows "\<exists>es'. chat_inv N es' S' \<and> (only_told (room_says p es') \<longrightarrow> told_inv p es' S')"
  using assms(1)
proof cases
  case (post q a cl)
  with post_chat_inv [OF assms(2)] post_told_inv [of p es S q sticky a cl] chat_invD(6) [OF assms(2)] assms(3)
  show ?thesis by blast
next
  case (hear q b cl)
  with hear_chat_inv [OF assms(2)] hear_told_inv assms(3) show ?thesis by blast
next
  case (display q cl)
  with show_chat_inv [OF assms(2)] show_told_inv assms(3) show ?thesis by blast
next
  case (user q inp flag)
  have "told_inv p es S \<Longrightarrow> told_inv p es S'" by (cases "q = p") (auto simp: user(1) told_inv_def)
  with user user_chat_inv [OF assms(2)] assms(3) show ?thesis by blast
next
  case (serve rq rqs s')
  have len: "length (cy_posted S) \<le> N" using chat_step_grows [OF assms(1)] assms(4) by simp
  note inv = serve_chat_inv [OF assms(2) serve(2,3) len assms(5,6)]
  obtain s where s: "handle_request env (cy_server S) rq = ok s" "written (cy_server S) s (room_items (room_after es) rq)" "request_ok rq"
    using chat_serves [OF assms(2) serve(2) len assms(5,6)] by blast
  have box: "list_all2 carries (inbox p (cy_server S) s') (items_for p (room_items (room_after es) rq))"
    using inbox_carries [OF s(2) room_items_ok [OF chat_invD(4) [OF assms(2)] s(3)] assms(7)] s(1) serve(3) by simp
  have "only_told (room_says p (es @ [rq])) \<Longrightarrow> told_inv p (es @ [rq]) S'"
    using serve_told_inv [OF _ serve(2) _ box] assms(3) serve(1) by (simp add: only_told_def)
  with inv serve(1) show ?thesis by blast
qed

lemma chat_run_inv:
  assumes "chat_run sticky env S0 S" "chat_starts su m buf cls N S0"
    and "length (cy_posted S) \<le> N" "N \<le> chat_bound" "\<And>p. reaches env p" "int_ok p"
  shows "chat_inv N (handled S) S" "only_told (room_says p (handled S)) \<Longrightarrow> told_inv p (handled S) S"
proof -
  have "\<exists>es. chat_inv N es S \<and> (only_told (room_says p es) \<longrightarrow> told_inv p es S)"
    using assms(1,3)
  proof (induction rule: chat_run.induct)
    case init
    then show ?case using chat_inv_start [OF assms(2)] by blast
  next
    case (step S S')
    then obtain es where "chat_inv N es S" "only_told (room_says p es) \<longrightarrow> told_inv p es S"
      using chat_step_grows by (meson le_trans)
    with chat_step_inv [OF step.hyps(2) _ _ step.prems assms(4,5,6)] show ?case by blast
  qed
  then obtain es where "chat_inv N es S" "only_told (room_says p es) \<longrightarrow> told_inv p es S" by blast
  with handled_inv show "chat_inv N (handled S) S" "only_told (room_says p (handled S)) \<Longrightarrow> told_inv p (handled S) S" by auto
qed

lemma said_was_posted:
  assumes "Said q t \<in> set (room_says p es)"
  shows "\<exists>rq\<in>set es. rq_origin rq = q \<and> msg_text rq = t \<and> \<not> rq_system rq \<and> (rq_global rq \<or> rq_dest rq = p)"
  using assms
proof (induction es rule: rev_induct)
  case (snoc rq es)
  have "rq_origin rq = q \<and> msg_text rq = t \<and> p \<in> set (relay_targets c rq)"
    if "Said q t \<in> set (items_for p (room_items c rq))" for c
    using that by (auto simp: items_for_def room_items_def split: if_splits)
  moreover have "p \<in> set (relay_targets c rq) \<Longrightarrow> \<not> rq_system rq \<and> (rq_global rq \<or> rq_dest rq = p)" for c
    by (auto simp: relay_targets_def split: if_splits)
  ultimately show ?case using snoc by auto
qed simp

lemma chat_hears:
  assumes "chat_inv N es S" "p \<in> cy_waiting S" "cy_queue S = []"
  shows "\<exists>b cl. check_sys_response waits (cy_clients S p) = ok (b, cl)"
proof -
  from chat_invD(8) [OF assms(1,2)] assms(3) obtain r rs where r: "int_ok p" "cl_fifo (cy_clients S p) = r # rs"
    by (auto simp: neq_Nil_conv)
  from list_all2_member [OF chat_invD(7) [OF assms(1) r(1)], of r] r(2) obtain v where "carries r v" by auto
  then obtain t where "cstr (rs_message r) = ok t" by (cases v) auto
  from c_streq_cstr [OF this, of "''OK''"] r(2) show ?thesis
    by (simp add: check_sys_response_def waits_def)
qed

lemma chat_empties:
  assumes "chat_inv N es S" "length (cy_posted S) \<le> N" "N \<le> chat_bound" "\<And>p. reaches env p"
  shows "\<exists>S' es'. chat_run sticky env S S' \<and> chat_inv N es' S' \<and> cy_queue S' = [] \<and> cy_posted S' = cy_posted S \<and>
    cy_waiting S' = cy_waiting S"
  using assms(1,2)
proof (induction "length (cy_queue S)" arbitrary: S es)
  case 0
  then show ?case using chat_run.init by force
next
  case (Suc n)
  obtain rq rqs where q: "cy_queue S = rq # rqs" "n = length rqs" using Suc.hyps(2) by (cases "cy_queue S") auto
  obtain s' where s': "handle_request env (cy_server S) rq = ok s'"
    using chat_serves [OF Suc.prems(1) q(1) Suc.prems(2) assms(3,4)] by blast
  let ?S = "server_serves s' rqs S"
  have step: "chat_step sticky env S ?S" by (rule chat_step.serve [OF q(1) s'])
  have "chat_inv N (es @ [rq]) ?S" by (rule serve_chat_inv [OF Suc.prems(1) q(1) s' Suc.prems(2) assms(3,4)])
  from Suc.hyps(1) [OF _ this] q Suc.prems(2) obtain S' es' where r: "chat_run sticky env ?S S'" "chat_inv N es' S'"
    "cy_queue S' = []" "cy_posted S' = cy_posted S" "cy_waiting S' = cy_waiting S" by auto
  from chat_run_trans [OF r(1) chat_run.step [OF chat_run.init step]] r show ?case by blast
qed

text \<open>
  C2: the chat system refines the room in every interleaving. However the server and its clients take
  turns, the server has handled the requests in the order they were written, its state is the room's,
  and what every client has read and still finds in its FIFO is, in order, what the room said to it:
  messages with their senders, and verdicts. This holds for up to 40000 requests, as long as every
  client's FIFO is open and has room when the server writes to it.
\<close>

theorem chat_system_refines:
  assumes "chat_run sticky env S0 S" "chat_starts su m buf cls N S0" "length (cy_posted S) \<le> N" "N \<le> 40000"
    and "\<And>p. reaches env p" "int_ok p"
  shows "cy_posted S = handled S @ cy_queue S \<and> sim (cy_server S) (room_after (handled S)) \<and>
    list_all2 carries (cy_read S p @ cl_fifo (cy_clients S p)) (room_says p (handled S))"
  using chat_run_inv(1) [OF assms(1-3) _ assms(5,6)] assms(4,6) chat_invD(1,3,7) unfolding chat_bound_def by blast

text \<open>
  No request is left without an answer, as far as the two programs and not their pipes decide. Every
  client's FIFO is open and has room whenever the server writes to it (\<open>reaches\<close>). Then from every
  state the system can reach, the server can handle all requests in its FIFO without an error; and
  every client that waits has a response to read, once its \<open>open\<close> has returned (\<open>waits\<close>). When it does
  not return is the subject of ChatOpens.
\<close>

theorem chat_system_answers:
  assumes "chat_run sticky env S0 S" "chat_starts su m buf cls N S0" "length (cy_posted S) \<le> N" "N \<le> 40000"
    and "\<And>p. reaches env p"
  shows "\<exists>S'. chat_run sticky env S S' \<and> cy_queue S' = [] \<and> cy_posted S' = cy_posted S \<and> cy_waiting S' = cy_waiting S \<and>
    (\<forall>p\<in>cy_waiting S'. \<exists>b cl. check_sys_response waits (cy_clients S' p) = ok (b, cl))"
proof -
  have "int_ok 0" by (rule int_ok_small) simp_all
  from chat_run_inv(1) [OF assms(1-3) _ assms(5) this] assms(4) have "chat_inv N (handled S) S" by (simp add: chat_bound_def)
  from chat_empties [OF this assms(3) _ assms(5), of sticky] assms(4) obtain S' es' where
    "chat_run sticky env S S'" "chat_inv N es' S'" "cy_queue S' = []" "cy_posted S' = cy_posted S" "cy_waiting S' = cy_waiting S"
    by (auto simp: chat_bound_def)
  with chat_hears show ?thesis by blast
qed

text \<open>
  C4: a client to which nobody has sent a message reads the verdicts of its own requests, one for
  each, in their order, whatever the others do meanwhile; at most the last one is still missing,
  while the client waits for it. As before, the server finds every client's FIFO open and with room.
\<close>

theorem chat_verdicts_in_order:
  assumes "chat_run sticky env S0 S" "chat_starts su m buf cls N S0" "length (cy_posted S) \<le> N" "N \<le> 40000"
    and "\<And>p. reaches env p" "int_ok p" "\<forall>v\<in>set (room_says p (handled S)). \<exists>b. v = Told b"
  shows "\<exists>rest. room_says p (handled S) = map Told (cy_told S p @ rest) \<and> length rest \<le> (if p \<in> cy_waiting S then 1 else 0) \<and>
    cl_shown (cy_clients S p) = []"
proof -
  have "told_inv p (handled S) S"
    using chat_run_inv(2) [OF assms(1-3) _ assms(5,6)] assms(4,7) by (simp add: chat_bound_def only_told_def)
  then show ?thesis by (elim told_invE) (intro exI conjI, assumption, auto)
qed

text \<open>
  C21: nobody can put words into another's mouth. A message that a client shows with a sender, other
  than a stray verdict, was sent by the client with this process id, with this text, and to this
  client or to all.
\<close>

theorem chat_shown_was_sent:
  assumes "chat_run sticky env S0 S" "chat_starts su m buf cls N S0" "length (cy_posted S) \<le> N" "N \<le> 40000"
    and "\<And>p. reaches env p" "int_ok p" "(q, t) \<in> set (cl_shown (cy_clients S p))" "t \<noteq> ''OK''" "t \<noteq> ''FAIL''"
  shows "\<exists>rq\<in>set (handled S). rq_origin rq = q \<and> msg_text rq = t \<and> \<not> rq_system rq \<and> (rq_global rq \<or> rq_dest rq = p)"
proof -
  have inv: "chat_inv N (handled S) S"
    using chat_run_inv(1) [OF assms(1-3) _ assms(5,6)] assms(4) by (simp add: chat_bound_def)
  from chat_invD(9) [OF inv assms(7)] obtain r where r: "r \<in> set (cy_read S p)" "rs_origin r = q" "cstr (rs_message r) = ok t"
    by auto
  from list_all2_member [OF chat_invD(7) [OF inv assms(6)], of r] r(1) obtain v where
    v: "v \<in> set (room_says p (handled S))" "carries r v" by auto
  with r assms(8,9) have "v = Said q t" by (cases v) (auto split: if_splits)
  with v(1) said_was_posted show ?thesis by blast
qed

section \<open>Examples\<close>

text \<open>Client 10 connects; then client 20 types a message to it, which it shows.\<close>

lemma chat_exchange:
  assumes "chat_inv N es S" "cy_queue S = []" "p \<notin> cy_waiting S" "int_ok p" "prepare sticky a (cy_clients S p) = ok cl"
    and "length es < N" "N \<le> chat_bound" "\<And>p. reaches env p"
  obtains S' where "chat_run sticky env S S'" "chat_inv N (es @ [cl_req cl]) S'" "cy_queue S' = []"
    "cy_posted S' = es @ [cl_req cl]" "cy_waiting S' = insert p (cy_waiting S)" "cy_told S' = cy_told S" "cy_read S' = cy_read S"
    "\<And>q. \<exists>new. cy_clients S' q = (if q = p then posted cl else cy_clients S q)\<lparr>cl_fifo := cl_fifo (cy_clients S q) @ new\<rparr>"
proof -
  let ?S1 = "client_posts p cl S"
  have 1: "chat_step sticky env S ?S1" by (rule chat_step.post [OF assms(4,3,5)])
  have i1: "chat_inv N es ?S1" by (rule post_chat_inv [OF assms(1,4,5)])
  have q: "cy_queue ?S1 = cl_req cl # []" "cy_posted ?S1 = es @ [cl_req cl]"
    using assms(2) chat_invD(1) [OF assms(1)] by (simp_all add: client_posts_def)
  have l: "length (cy_posted ?S1) \<le> N" using q(2) assms(6) by simp
  obtain s' where s': "handle_request env (cy_server ?S1) (cl_req cl) = ok s'"
    using chat_serves [OF i1 q(1) l assms(7,8)] by blast
  let ?S2 = "server_serves s' [] ?S1"
  have "chat_run sticky env S ?S2"
    by (rule chat_run.step [OF chat_run.step [OF chat_run.init 1] chat_step.serve [OF q(1) s']])
  moreover have "cl_fifo cl = cl_fifo (cy_clients S p)" using prepare_facts(5) [OF assms(5) chat_invD(6) [OF assms(1)]] .
  then have "\<exists>new. cy_clients ?S2 r = (if r = p then posted cl else cy_clients S r)\<lparr>cl_fifo := cl_fifo (cy_clients S r) @ new\<rparr>" for r
    by (cases "r = p") (auto simp: client_posts_def posted_def)
  ultimately show thesis
    using serve_chat_inv [OF i1 q(1) s' l assms(7,8)] q(2) by (intro that [of ?S2]) (simp_all add: client_posts_def)
qed

definition demo_clients :: "int \<Rightarrow> client" where
  "demo_clients p = client_start p (demo_req False False 0 ''x'') (demo_response 0 []) []"

definition demo_mem :: "int mem" where
  "demo_mem = \<lparr>nodes = Map.empty, blocks = Map.empty, brk = 0, avail = 80004\<rparr>"

abbreviation demo_chat_setup :: server_setup where
  "demo_chat_setup \<equiv> \<lparr>mkfifo_ok = True, open_read_ok = True, open_write_ok = True, signal_ok = True\<rparr>"

lemma demo_starts:
  obtains S0 where "chat_starts demo_chat_setup demo_mem (demo_response 0 []) demo_clients 40000 S0" "cy_clients S0 = demo_clients"
    "cy_queue S0 = []" "cy_waiting S0 = {}" "cy_read S0 10 = []"
proof -
  have m: "fresh_brk demo_mem" "4 \<le> avail demo_mem" "resp_wf (demo_response 0 [])"
    by (simp_all add: demo_mem_def fresh_brk_def resp_wf_def demo_response_def MESSAGE_LENGTH_def)
  obtain s where s: "server_init demo_chat_setup demo_mem (demo_response 0 []) = ok s"
    using server_init_ok [OF _ _ _ _ m, of demo_chat_setup] by auto
  have "req_wf (demo_req False False 0 ''x'')" by (rule demo_req_wf) simp
  then have "chat_starts demo_chat_setup demo_mem (demo_response 0 []) demo_clients 40000 (chat_start s demo_clients)"
    unfolding chat_starts_def using s m by (auto simp: demo_clients_def demo_mem_def)
  then show thesis by (rule that) (simp_all add: chat_start_def)
qed

abbreviation demo_open_env :: fifo_env where "demo_open_env \<equiv> demo_env 1 Opened"

lemma demo_connected:
  obtains S0 S rq where "chat_starts demo_chat_setup demo_mem (demo_response 0 []) demo_clients 40000 S0"
    "chat_run False demo_open_env S0 S" "chat_inv 40000 [rq] S" "cy_queue S = []" "cy_posted S = [rq]" "cy_waiting S = {10}"
    "rq_system rq" "msg_text rq = ''new_client''" "rq_origin rq = 10"
    "cl_req (cy_clients S 20) = cl_req (demo_clients 20)" "cy_read S 10 = []"
proof -
  obtain S0 where S0: "chat_starts demo_chat_setup demo_mem (demo_response 0 []) demo_clients 40000 S0" "cy_clients S0 = demo_clients"
    "cy_queue S0 = []" "cy_waiting S0 = {}" "cy_read S0 10 = []" by (rule demo_starts)
  have inv: "chat_inv 40000 [] S0" by (rule chat_inv_start(1) [OF S0(1)])
  have wf: "req_wf (cl_req (demo_clients 10))" "0 \<le> rq_seq_len (cl_req (demo_clients 10))"
    using demo_req_wf [of "''x''" False False 0] by (simp_all add: demo_clients_def client_start_def SEQ_LENGTH_def req_wf_def)
  obtain rq where rq: "req_format_connect (cl_req (demo_clients 10)) = ok rq" "rq_system rq" "msg_text rq = ''new_client''"
    "rq_origin rq = 10"
    using format_valid(1) [OF wf] by (auto simp: demo_clients_def client_start_def)
  let ?cl = "(demo_clients 10)\<lparr>cl_req := rq\<rparr>"
  have p: "prepare False Ask_Connect (cy_clients S0 10) = ok ?cl" using rq(1) S0(2) by (simp add: prepare_def)
  obtain S where S: "chat_run False demo_open_env S0 S" "chat_inv 40000 ([] @ [cl_req ?cl]) S" "cy_queue S = []"
    "cy_posted S = [] @ [cl_req ?cl]" "cy_waiting S = insert 10 (cy_waiting S0)" "cy_read S = cy_read S0"
    "\<And>q. \<exists>new. cy_clients S q = (if q = 10 then posted ?cl else cy_clients S0 q)\<lparr>cl_fifo := cl_fifo (cy_clients S0 q) @ new\<rparr>"
    by (rule chat_exchange [OF inv S0(3) _ _ p, of demo_open_env])
      (auto simp: S0(4) int_ok_small chat_bound_def demo_reaches)
  have "cl_req (cy_clients S 20) = cl_req (demo_clients 20)" using S(7) [of 20] S0(2) by auto
  with S S0 rq show thesis by (intro that [of S0 S rq]) simp_all
qed

lemma demo_room: "rq_system rq \<Longrightarrow> msg_text rq = ''new_client'' \<Longrightarrow> rq_origin rq = 10 \<Longrightarrow> room_says p [rq] = (if p = 10 then [Told True] else [])"
  using room_says_simps(2) [of p "[]" rq]
  by (simp add: room_items_def relay_targets_def accepted_def empty_room_def MAX_NUM_CLIENTS_def)

lemma chat_system_refines_witness:
  "\<exists>S0 S rq. chat_run False demo_open_env S0 S \<and> cy_posted S = [rq] \<and> handled S = [rq] \<and> rq_origin rq = 10 \<and>
    list_all2 carries (cy_read S 10 @ cl_fifo (cy_clients S 10)) [Told True]"
proof -
  obtain S0 S rq where S: "chat_starts demo_chat_setup demo_mem (demo_response 0 []) demo_clients 40000 S0"
    "chat_run False demo_open_env S0 S" "cy_queue S = []" "cy_posted S = [rq]"
    "rq_system rq" "msg_text rq = ''new_client''" "rq_origin rq = 10" by (rule demo_connected)
  have h: "handled S = [rq]" by (simp add: handled_def S(3,4))
  with chat_system_refines [OF S(2,1) _ _ demo_reaches(1), of 10] demo_room [OF S(5-7)] S show ?thesis
    by (intro exI [of _ S0] exI [of _ S] exI [of _ rq]) (simp add: int_ok_small)
qed

lemma chat_system_answers_witness:
  "\<exists>S0 S S' b cl. chat_run False demo_open_env S0 S \<and> cy_waiting S = {10} \<and> chat_run False demo_open_env S S' \<and>
    check_sys_response waits (cy_clients S' 10) = ok (b, cl)"
proof -
  obtain S0 S rq where S: "chat_starts demo_chat_setup demo_mem (demo_response 0 []) demo_clients 40000 S0"
    "chat_run False demo_open_env S0 S" "cy_posted S = [rq]" "cy_waiting S = {10}" by (rule demo_connected)
  from chat_system_answers [OF S(2,1) _ _ demo_reaches(1)] S obtain S' b cl where
    "chat_run False demo_open_env S S'" "check_sys_response waits (cy_clients S' 10) = ok (b, cl)" by auto
  with S show ?thesis by blast
qed

lemma chat_verdicts_in_order_witness:
  "\<exists>S0 S. chat_run False demo_open_env S0 S \<and> room_says 10 (handled S) = [Told True] \<and> cy_told S 10 = [True]"
proof -
  obtain S0 S rq where S: "chat_starts demo_chat_setup demo_mem (demo_response 0 []) demo_clients 40000 S0"
    "chat_run False demo_open_env S0 S" "chat_inv 40000 [rq] S" "cy_queue S = []" "cy_posted S = [rq]" "cy_waiting S = {10}"
    "rq_system rq" "msg_text rq = ''new_client''" "rq_origin rq = 10" by (rule demo_connected)
  obtain b cl where c: "check_sys_response waits (cy_clients S 10) = ok (b, cl)" using chat_hears [OF S(3) _ S(4)] S(6) by auto
  let ?S = "client_hears 10 b cl S"
  have run: "chat_run False demo_open_env S0 ?S"
    by (rule chat_run.step [OF S(2) chat_step.hear [OF _ c]]) (simp add: S(6))
  have h: "handled ?S = [rq]" "room_says 10 [rq] = [Told True]" "cy_waiting ?S = {}" "length (cy_posted ?S) = 1"
    using S(4-6) demo_room [OF S(7-9)] by (simp_all add: handled_def client_hears_def)
  from chat_verdicts_in_order [OF run S(1) _ _ demo_reaches(1), of 10] h
  have "\<exists>rest. [Told True] = map Told (cy_told ?S 10 @ rest) \<and> rest = []" by (auto simp: int_ok_small)
  then have "map Told (cy_told ?S 10) = [Told True]" by auto
  then have "cy_told ?S 10 = [True]" by (auto simp: map_eq_Cons_conv)
  with run h show ?thesis by (intro exI [of _ S0] exI [of _ ?S]) simp
qed

lemma demo_typed:
  assumes "cl_req s = cl_req (demo_clients 20)"
  obtains rq inp where "prepare False Ask_Message (s\<lparr>cl_stdin := inp, int_sys_flag := False\<rparr>) =
      ok (s\<lparr>cl_stdin := [], int_sys_flag := False, cl_req := rq\<rparr>)" "rq_origin rq = 20" "rq_dest rq = 10" "\<not> rq_system rq"
    "\<not> rq_global rq" "msg_text rq = ''hi''"
proof -
  define inp where "inp = map Some ''hi'' @ None # map Some (''n'' @ [CHR 0x0A]) @ map Some (dec_nat 10 @ [CHR 0x0A]) @ []"
  let ?rq = "(cl_req s)\<lparr>rq_dest := 0, rq_global := False, rq_system := False,
      rq_message := ''hi'' @ NUL # drop (Suc (length ''hi'')) (rq_message (cl_req s))\<rparr>"
  have wf: "req_wf (cl_req s)" using demo_req_wf [of "''x''" False False 0]
    by (simp add: assms demo_clients_def client_start_def req_wf_def)
  have "ask_loop False (after_eof False (None # map Some (''n'' @ [CHR 0x0A]) @ map Some (dec_nat 10 @ [CHR 0x0A]) @ [])) None ?rq =
      ok (?rq\<lparr>rq_global := False, rq_dest := int 10\<rparr>, [])"
    using ask_pid [of 10 False "[]" ?rq] by (simp add: after_eof_def INT_MAX_def)
  from format_message_typed [OF wf _ _ this]
  have "req_format_message False False inp (cl_req s) = ok (?rq\<lparr>rq_global := False, rq_dest := int 10\<rparr>, [])"
    by (simp add: inp_def MESSAGE_LENGTH_def)
  then show thesis
    by (intro that [of inp "?rq\<lparr>rq_global := False, rq_dest := int 10\<rparr>"])
      (simp_all add: prepare_def assms demo_clients_def client_start_def msg_text_def)
qed

lemma chat_shown_was_sent_witness:
  "\<exists>S0 S rq. chat_run False demo_open_env S0 S \<and> (20, ''hi'') \<in> set (cl_shown (cy_clients S 10)) \<and>
    rq \<in> set (handled S) \<and> rq_origin rq = 20 \<and> msg_text rq = ''hi'' \<and> \<not> rq_system rq"
proof -
  obtain S0 S1 rq where S: "chat_starts demo_chat_setup demo_mem (demo_response 0 []) demo_clients 40000 S0"
    "chat_run False demo_open_env S0 S1" "chat_inv 40000 [rq] S1" "cy_queue S1 = []" "cy_posted S1 = [rq]" "cy_waiting S1 = {10}"
    "rq_system rq" "msg_text rq = ''new_client''" "rq_origin rq = 10" "cl_req (cy_clients S1 20) = cl_req (demo_clients 20)"
    "cy_read S1 10 = []" by (rule demo_connected)
  obtain b cl where c: "check_sys_response waits (cy_clients S1 10) = ok (b, cl)" using chat_hears [OF S(3) _ S(4)] S(6) by auto
  let ?S2 = "client_hears 10 b cl S1"
  have S2: "chat_inv 40000 [rq] ?S2" "chat_run False demo_open_env S0 ?S2"
    by (rule hear_chat_inv [OF S(3) c], rule chat_run.step [OF S(2) chat_step.hear [OF _ c]], simp add: S(6))
  obtain rq2 inp where m: "prepare False Ask_Message ((cy_clients ?S2 20)\<lparr>cl_stdin := inp, int_sys_flag := False\<rparr>) =
      ok ((cy_clients ?S2 20)\<lparr>cl_stdin := [], int_sys_flag := False, cl_req := rq2\<rparr>)"
    and rq2: "rq_origin rq2 = 20" "rq_dest rq2 = 10" "\<not> rq_system rq2" "\<not> rq_global rq2" "msg_text rq2 = ''hi''"
    by (rule demo_typed [of "cy_clients ?S2 20"]) (simp add: client_hears_def S(10))
  let ?S3 = "?S2\<lparr>cy_clients := (cy_clients ?S2)(20 := (cy_clients ?S2 20)\<lparr>cl_stdin := inp, int_sys_flag := False\<rparr>)\<rparr>"
  have S3: "chat_inv 40000 [rq] ?S3" "chat_run False demo_open_env S0 ?S3"
    by (rule user_chat_inv [OF S2(1)], rule chat_run.step [OF S2(2) chat_step.user], simp add: client_hears_def S(6))
  have f3: "cy_queue ?S3 = []" "20 \<notin> cy_waiting ?S3" "cy_waiting ?S3 = {}" using S(4,6) by (simp_all add: client_hears_def)
  obtain S4 where S4: "chat_run False demo_open_env ?S3 S4" "chat_inv 40000 ([rq] @ [rq2]) S4" "cy_queue S4 = []"
    "cy_posted S4 = [rq] @ [rq2]" "cy_waiting S4 = insert 20 (cy_waiting ?S3)" "cy_read S4 = cy_read ?S3"
    by (rule chat_exchange [OF S3(1) f3(1,2), of False Ask_Message _ demo_open_env])
      (use m in \<open>auto simp: int_ok_small chat_bound_def demo_reaches\<close>)
  have says: "room_says 10 ([rq] @ [rq2]) = [Told True, Said 20 ''hi'']"
    using demo_room [OF S(7-9)] S(7-9) rq2 room_after_simps(2) [of "[]" rq]
    by (simp only: room_says_simps) (simp add: room_items_def relay_targets_def spec_request_def empty_room_def MAX_NUM_CLIENTS_def verdict_def)
  have "cy_read S4 10 = [cl_resp cl]" using S4(6) S(11) by (simp add: client_hears_def)
  with chat_invD(7) [OF S4(2), of 10] obtain r where r: "cl_fifo (cy_clients S4 10) = [r]" "carries r (Said 20 ''hi'')"
    unfolding says by (auto simp: int_ok_small list_all2_Cons2)
  let ?cl = "(cy_clients S4 10)\<lparr>cl_resp := r, cl_fifo := [], cl_shown := cl_shown (cy_clients S4 10) @ [(20, ''hi'')]\<rparr>"
  let ?S5 = "client_shows 10 ?cl S4"
  have "show_one (cy_clients S4 10) = ok ?cl" using r by (simp add: show_one_def)
  then have "chat_step False demo_open_env S4 ?S5" using S4(5) f3(3) by (intro chat_step.display) simp_all
  then have run: "chat_run False demo_open_env S0 ?S5"
    using chat_run.step chat_run_trans [OF S4(1) S3(2)] by blast
  have "(20, ''hi'') \<in> set (cl_shown (cy_clients ?S5 10))" "length (cy_posted ?S5) \<le> 40000"
    using S4(4) by (simp_all add: client_shows_def)
  with chat_shown_was_sent [OF run S(1) _ _ demo_reaches(1), of 10 20 "''hi''"] run show ?thesis
    by (auto simp: int_ok_small)
qed

end
