(* ===== verification/ClientRuns.thy ===== *)
theory ClientRuns
  imports ChatClient
begin

text \<open>
  The client program as a sequence of places between its calls, so that runs that fail, wait for ever
  or never end can be spoken about, and signals can arrive at any place. Every run of
  \<open>client_main\<close> that returns is a path through these places.
\<close>

section \<open>Places\<close>

text \<open>
  Before the write of the first request; at the test of the main loop in turn \<open>k\<close>; before the write of
  the connection check, after its exchange, at the prompt, after the choice was entered, before and
  after a message is formatted; after the loop; before the write of the last request; at the end. The
  character is what was last entered.
\<close>

datatype place =
    At_Hello
  | At_Loop nat char
  | At_Check nat char
  | At_Checked nat bool char
  | At_Prompt nat char
  | At_Choice nat char
  | At_Format nat char
  | At_Send nat char
  | At_Quit
  | At_Bye
  | At_Exit int

text \<open>The places at which the program is about to write its request.\<close>

definition writes :: "place \<Rightarrow> bool" where
  "writes a = (case a of At_Hello \<Rightarrow> True | At_Check k ch \<Rightarrow> True | At_Send k ch \<Rightarrow> True | At_Bye \<Rightarrow> True | _ \<Rightarrow> False)"

inductive client_at :: "bool \<Rightarrow> exchange \<Rightarrow> (nat \<Rightarrow> turn) \<Rightarrow> exchange \<Rightarrow> client \<Rightarrow> place \<Rightarrow> client \<Rightarrow> bool"
  for sticky hello turns bye s0 where
  hello: "req_format_connect (cl_req s0) = ok rq \<Longrightarrow> client_at sticky hello turns bye s0 At_Hello (s0\<lparr>cl_req := rq\<rparr>)"
| signal: "client_at sticky hello turns bye s0 a s \<Longrightarrow> client_at sticky hello turns bye s0 a (int_sys_handler s)"
| connect: "client_at sticky hello turns bye s0 At_Hello s \<Longrightarrow> post_request False hello s = ok (b, s') \<Longrightarrow>
    client_at sticky hello turns bye s0 (if b then At_Loop 0 NUL else At_Exit 0) s'"
| leave: "client_at sticky hello turns bye s0 (At_Loop k ch) s \<Longrightarrow> int_sys_flag s \<Longrightarrow>
    client_at sticky hello turns bye s0 At_Quit s"
| check: "client_at sticky hello turns bye s0 (At_Loop k ch) s \<Longrightarrow> \<not> int_sys_flag s \<Longrightarrow>
    req_format_check_connection (cl_req s) = ok rq \<Longrightarrow>
    client_at sticky hello turns bye s0 (At_Check k ch) (s\<lparr>cl_req := rq\<rparr>)"
| checked: "client_at sticky hello turns bye s0 (At_Check k ch) s \<Longrightarrow> client_send (tn_check (turns k)) s = ok (b, s') \<Longrightarrow>
    client_at sticky hello turns bye s0 (At_Checked k b ch) s'"
| lost: "client_at sticky hello turns bye s0 (At_Checked k False ch) s \<Longrightarrow> client_at sticky hello turns bye s0 (At_Exit 0) s"
| interrupted: "client_at sticky hello turns bye s0 (At_Checked k True ch) s \<Longrightarrow> int_sys_flag s \<Longrightarrow>
    client_at sticky hello turns bye s0 (At_Loop (Suc k) ch) s"
| alive: "client_at sticky hello turns bye s0 (At_Checked k True ch) s \<Longrightarrow> \<not> int_sys_flag s \<Longrightarrow>
    client_at sticky hello turns bye s0 (At_Prompt k ch) s"
| prompt: "client_at sticky hello turns bye s0 (At_Prompt k ch) s \<Longrightarrow> scan_char sticky (cl_stdin s) ch = (ch1, inp) \<Longrightarrow>
    client_at sticky hello turns bye s0 (At_Choice k ch1) (s\<lparr>cl_stdin := get_char sticky inp\<rparr>)"
| ignored: "client_at sticky hello turns bye s0 (At_Choice k ch) s \<Longrightarrow> int_sys_flag s \<or> ch \<notin> set ''srq'' \<Longrightarrow>
    client_at sticky hello turns bye s0 (At_Loop (Suc k) ch) s"
| look: "client_at sticky hello turns bye s0 (At_Choice k CHR ''s'') s \<Longrightarrow> \<not> int_sys_flag s \<Longrightarrow>
    client_read_messages (tn_open (turns k)) (tn_polls (turns k)) s = ok (b, s') \<Longrightarrow>
    client_at sticky hello turns bye s0 (At_Format k CHR ''s'') s'"
| format: "client_at sticky hello turns bye s0 (At_Format k ch) s \<Longrightarrow>
    req_format_message sticky (int_sys_flag s) (cl_stdin s) (cl_req s) = ok (rq, inp) \<Longrightarrow>
    client_at sticky hello turns bye s0 (At_Send k ch) (s\<lparr>cl_req := rq, cl_stdin := inp\<rparr>)"
| sent: "client_at sticky hello turns bye s0 (At_Send k ch) s \<Longrightarrow> client_send (tn_send (turns k)) s = ok (b, s') \<Longrightarrow>
    client_at sticky hello turns bye s0 (At_Loop (Suc k) ch) s'"
| look_only: "client_at sticky hello turns bye s0 (At_Choice k CHR ''r'') s \<Longrightarrow> \<not> int_sys_flag s \<Longrightarrow>
    client_read_messages (tn_open (turns k)) (tn_polls (turns k)) s = ok (b, s') \<Longrightarrow>
    client_at sticky hello turns bye s0 (At_Loop (Suc k) CHR ''r'') s'"
| quit: "client_at sticky hello turns bye s0 (At_Choice k CHR ''q'') s \<Longrightarrow> \<not> int_sys_flag s \<Longrightarrow>
    client_at sticky hello turns bye s0 At_Quit s"
| bye: "client_at sticky hello turns bye s0 At_Quit s \<Longrightarrow> req_format_disconnect (cl_req s) = ok rq \<Longrightarrow>
    req_format_disconnect rq = ok rq' \<Longrightarrow> client_at sticky hello turns bye s0 At_Bye (s\<lparr>cl_req := rq'\<rparr>)"
| finish: "client_at sticky hello turns bye s0 At_Bye s \<Longrightarrow> post_request True bye s = ok (b, s') \<Longrightarrow>
    client_at sticky hello turns bye s0 (At_Exit (if b then 0 else 1)) s'"

section \<open>The runs that return\<close>

lemma client_turn_at:
  assumes run: "client_turn sticky (turns k) s ch = ok (b, quit, s', ch')" and flag: "\<not> int_sys_flag s"
    and start: "client_at sticky hello turns bye s0 (At_Loop k ch) s"
  shows "client_at sticky hello turns bye s0 (if quit then At_Quit else if b then At_Loop (Suc k) ch' else At_Exit 0) s' \<and>
    (quit \<longrightarrow> b)"
proof -
  from run obtain rq alive s1 where rq: "req_format_check_connection (cl_req s) = ok rq"
    and s1: "client_send (tn_check (turns k)) (s\<lparr>cl_req := rq\<rparr>) = ok (alive, s1)"
    by (auto simp: client_turn_def rbind_eq_ok)
  define s2 where "s2 = (if tn_sig_check (turns k) then int_sys_handler s1 else s1)"
  have "client_at sticky hello turns bye s0 (At_Checked k alive ch) s1"
    by (rule client_at.checked [OF client_at.check [OF start flag rq] s1])
  then have at2: "client_at sticky hello turns bye s0 (At_Checked k alive ch) s2"
    using client_at.signal by (simp add: s2_def)
  note body = run [unfolded client_turn_def rq rbind_ok s1 prod.case Let_def, folded s2_def]
  consider (lost) "\<not> alive" | (flag) "alive" "int_sys_flag s2" | (prompt) "alive" "\<not> int_sys_flag s2" "\<not> tn_sig_prompt (turns k)"
    using body by (cases alive; cases "int_sys_flag s2"; cases "tn_sig_prompt (turns k)") simp_all
  then show ?thesis
  proof cases
    case lost
    with body at2 client_at.lost show ?thesis by auto
  next
    case flag
    with body at2 client_at.interrupted show ?thesis by auto
  next
    case prompt
    obtain ch1 inp where sc: "scan_char sticky (cl_stdin s2) ch = (ch1, inp)" by (cases "scan_char sticky (cl_stdin s2) ch")
    define s3 where "s3 = s2\<lparr>cl_stdin := get_char sticky inp\<rparr>"
    have at3: "client_at sticky hello turns bye s0 (At_Choice k ch1) s3"
      using client_at.prompt [OF client_at.alive, of sticky hello turns bye s0 k ch s2] at2 prompt sc by (simp add: s3_def)
    have f3: "\<not> int_sys_flag s3" using prompt by (simp add: s3_def)
    note choice = body [unfolded sc prod.case, folded s3_def]
    consider "ch1 = CHR ''s''" | "ch1 = CHR ''r''" | "ch1 = CHR ''q''" | "ch1 \<notin> set ''srq''" by auto
    then show ?thesis
    proof cases
      case 1
      with choice prompt have "send_message sticky (turns k) s3 = ok s'" "b" "\<not> quit" "ch' = ch1" by (auto simp: rbind_eq_ok)
      then obtain r s4 rq2 inp2 b2 where
        r: "client_read_messages (tn_open (turns k)) (tn_polls (turns k)) s3 = ok (r, s4)"
          "req_format_message sticky (int_sys_flag s4) (cl_stdin s4) (cl_req s4) = ok (rq2, inp2)"
          "client_send (tn_send (turns k)) (s4\<lparr>cl_req := rq2, cl_stdin := inp2\<rparr>) = ok (b2, s')"
        by (auto simp: send_message_def rbind_eq_ok)
      have "client_at sticky hello turns bye s0 (At_Loop (Suc k) CHR ''s'') s'"
        by (rule client_at.sent [OF client_at.format [OF client_at.look [where turns = turns and k = k, OF _ f3 r(1)] r(2)] r(3)])
          (use at3 1 in simp)
      with \<open>b\<close> \<open>\<not> quit\<close> \<open>ch' = ch1\<close> 1 show ?thesis by simp
    next
      case 2
      with choice prompt obtain r where r: "client_read_messages (tn_open (turns k)) (tn_polls (turns k)) s3 = ok (r, s')"
        "b" "\<not> quit" "ch' = ch1" by (auto simp: rbind_eq_ok)
      have "client_at sticky hello turns bye s0 (At_Loop (Suc k) CHR ''r'') s'"
        by (rule client_at.look_only [where turns = turns and k = k, OF _ f3 r(1)]) (use at3 2 in simp)
      with r 2 show ?thesis by simp
    next
      case 3
      with choice prompt have q: "b" "quit" "s' = s3" by auto
      have "client_at sticky hello turns bye s0 At_Quit s3" by (rule client_at.quit [OF _ f3]) (use at3 3 in simp)
      with q show ?thesis by simp
    next
      case 4
      with choice prompt have q: "b" "\<not> quit" "s' = s3" "ch' = ch1" by auto
      have "client_at sticky hello turns bye s0 (At_Loop (Suc k) ch1) s3" by (rule client_at.ignored [OF at3]) (use 4 in simp)
      with q show ?thesis by simp
    qed
  qed
qed

text \<open>Where a client is that has come to the test of the loop with or without a connection.\<close>

definition in_loop :: "nat \<Rightarrow> bool \<Rightarrow> char \<Rightarrow> place" where
  "in_loop k b ch = (if b then At_Loop k ch else At_Exit 0)"

definition after_loop :: "bool \<Rightarrow> place" where
  "after_loop b = (if b then At_Quit else At_Exit 0)"

lemma client_loop_at:
  assumes "client_loop sticky turns k b s ch = ok (b', s')" "client_at sticky hello turns bye s0 (in_loop k b ch) s"
  shows "client_at sticky hello turns bye s0 (after_loop b') s'"
proof -
  let ?at = "\<lambda>sticky turns. client_at sticky hello turns bye s0"
  let ?P = "\<lambda>sticky turns k b s ch y. case y of Inl e \<Rightarrow> True
    | Inr (b', s') \<Rightarrow> ?at sticky turns (in_loop k b ch) s \<longrightarrow> ?at sticky turns (after_loop b') s'"
  have "?P sticky turns k b s ch r" if "client_loop sticky turns k b s ch = Some r" for r
    using that
  proof (rule client_loop.raw_induct [of ?P, rotated])
    fix loop sticky turns k b s ch y
    assume ih: "\<And>a b c d e f y. loop a b c d e f = Some y \<Longrightarrow> ?P a b c d e f y"
      and body: "(if int_sys_flag s \<or> \<not> b then ok (b, s)
        else rbind (client_turn sticky (turns k) s ch) (\<lambda>r. case r of (alive, quit, s1, ch1) \<Rightarrow>
          if quit then ok (alive, s1) else loop sticky turns (Suc k) alive s1 ch1)) = Some y"
    show "?P sticky turns k b s ch y"
    proof (cases "int_sys_flag s \<or> \<not> b")
      case True
      with body have "y = Inr (b, s)" by (simp add: ok_def)
      with True client_at.leave show ?thesis by (auto simp: in_loop_def after_loop_def)
    next
      case False
      then have flag: "\<not> int_sys_flag s" "b" by simp_all
      show ?thesis
      proof (cases "client_turn sticky (turns k) s ch" rule: res_cases)
        case (ok r)
        obtain al q s1 c1 where r: "r = (al, q, s1, c1)" by (cases r) auto
        have turn: "?at sticky turns (if q then At_Quit else if al then At_Loop (Suc k) c1 else At_Exit 0) s1 \<and> (q \<longrightarrow> al)"
          if "?at sticky turns (in_loop k b ch) s"
          using client_turn_at [where turns = turns and k = k, OF ok [unfolded r] flag(1), of hello bye s0] that flag(2) by (simp add: in_loop_def)
        have cont: "(if q then ok (al, s1) else loop sticky turns (Suc k) al s1 c1) = Some y"
          using body False unfolding ok r rbind_ok prod.case by simp
        show ?thesis
        proof (cases q)
          case True
          with cont have "y = Inr (al, s1)" by (simp add: ok_def)
          with turn True show ?thesis by (auto simp: after_loop_def)
        next
          case False
          with cont ih [of sticky turns "Suc k" al s1 c1 y] turn show ?thesis
            by (cases al) (auto simp: in_loop_def split: sum.splits)
        qed
      qed (use body False in \<open>auto simp: res_eq_Some\<close>)
    qed
  qed
  from this [of "Inr (b', s')"] assms show ?thesis by (simp add: ok_def)
qed

lemma client_main_at:
  assumes "client_main sticky su pid req0 resp0 inp hello turns bye = ok (status, s)"
  shows "client_at sticky hello turns bye (client_start pid req0 resp0 inp) (At_Exit status) s"
proof -
  let ?s0 = "client_start pid req0 resp0 inp"
  let ?at = "client_at sticky hello turns bye ?s0"
  from assms obtain b s1 al s2 where
    r: "client_connect hello ?s0 = ok (b, s1)" "client_loop sticky turns 0 b s1 NUL = ok (al, s2)"
      "client_end bye (b \<and> al) s2 = ok (status, s)"
    by (auto simp: client_main_def rbind_eq_ok split: if_splits)
  from r(1) obtain rq where rq: "req_format_connect (cl_req ?s0) = ok rq" "post_request False hello (?s0\<lparr>cl_req := rq\<rparr>) = ok (b, s1)"
    by (auto simp: client_connect_def rbind_eq_ok)
  have "?at (in_loop 0 b NUL) s1" using client_at.connect [OF client_at.hello [OF rq(1)] rq(2)] by (simp add: in_loop_def)
  from client_loop_at [OF r(2) this] have loop: "?at (after_loop al) s2" .
  show ?thesis
  proof (cases al)
    case True
    have "b"
    proof (rule ccontr)
      assume "\<not> b"
      with r(2) have "ok (b, s1) = ok (al, s2)" by (simp add: client_loop.simps [of sticky turns 0])
      with True \<open>\<not> b\<close> show False by simp
    qed
    with True r(3) obtain rq2 rq3 d where
      d: "req_format_disconnect (cl_req s2) = ok rq2" "req_format_disconnect rq2 = ok rq3"
        "post_request True bye (s2\<lparr>cl_req := rq3\<rparr>) = ok (d, s)" "status = (if d then 0 else 1)"
      by (auto simp: client_end_def client_disconnect_def rbind_eq_ok split: if_splits)
    have "?at At_Quit s2" using loop True by (simp add: after_loop_def)
    from client_at.finish [OF client_at.bye [OF this d(1,2)] d(3)] d(4) show ?thesis by simp
  next
    case False
    with r(3) loop show ?thesis by (simp add: client_end_def after_loop_def)
  qed
qed

section \<open>The requests\<close>

lemma client_at_inv:
  assumes "client_at sticky hello turns bye s0 a s" "client_inv pid s0"
  shows "client_inv pid s \<and> (writes a \<longrightarrow> valid_req (cl_req s))"
  using assms
proof (induction rule: client_at.induct)
  case (hello rq)
  with inv_format(1) [OF hello.prems] show ?case by auto
next
  case (signal a s)
  have "client_inv pid (int_sys_handler s)"
    by (rule client_inv_same [of pid s]) (use signal in \<open>simp_all add: int_sys_handler_def\<close>)
  with signal show ?case by (simp add: int_sys_handler_def)
next
  case (connect s b s')
  then have "client_inv pid s'" using post_request_inv by (auto simp: writes_def)
  then show ?case by (auto simp: writes_def)
next
  case (check k ch s rq)
  then have "client_inv pid s" by simp
  from inv_format(2) [OF this] check show ?case by auto
next
  case (checked k ch s b s')
  then have "client_inv pid s'" using post_request_inv [of True] by (auto simp: writes_def client_send_def)
  then show ?case by (auto simp: writes_def)
next
  case (look k s b s')
  then show ?case using read_messages_inv by (auto simp: writes_def)
next
  case (format k ch s rq inp)
  then have i: "client_inv pid s" by simp
  then have v: "valid_req rq" "rq_origin rq = rq_origin (cl_req s)" "rq_seq_len rq = rq_seq_len (cl_req s)"
    using format_message_valid [OF format.hyps(2)] by (simp_all add: client_inv_def SEQ_LENGTH_def)
  with formatted_inv [OF i v] show ?case by (simp add: client_inv_def)
next
  case (sent k ch s b s')
  then have "client_inv pid s'" using post_request_inv [of True] by (auto simp: writes_def client_send_def)
  then show ?case by (auto simp: writes_def)
next
  case (look_only k s b s')
  then show ?case using read_messages_inv by (auto simp: writes_def)
next
  case (bye s rq rq')
  then have i: "client_inv pid s" by simp
  obtain rq1 where 1: "req_format_disconnect (cl_req s) = ok rq1" "client_inv pid (s\<lparr>cl_req := rq1\<rparr>)"
    using inv_format(3) [OF i] by (elim exE conjE)
  with bye.hyps have rq: "rq1 = rq" by simp
  obtain rq2 where "req_format_disconnect rq = ok rq2" "valid_req rq2" "client_inv pid ((s\<lparr>cl_req := rq\<rparr>)\<lparr>cl_req := rq2\<rparr>)"
    using inv_format(3) [OF 1(2)] by (auto simp: rq)
  with bye.hyps(3) show ?case by simp
next
  case (finish s b s')
  then have "client_inv pid s'" using post_request_inv by (auto simp: writes_def)
  then show ?case by (auto simp: writes_def)
next
  case (prompt k ch s ch1 inp)
  have "client_inv pid (s\<lparr>cl_stdin := get_char sticky inp\<rparr>)"
    by (rule client_inv_same [of pid s]) (use prompt in simp_all)
  then show ?case by (simp add: writes_def)
qed (simp_all add: writes_def)

text \<open>
  C18: every request the client program writes is a whole request as the server expects it: a terminated
  text of its length, the process id of the client, and the size of the request as its sequence
  length. This holds of all requests of a run that returns, from connecting to disconnecting; and in
  every run, also one that overflows, waits for ever or never ends, of all requests written before
  any place it comes to, and of the one it is about to write there. The pipes and the keyboard do what
  they like, and signals arrive at any of the places.
\<close>

theorem client_requests_valid:
  assumes "req_wf req0"
  shows "(client_main sticky su pid req0 resp0 inp hello turns bye = ok (status, s) \<longrightarrow>
      (\<forall>rq\<in>set (cl_sent s). valid_req rq \<and> rq_origin rq = pid \<and> rq_seq_len rq = SEQ_LENGTH)) \<and>
    (client_at sticky hello turns bye (client_start pid req0 resp0 inp) a s \<longrightarrow>
      (\<forall>rq\<in>set (cl_sent s). valid_req rq \<and> rq_origin rq = pid \<and> rq_seq_len rq = SEQ_LENGTH) \<and>
      (writes a \<longrightarrow> valid_req (cl_req s) \<and> rq_origin (cl_req s) = pid \<and> rq_seq_len (cl_req s) = SEQ_LENGTH))"
proof -
  have "client_inv pid (client_start pid req0 resp0 inp)"
    using assms by (simp add: client_inv_def client_start_def req_wf_def)
  from client_at_inv [OF _ this] client_main_at show ?thesis unfolding client_inv_def by blast
qed

lemma client_requests_valid_witness:
  "(\<exists>s. client_main True \<lparr>cs_mkfifo_ok = True, cs_atexit_ok = True\<rparr> 10 (demo_req False False 0 ''x'') (demo_response 0 [])
      [Some CHR ''q'', Some CHR 0x0A] (demo_exchange [demo_response 0 ''OK'']) (\<lambda>k. demo_turn)
      (demo_exchange [demo_response 0 ''OK'']) = ok (0, s) \<and>
    length (cl_sent s) = 3 \<and> (\<forall>rq\<in>set (cl_sent s). valid_req rq \<and> rq_origin rq = 10 \<and> rq_seq_len rq = 528)) \<and>
   (\<exists>s. client_at True (demo_exchange []) (\<lambda>k. demo_turn) (demo_exchange [])
      (client_start 10 (demo_req False False 0 ''x'') (demo_response 0 []) []) At_Hello s \<and> valid_req (cl_req s))"
proof
  have wf: "req_wf (demo_req False False 0 ''x'')" by (rule demo_req_wf) simp
  note valid = client_requests_valid [OF wf]
  from demo_main [OF wf, of "demo_response 0 []"] valid
  show "\<exists>s. client_main True \<lparr>cs_mkfifo_ok = True, cs_atexit_ok = True\<rparr> 10 (demo_req False False 0 ''x'') (demo_response 0 [])
      [Some CHR ''q'', Some CHR 0x0A] (demo_exchange [demo_response 0 ''OK'']) (\<lambda>k. demo_turn)
      (demo_exchange [demo_response 0 ''OK'']) = ok (0, s) \<and>
    length (cl_sent s) = 3 \<and> (\<forall>rq\<in>set (cl_sent s). valid_req rq \<and> rq_origin rq = 10 \<and> rq_seq_len rq = 528)"
    unfolding SEQ_LENGTH_def by blast
  let ?s0 = "client_start 10 (demo_req False False 0 ''x'') (demo_response 0 []) []"
  have "client_inv 10 ?s0" using wf by (simp add: client_inv_def client_start_def req_wf_def)
  from inv_format(1) [OF this] obtain rq where "req_format_connect (cl_req ?s0) = ok rq" by blast
  then have at: "client_at True (demo_exchange []) (\<lambda>k. demo_turn) (demo_exchange []) ?s0 At_Hello (?s0\<lparr>cl_req := rq\<rparr>)"
    by (rule client_at.hello)
  have "writes At_Hello" by (simp add: writes_def)
  with conjunct2 [OF valid] at have "valid_req (cl_req (?s0\<lparr>cl_req := rq\<rparr>))" by blast
  with at show "\<exists>s. client_at True (demo_exchange []) (\<lambda>k. demo_turn) (demo_exchange []) ?s0 At_Hello s \<and> valid_req (cl_req s)"
    by blast
qed

end
