(* ===== verification/ChatOpens.thy ===== *)
theory ChatOpens
  imports Prelude
begin

text \<open>
  One client and the server at their exchanges, with every \<open>open\<close>, \<open>write\<close>, \<open>read\<close> and \<open>close\<close> of the
  client's FIFO as a step of its own. \<open>open\<close> of a named pipe waits for a process that opens the other
  end; a process that waits in \<open>open\<close> counts as one that has its end open, and is released when the
  other end is opened. ChatClient and ChatServer leave to their environments whether these calls wait;
  here it follows from what the two programs do. The responses are counted only, the server is running
  and has its own FIFO open, and the client does not look for messages in between.
\<close>

section \<open>State\<close>

text \<open>
  The client from writing a request to reading the verdict (\<open>client_send\<close>, \<open>check_sys_response\<close>):
  \<open>K_Opening\<close> is a client that waits in \<open>open\<close>, \<open>K_Lost\<close> one whose \<open>read\<close> found the end of file. The
  server from reading a request to closing the FIFO of the client (\<open>send_sys_response\<close>).
\<close>

datatype client_place = K_Write | K_Open | K_Opening | K_Read | K_Lost

datatype server_place = V_Read | V_Open | V_Opening | V_Write | V_Close

record meeting =
  mt_client :: client_place
  mt_server :: server_place
  mt_requests :: nat       \<comment> \<open>requests in the FIFO of the server\<close>
  mt_readers :: nat        \<comment> \<open>descriptors that read from the FIFO of the client\<close>
  mt_writers :: nat        \<comment> \<open>descriptors that write to it\<close>
  mt_responses :: nat      \<comment> \<open>responses in it\<close>
  mt_done :: nat           \<comment> \<open>exchanges the client has completed\<close>

definition meeting_start :: meeting where
  "meeting_start = \<lparr>mt_client = K_Write, mt_server = V_Read, mt_requests = 0, mt_readers = 0, mt_writers = 0,
     mt_responses = 0, mt_done = 0\<rparr>"

section \<open>Steps\<close>

text \<open>
  A step of the client; \<open>None\<close> when it waits. It opens its FIFO anew for every verdict and never closes
  a descriptor.
\<close>

definition client_meets :: "meeting \<Rightarrow> meeting option" where
  "client_meets s =
     (case mt_client s of
        K_Write \<Rightarrow> Some (s\<lparr>mt_requests := Suc (mt_requests s), mt_client := K_Open\<rparr>)
      | K_Open \<Rightarrow>
          Some (s\<lparr>mt_readers := Suc (mt_readers s), mt_client := (if 0 < mt_writers s then K_Read else K_Opening),
            mt_server := (if mt_server s = V_Opening then V_Write else mt_server s)\<rparr>)
      | K_Opening \<Rightarrow> None
      | K_Read \<Rightarrow>
          if 0 < mt_responses s
          then Some (s\<lparr>mt_responses := mt_responses s - 1, mt_done := Suc (mt_done s), mt_client := K_Write\<rparr>)
          else if 0 < mt_writers s then None else Some (s\<lparr>mt_client := K_Lost\<rparr>)
      | K_Lost \<Rightarrow> None)"

text \<open>A step of the server.\<close>

definition server_meets :: "meeting \<Rightarrow> meeting option" where
  "server_meets s =
     (case mt_server s of
        V_Read \<Rightarrow> if 0 < mt_requests s then Some (s\<lparr>mt_requests := mt_requests s - 1, mt_server := V_Open\<rparr>) else None
      | V_Open \<Rightarrow>
          Some (s\<lparr>mt_writers := Suc (mt_writers s), mt_server := (if 0 < mt_readers s then V_Write else V_Opening),
            mt_client := (if mt_client s = K_Opening then K_Read else mt_client s)\<rparr>)
      | V_Opening \<Rightarrow> None
      | V_Write \<Rightarrow> Some (s\<lparr>mt_responses := Suc (mt_responses s), mt_server := V_Close\<rparr>)
      | V_Close \<Rightarrow> Some (s\<lparr>mt_writers := mt_writers s - 1, mt_server := V_Read\<rparr>))"

inductive meets :: "meeting \<Rightarrow> meeting \<Rightarrow> bool" where
  client: "client_meets s = Some s' \<Longrightarrow> meets s s'"
| server: "server_meets s = Some s' \<Longrightarrow> meets s s'"

inductive_simps meets_iff: "meets s s'"

inductive met :: "meeting \<Rightarrow> bool" where
  start: "met meeting_start"
| step: "met s \<Longrightarrow> meets s s' \<Longrightarrow> met s'"

section \<open>The first exchange\<close>

definition meeting_at :: "nat \<Rightarrow> client_place \<Rightarrow> server_place \<Rightarrow> nat \<Rightarrow> nat \<Rightarrow> nat \<Rightarrow> nat \<Rightarrow> meeting" where
  "meeting_at n k v q r w m = \<lparr>mt_client = k, mt_server = v, mt_requests = q, mt_readers = r, mt_writers = w,
     mt_responses = m, mt_done = n\<rparr>"

text \<open>All states before the first verdict: client and server wait for each other in \<open>open\<close>.\<close>

definition first_exchange :: "meeting list" where
  "first_exchange =
     [meeting_at 0 K_Write V_Read 0 0 0 0, meeting_at 0 K_Open V_Read 1 0 0 0, meeting_at 0 K_Open V_Open 0 0 0 0,
      meeting_at 0 K_Open V_Opening 0 0 1 0, meeting_at 0 K_Opening V_Read 1 1 0 0, meeting_at 0 K_Opening V_Open 0 1 0 0,
      meeting_at 0 K_Read V_Write 0 1 1 0, meeting_at 0 K_Read V_Close 0 1 1 1, meeting_at 0 K_Read V_Read 0 1 0 1]"

lemmas meet_defs = client_meets_def server_meets_def meeting_at_def

lemma client_done: "client_meets s = Some s' \<Longrightarrow> mt_done s \<le> mt_done s'"
  by (cases "mt_client s") (auto simp: client_meets_def split: if_splits)

lemma server_done: "server_meets s = Some s' \<Longrightarrow> mt_done s' = mt_done s"
  by (cases "mt_server s") (auto simp: server_meets_def split: if_splits)

lemma done_grows: "meets s s' \<Longrightarrow> mt_done s \<le> mt_done s'"
  unfolding meets_iff using client_done server_done by fastforce

definition stays_first :: "meeting option \<Rightarrow> bool" where
  "stays_first r = (case r of None \<Rightarrow> True | Some s \<Rightarrow> 0 < mt_done s \<or> s \<in> set first_exchange)"

lemma first_exchange_closed:
  "list_all (\<lambda>s. stays_first (client_meets s) \<and> stays_first (server_meets s)) first_exchange"
  by code_simp

lemma first_exchange_step:
  assumes "s \<in> set first_exchange" "meets s s'" "mt_done s' = 0"
  shows "s' \<in> set first_exchange"
proof -
  have "stays_first (client_meets s)" "stays_first (server_meets s)"
    using first_exchange_closed assms(1) by (simp_all add: list_all_iff)
  with assms(2,3) show ?thesis unfolding meets_iff by (auto simp: stays_first_def)
qed

lemma met_first: "met s \<Longrightarrow> mt_done s = 0 \<Longrightarrow> s \<in> set first_exchange"
proof (induction rule: met.induct)
  case start
  show ?case by (simp add: first_exchange_def meeting_start_def meeting_at_def)
next
  case (step s s')
  then have "mt_done s = 0" using done_grows by fastforce
  with step first_exchange_step show ?case by blast
qed

lemma first_exchange_moves:
  "list_all (\<lambda>s. mt_client s \<noteq> K_Lost \<and> (client_meets s \<noteq> None \<or> server_meets s \<noteq> None)) first_exchange"
  by code_simp

lemma first_exchange_goes_on: "s \<in> set first_exchange \<Longrightarrow> mt_client s \<noteq> K_Lost \<and> (\<exists>s'. meets s s')"
  using first_exchange_moves unfolding list_all_iff meets_iff by blast

section \<open>The later exchanges\<close>

lemma client_moves: "met s \<Longrightarrow> client_meets s = Some s' \<Longrightarrow> met s'"
  using met.step meets.client by blast

lemma server_moves: "met s \<Longrightarrow> server_meets s = Some s' \<Longrightarrow> met s'"
  using met.step meets.server by blast

text \<open>An exchange in which the client waits in \<open>open\<close> before the server answers.\<close>

lemma exchange_answered:
  assumes "met (meeting_at n K_Write V_Read 0 n 0 0)"
  shows "met (meeting_at n K_Read V_Close 0 (Suc n) 1 1)"
proof -
  have "met (meeting_at n K_Open V_Read 1 n 0 0)" by (rule client_moves [OF assms]) (simp add: meet_defs)
  then have "met (meeting_at n K_Opening V_Read 1 (Suc n) 0 0)" by (rule client_moves) (simp add: meet_defs)
  then have "met (meeting_at n K_Opening V_Open 0 (Suc n) 0 0)" by (rule server_moves) (simp add: meet_defs)
  then have "met (meeting_at n K_Read V_Write 0 (Suc n) 1 0)" by (rule server_moves) (simp add: meet_defs)
  then show ?thesis by (rule server_moves) (simp add: meet_defs)
qed

lemma exchanges_done: "met (meeting_at n K_Write V_Read 0 n 0 0)"
proof (induction n)
  case 0
  show ?case using met.start by (simp add: meeting_start_def meeting_at_def)
next
  case (Suc n)
  from exchange_answered [OF this] have "met (meeting_at n K_Read V_Read 0 (Suc n) 0 1)"
    by (rule server_moves) (simp add: meet_defs)
  then show ?case by (rule client_moves) (simp add: meet_defs)
qed

text \<open>The server answers before the client opens its FIFO, which an old descriptor keeps open for reading.\<close>

lemma exchange_hangs:
  assumes "0 < n"
  shows "met (meeting_at n K_Opening V_Read 0 (Suc n) 0 1)"
proof -
  have "met (meeting_at n K_Open V_Read 1 n 0 0)" by (rule client_moves [OF exchanges_done]) (simp add: meet_defs)
  then have "met (meeting_at n K_Open V_Open 0 n 0 0)" by (rule server_moves) (simp add: meet_defs)
  then have "met (meeting_at n K_Open V_Write 0 n 1 0)" by (rule server_moves) (use assms in \<open>simp add: meet_defs\<close>)
  then have "met (meeting_at n K_Open V_Close 0 n 1 1)" by (rule server_moves) (simp add: meet_defs)
  then have "met (meeting_at n K_Open V_Read 0 n 0 1)" by (rule server_moves) (simp add: meet_defs)
  then show ?thesis by (rule client_moves) (simp add: meet_defs)
qed

text \<open>The client opens its FIFO while the server has not closed it after the verdict before.\<close>

lemma exchange_lost: "met (meeting_at (Suc n) K_Lost V_Read 1 (Suc (Suc n)) 0 0)"
proof -
  have "met (meeting_at (Suc n) K_Write V_Close 0 (Suc n) 1 0)"
    by (rule client_moves [OF exchange_answered [OF exchanges_done]]) (simp add: meet_defs)
  then have "met (meeting_at (Suc n) K_Open V_Close 1 (Suc n) 1 0)" by (rule client_moves) (simp add: meet_defs)
  then have "met (meeting_at (Suc n) K_Read V_Close 1 (Suc (Suc n)) 1 0)" by (rule client_moves) (simp add: meet_defs)
  then have "met (meeting_at (Suc n) K_Read V_Read 1 (Suc (Suc n)) 0 0)" by (rule server_moves) (simp add: meet_defs)
  then show ?thesis by (rule client_moves) (simp add: meet_defs)
qed

section \<open>Properties\<close>

text \<open>
  C10: of the exchanges between a client and the server only the first is safe: until the client has
  its first verdict it never takes the connection for lost, and some step is always possible. In every
  later exchange there is a schedule after which the client waits in \<open>open\<close> for ever, with the verdict
  unread in its FIFO and the server idle, and one after which it reads the end of file instead of the
  verdict and takes the connection for lost, its request still unread. The reason is the descriptors
  the client does not close: they let the server open, write and close before the client opens.
\<close>

theorem exchange_may_hang:
  "(\<forall>s. met s \<and> mt_done s = 0 \<longrightarrow> mt_client s \<noteq> K_Lost \<and> (\<exists>s'. meets s s')) \<and>
   (\<forall>n>0. \<exists>s. met s \<and> mt_done s = n \<and> mt_client s = K_Opening \<and> mt_server s = V_Read \<and> mt_responses s = 1 \<and>
      (\<forall>s'. \<not> meets s s')) \<and>
   (\<forall>n>0. \<exists>s. met s \<and> mt_done s = n \<and> mt_client s = K_Lost \<and> mt_requests s = 1)"
proof (intro conjI allI impI)
  fix s assume "met s \<and> mt_done s = 0"
  with met_first first_exchange_goes_on show "mt_client s \<noteq> K_Lost" "\<exists>s'. meets s s'" by blast+
next
  fix n :: nat assume "0 < n"
  from exchange_hangs [OF this] show "\<exists>s. met s \<and> mt_done s = n \<and> mt_client s = K_Opening \<and> mt_server s = V_Read \<and>
      mt_responses s = 1 \<and> (\<forall>s'. \<not> meets s s')"
    by (intro exI [of _ "meeting_at n K_Opening V_Read 0 (Suc n) 0 1"]) (simp add: meets_iff meet_defs)
next
  fix n :: nat assume "0 < n"
  then obtain m where "n = Suc m" by (cases n) auto
  with exchange_lost [of m] show "\<exists>s. met s \<and> mt_done s = n \<and> mt_client s = K_Lost \<and> mt_requests s = 1"
    by (intro exI [of _ "meeting_at n K_Lost V_Read 1 (Suc n) 0 0"]) (simp add: meeting_at_def)
qed

lemma exchange_may_hang_witness:
  "(\<exists>s'. meets meeting_start s') \<and>
   (\<exists>s. met s \<and> mt_done s = 1 \<and> mt_client s = K_Opening \<and> mt_responses s = 1 \<and> (\<forall>s'. \<not> meets s s')) \<and>
   (\<exists>s. met s \<and> mt_done s = 1 \<and> mt_client s = K_Lost)"
proof -
  note h = exchange_may_hang
  have "\<exists>s'. meets meeting_start s'" using conjunct1 [OF h] met.start by (simp add: meeting_start_def)
  moreover have "\<exists>s. met s \<and> mt_done s = 1 \<and> mt_client s = K_Opening \<and> mt_responses s = 1 \<and> (\<forall>s'. \<not> meets s s')"
    using conjunct1 [OF conjunct2 [OF h], rule_format, of 1] by auto
  moreover have "\<exists>s. met s \<and> mt_done s = 1 \<and> mt_client s = K_Lost"
    using conjunct2 [OF conjunct2 [OF h], rule_format, of 1] by auto
  ultimately show ?thesis by blast
qed

end
