(* ===== verification/WorkQueue.thy ===== *)
theory WorkQueue
  imports Prelude
begin

text \<open>
  The work queue of the parallel grep (\<open>pp_2/queue.h\<close>, \<open>pp_2/queue_utils.c\<close>): a singly
  linked list of path names with a head and a tail pointer, over an explicit heap, and the
  proof that it is a FIFO queue.
\<close>

section \<open>The heap and the queue\<close>

type_synonym qaddr = nat

definition MAX_LENGTH :: nat where "MAX_LENGTH = 1024"

text \<open>
  \<open>path_name\<close> is an array of \<open>MAX_LENGTH\<close> bytes; the model keeps the string it holds. A new
  element holds no meaningful path; every user writes the path before it is read.
\<close>

record queue_element =
  path_name :: string
  qe_next :: "qaddr option"

record qheap =
  cells :: "qaddr \<Rightarrow> queue_element option"
  qbrk :: qaddr
  qavail :: nat

record queue =
  q_head :: "qaddr option"
  q_tail :: "qaddr option"

definition qmalloc :: "qheap \<Rightarrow> qheap \<times> qaddr option" where
  "qmalloc m =
     (if qavail m = 0 then (m, None)
      else (m\<lparr>qbrk := Suc (qbrk m), qavail := qavail m - 1\<rparr>, Some (qbrk m)))"

definition qmalloc_element :: "qheap \<Rightarrow> qheap \<times> qaddr option" where
  "qmalloc_element m =
     (case qmalloc m of
        (m1, None) \<Rightarrow> (m1, None)
      | (m1, Some a) \<Rightarrow> (m1\<lparr>cells := (cells m1)(a \<mapsto> \<lparr>path_name = [], qe_next = None\<rparr>)\<rparr>, Some a))"

definition qload :: "qheap \<Rightarrow> qaddr option \<Rightarrow> queue_element res" where
  "qload m p = (case p of None \<Rightarrow> err Null_Deref
     | Some a \<Rightarrow> (case cells m a of None \<Rightarrow> err Bad_Deref | Some e \<Rightarrow> ok e))"

definition qstore :: "qheap \<Rightarrow> qaddr option \<Rightarrow> (queue_element \<Rightarrow> queue_element) \<Rightarrow> qheap res" where
  "qstore m p f = (case p of None \<Rightarrow> err Null_Deref
     | Some a \<Rightarrow> (case cells m a of None \<Rightarrow> err Bad_Deref
         | Some e \<Rightarrow> ok (m\<lparr>cells := (cells m)(a \<mapsto> f e)\<rparr>)))"

definition qfree :: "qheap \<Rightarrow> qaddr option \<Rightarrow> qheap res" where
  "qfree m p = (case p of None \<Rightarrow> ok m
     | Some a \<Rightarrow> (case cells m a of None \<Rightarrow> err Bad_Deref
         | Some _ \<Rightarrow> ok (m\<lparr>cells := (cells m)(a := None)\<rparr>)))"

text \<open>\<open>strcpy\<close> into the path of an element: out of bounds when it does not fit.\<close>

definition set_path :: "qheap \<Rightarrow> qaddr option \<Rightarrow> string \<Rightarrow> qheap res" where
  "set_path m p s =
     (if length s < MAX_LENGTH then qstore m p (\<lambda>e. e\<lparr>path_name := s\<rparr>) else err Out_Of_Bounds)"

section \<open>The operations of queue_utils.c\<close>

definition create_queue :: "qheap \<Rightarrow> qheap \<times> queue option" where
  "create_queue m =
     (case qmalloc m of
        (m1, None) \<Rightarrow> (m1, None)
      | (m1, Some _) \<Rightarrow> (m1, Some \<lparr>q_head = None, q_tail = None\<rparr>))"

definition insert_element :: "qheap \<Rightarrow> queue \<Rightarrow> qaddr option \<Rightarrow> (qheap \<times> queue) res" where
  "insert_element m q element =
     rbind (qstore m element (\<lambda>e. e\<lparr>qe_next := None\<rparr>)) (\<lambda>m1.
     if q_head q = None then ok (m1, q\<lparr>q_head := element, q_tail := element\<rparr>)
     else
       rbind (qstore m1 (q_tail q) (\<lambda>e. e\<lparr>qe_next := element\<rparr>)) (\<lambda>m2.
       rbind (qload m2 (q_tail q)) (\<lambda>t.
       ok (m2, q\<lparr>q_tail := qe_next t\<rparr>))))"

text \<open>The tail pointer is left as it is, also when the last element goes.\<close>

definition remove_element :: "qheap \<Rightarrow> queue \<Rightarrow> (qaddr option \<times> queue) res" where
  "remove_element m q =
     (if q_head q \<noteq> None then
        rbind (qload m (q_head q)) (\<lambda>e. ok (q_head q, q\<lparr>q_head := qe_next e\<rparr>))
      else ok (None, q))"

text \<open>The lines \<open>print_queue\<close> writes, without the markup.\<close>

partial_function (option) print_loop :: "qheap \<Rightarrow> qaddr option \<Rightarrow> string list \<Rightarrow> string list res" where
  "print_loop m current out =
     (if current = None then ok (out @ [''NULL''])
      else rbind (qload m current) (\<lambda>e. print_loop m (qe_next e) (out @ [path_name e])))"

definition print_queue :: "qheap \<Rightarrow> queue \<Rightarrow> string list res" where
  "print_queue m q = print_loop m (q_head q) []"

partial_function (option) num_loop :: "qheap \<Rightarrow> qaddr option \<Rightarrow> int \<Rightarrow> int res" where
  "num_loop m current count =
     (if current = None then ok count
      else rbind (c_add count 1) (\<lambda>c. rbind (qload m current) (\<lambda>e. num_loop m (qe_next e) c)))"

definition num_elements :: "qheap \<Rightarrow> queue \<Rightarrow> int res" where
  "num_elements m q = num_loop m (q_head q) 0"

section \<open>The queue a heap represents\<close>

definition path_at :: "qheap \<Rightarrow> qaddr \<Rightarrow> string option" where
  "path_at m a = map_option path_name (cells m a)"

fun qchain :: "qheap \<Rightarrow> qaddr option \<Rightarrow> (qaddr \<times> string) list \<Rightarrow> bool" where
  "qchain m p [] \<longleftrightarrow> p = None"
| "qchain m p ((a, s) # ps) \<longleftrightarrow> p = Some a \<and>
     (\<exists>e. cells m a = Some e \<and> path_name e = s \<and> qchain m (qe_next e) ps)"

definition qrep :: "qheap \<Rightarrow> queue \<Rightarrow> (qaddr \<times> string) list \<Rightarrow> bool" where
  "qrep m q ps \<longleftrightarrow> qchain m (q_head q) ps \<and> distinct (map fst ps) \<and>
     (ps \<noteq> [] \<longrightarrow> q_tail q = Some (fst (last ps)))"

lemma qchain_frame:
  "qchain m p ps \<Longrightarrow> (\<And>a. a \<in> fst ` set ps \<Longrightarrow> cells m' a = cells m a) \<Longrightarrow> qchain m' p ps"
  by (induction m p ps rule: qchain.induct) auto

lemma qrep_frame:
  "qrep m q ps \<Longrightarrow> (\<And>a. a \<in> fst ` set ps \<Longrightarrow> cells m' a = cells m a) \<Longrightarrow> qrep m' q ps"
  unfolding qrep_def using qchain_frame by blast

lemma qchain_path: "qchain m p ps \<Longrightarrow> (a, s) \<in> set ps \<Longrightarrow> path_at m a = Some s"
  by (induction m p ps rule: qchain.induct) (auto simp: path_at_def)

lemma qrep_path: "qrep m q ps \<Longrightarrow> (a, s) \<in> set ps \<Longrightarrow> path_at m a = Some s"
  by (auto simp: qrep_def dest: qchain_path)

lemma qrep_head: "qrep m q ps \<Longrightarrow> q_head q = None \<longleftrightarrow> ps = []"
  by (cases ps) (auto simp: qrep_def)

lemma qchain_snoc:
  assumes "qchain m p (ps @ [(t, s)])" "distinct (map fst (ps @ [(t, s)]))"
    and "cells m t = Some te" "cells m' t = Some (te\<lparr>qe_next := Some a\<rparr>)"
    and "cells m' a = Some \<lparr>path_name = u, qe_next = None\<rparr>"
    and "\<And>b. b \<in> fst ` set ps \<Longrightarrow> cells m' b = cells m b"
  shows "qchain m' p (ps @ [(t, s), (a, u)])"
  using assms
proof (induction ps arbitrary: p)
  case (Cons e ps)
  obtain b v where e: "e = (b, v)" by fastforce
  from Cons.prems(1) obtain be where be: "p = Some b" "cells m b = Some be" "path_name be = v"
    "qchain m (qe_next be) (ps @ [(t, s)])" by (auto simp: e)
  have "qchain m' (qe_next be) (ps @ [(t, s), (a, u)])"
    by (rule Cons.IH) (use Cons.prems be in \<open>auto simp: e\<close>)
  with be Cons.prems(6) [of b] show ?case by (auto simp: e)
qed auto

lemma insert_qrep:
  assumes "qrep m q ps" "cells m a = Some e" "a \<notin> fst ` set ps"
  shows "\<exists>m' q'. insert_element m q (Some a) = ok (m', q') \<and> qrep m' q' (ps @ [(a, path_name e)]) \<and>
    path_at m' = path_at m \<and> (\<forall>b. b \<noteq> a \<longrightarrow> b \<notin> fst ` set ps \<longrightarrow> cells m' b = cells m b) \<and>
    qbrk m' = qbrk m \<and> qavail m' = qavail m"
proof (cases ps rule: rev_cases)
  case Nil
  with assms show ?thesis
    by (auto simp: insert_element_def qstore_def qrep_def path_at_def fun_eq_iff)
next
  case (snoc ps' u)
  obtain t s where u: "u = (t, s)" by fastforce
  from assms(1) snoc u have q: "q_head q \<noteq> None" "q_tail q = Some t"
    by (auto simp: qrep_def) (cases ps'; auto)
  from qrep_path [OF assms(1), of t s] snoc u obtain te where te: "cells m t = Some te"
    by (auto simp: path_at_def)
  have "t \<noteq> a" using assms(3) snoc u by auto
  let ?m' = "m\<lparr>cells := (cells m)(a \<mapsto> e\<lparr>qe_next := None\<rparr>, t \<mapsto> te\<lparr>qe_next := Some a\<rparr>)\<rparr>"
  have run: "insert_element m q (Some a) = ok (?m', q\<lparr>q_tail := Some a\<rparr>)"
    using q te assms(2) \<open>t \<noteq> a\<close> by (auto simp: insert_element_def qstore_def qload_def)
  have "qchain ?m' (q_head q) (ps' @ [(t, s), (a, path_name e)])"
    by (rule qchain_snoc [where te = te])
      (use assms snoc u te \<open>t \<noteq> a\<close> in \<open>auto simp: qrep_def\<close>)
  then have "qrep ?m' (q\<lparr>q_tail := Some a\<rparr>) (ps @ [(a, path_name e)])"
    using assms snoc u by (auto simp: qrep_def)
  with run show ?thesis
    using te assms(2) snoc u by (auto simp: path_at_def fun_eq_iff)
qed

lemma remove_qrep:
  assumes "qrep m q ((a, s) # ps)"
  shows "\<exists>q'. remove_element m q = ok (Some a, q') \<and> qrep m q' ps"
  using assms by (auto simp: remove_element_def qrep_def qload_def split: if_splits)

lemma remove_empty: "qrep m q [] \<Longrightarrow> remove_element m q = ok (None, q)"
  by (simp add: remove_element_def qrep_def)

lemma num_loop_chain:
  "qchain m p ps \<Longrightarrow> 0 \<le> n \<Longrightarrow> n + int (length ps) \<le> INT_MAX \<Longrightarrow>
   num_loop m p n = ok (n + int (length ps))"
proof (induction ps arbitrary: p n)
  case Nil
  then show ?case by (simp add: num_loop.simps)
next
  case (Cons e ps)
  obtain a s where e: "e = (a, s)" by fastforce
  have "int_ok (n + 1)" using Cons.prems by (simp add: int_ok_def INT_MIN_def)
  then show ?case
    using Cons by (subst num_loop.simps) (auto simp: e qload_def)
qed

lemma num_elements_rep:
  assumes "qrep m q ps" "int (length ps) \<le> INT_MAX"
  shows "num_elements m q = ok (int (length ps))"
  using assms num_loop_chain [of m "q_head q" ps 0] by (simp add: num_elements_def qrep_def)

lemma print_loop_chain: "qchain m p ps \<Longrightarrow> print_loop m p out = ok (out @ map snd ps @ [''NULL''])"
proof (induction ps arbitrary: p out)
  case Nil
  then show ?case by (simp add: print_loop.simps)
next
  case (Cons e ps)
  then show ?case
    by (subst print_loop.simps) (cases e; auto simp: qload_def)
qed

section \<open>The contract\<close>

text \<open>
  What the search programs rely on: a first-in first-out queue of elements that live in the
  heap under their own addresses. An insertion changes no path and no element that is not in
  the queue; the queue does not depend on other elements.
\<close>

datatype 'a qop = Insert 'a | Remove

fun fifo_run :: "'a list \<Rightarrow> 'a qop list \<Rightarrow> 'a option list \<times> 'a list" where
  "fifo_run xs [] = ([], xs)"
| "fifo_run xs (Insert a # ops) = fifo_run (xs @ [a]) ops"
| "fifo_run [] (Remove # ops) = apfst ((#) None) (fifo_run [] ops)"
| "fifo_run (x # xs) (Remove # ops) = apfst ((#) (Some x)) (fifo_run xs ops)"

text \<open>No element is inserted while it is in the queue.\<close>

fun fifo_ok :: "'a list \<Rightarrow> 'a qop list \<Rightarrow> bool" where
  "fifo_ok xs [] = True"
| "fifo_ok xs (Insert a # ops) = (a \<notin> set xs \<and> fifo_ok (xs @ [a]) ops)"
| "fifo_ok xs (Remove # ops) = fifo_ok (tl xs) ops"

locale work_queue =
  fixes rep :: "'m \<Rightarrow> 'q \<Rightarrow> ('a \<times> 'p) list \<Rightarrow> bool"
    and path :: "'m \<Rightarrow> 'a \<Rightarrow> 'p option"
    and insert :: "'m \<Rightarrow> 'q \<Rightarrow> 'a \<Rightarrow> ('m \<times> 'q) res"
    and remove :: "'m \<Rightarrow> 'q \<Rightarrow> ('a option \<times> 'q) res"
    and number :: "'m \<Rightarrow> 'q \<Rightarrow> int res"
  assumes insert_law: "rep m q ps \<Longrightarrow> path m a = Some s \<Longrightarrow> a \<notin> fst ` set ps \<Longrightarrow>
      \<exists>m' q'. insert m q a = ok (m', q') \<and> rep m' q' (ps @ [(a, s)]) \<and> path m' = path m"
    and remove_law: "rep m q ((a, s) # ps) \<Longrightarrow> \<exists>q'. remove m q = ok (Some a, q') \<and> rep m q' ps"
    and remove_empty_law: "rep m q [] \<Longrightarrow> remove m q = ok (None, q)"
    and number_law: "rep m q ps \<Longrightarrow> int (length ps) \<le> INT_MAX \<Longrightarrow> number m q = ok (int (length ps))"
begin

text \<open>A run of insertions and removals returns what a list used as a FIFO queue returns.\<close>

fun run_ops :: "'m \<Rightarrow> 'q \<Rightarrow> 'a qop list \<Rightarrow> ('a option list \<times> 'm \<times> 'q) res" where
  "run_ops m q [] = ok ([], m, q)"
| "run_ops m q (Insert a # ops) = rbind (insert m q a) (\<lambda>(m1, q1). run_ops m1 q1 ops)"
| "run_ops m q (Remove # ops) = rbind (remove m q) (\<lambda>(e, q1).
     rbind (run_ops m q1 ops) (\<lambda>(es, m2, q2). ok (e # es, m2, q2)))"

lemma run_ops_fifo:
  assumes "rep m q ps" "fifo_ok (map fst ps) ops" "\<And>a. Insert a \<in> set ops \<Longrightarrow> path m a \<noteq> None"
  shows "\<exists>m' q' ps'. run_ops m q ops = ok (fst (fifo_run (map fst ps) ops), m', q') \<and> rep m' q' ps' \<and>
    map fst ps' = snd (fifo_run (map fst ps) ops) \<and> path m' = path m"
  using assms
proof (induction ops arbitrary: m q ps)
  case (Cons x ops)
  show ?case
  proof (cases x)
    case (Insert a)
    with Cons.prems(3) obtain s where s: "path m a = Some s" by auto
    from insert_law [OF Cons.prems(1) s] Cons.prems(2) Insert obtain m1 q1 where
      1: "insert m q a = ok (m1, q1)" "rep m1 q1 (ps @ [(a, s)])" "path m1 = path m" by auto
    from Cons.IH [OF 1(2)] Cons.prems 1 Insert show ?thesis by fastforce
  next
    case Remove
    show ?thesis
    proof (cases ps)
      case Nil
      with Cons Remove remove_empty_law [of m q] show ?thesis
        by (fastforce split: prod.splits)
    next
      case (Cons e ps')
      obtain a s where e: "e = (a, s)" by fastforce
      from remove_law [of m q a s ps'] Cons.prems Cons e obtain q1 where
        1: "remove m q = ok (Some a, q1)" "rep m q1 ps'" by auto
      have "\<exists>m2 q2 ps2. run_ops m q1 ops = ok (fst (fifo_run (map fst ps') ops), m2, q2) \<and> rep m2 q2 ps2 \<and>
          map fst ps2 = snd (fifo_run (map fst ps') ops) \<and> path m2 = path m"
        by (rule Cons.IH [OF 1(2)]) (use Cons.prems Cons e Remove in auto)
      with 1 Cons e Remove show ?thesis by (fastforce split: prod.splits)
    qed
  qed
qed auto

end

interpretation wq: work_queue qrep path_at "\<lambda>m q a. insert_element m q (Some a)" remove_element num_elements
proof unfold_locales
  fix m q ps a s
  assume "qrep m q ps" "path_at m a = Some s" "a \<notin> fst ` set ps"
  then show "\<exists>m' q'. insert_element m q (Some a) = ok (m', q') \<and> qrep m' q' (ps @ [(a, s)]) \<and> path_at m' = path_at m"
    using insert_qrep [of m q ps a] by (auto simp: path_at_def)
qed (use remove_qrep remove_empty num_elements_rep in blast)+

section \<open>Properties of the queue\<close>

text \<open>Calls of \<open>insert_element\<close> and \<open>remove_element\<close>, one after the other.\<close>

fun queue_ops :: "qheap \<Rightarrow> queue \<Rightarrow> qaddr qop list \<Rightarrow> (qaddr option list \<times> qheap \<times> queue) res" where
  "queue_ops m q [] = ok ([], m, q)"
| "queue_ops m q (Insert a # ops) =
     rbind (insert_element m q (Some a)) (\<lambda>(m1, q1). queue_ops m1 q1 ops)"
| "queue_ops m q (Remove # ops) =
     rbind (remove_element m q) (\<lambda>(e, q1).
     rbind (queue_ops m q1 ops) (\<lambda>(es, m2, q2). ok (e # es, m2, q2)))"

lemma queue_ops_eq: "queue_ops m q ops = wq.run_ops m q ops"
  by (induction m q ops rule: queue_ops.induct) (auto intro!: arg_cong [where f = "rbind _"] ext)

text \<open>
  C16: the linked queue is a FIFO queue. From an empty queue, any sequence of insertions of live
  elements that are not in the queue at the time, and removals (also from the empty queue, also
  after it has been emptied, when the tail pointer still points at the element removed last),
  returns what the same operations return on a list; the paths stay as they are, and counting
  and printing the queue afterwards give the elements that are left.
\<close>

theorem queue_is_fifo:
  assumes "\<And>a. Insert a \<in> set ops \<Longrightarrow> cells m a \<noteq> None" and "fifo_ok [] ops" and "q_head q = None"
    and "int (length (snd (fifo_run [] ops))) \<le> INT_MAX"
  shows "\<exists>m' q'. queue_ops m q ops = ok (fst (fifo_run [] ops), m', q') \<and> path_at m' = path_at m \<and>
    num_elements m' q' = ok (int (length (snd (fifo_run [] ops)))) \<and>
    print_queue m' q' = ok (map (\<lambda>a. the (path_at m a)) (snd (fifo_run [] ops)) @ [''NULL''])"
proof -
  from assms(3) have 0: "qrep m q []" by (simp add: qrep_def)
  have "\<exists>m' q' ps'. wq.run_ops m q ops = ok (fst (fifo_run (map fst ([] :: (qaddr \<times> string) list)) ops), m', q') \<and>
      qrep m' q' ps' \<and> map fst ps' = snd (fifo_run (map fst ([] :: (qaddr \<times> string) list)) ops) \<and> path_at m' = path_at m"
    by (rule wq.run_ops_fifo [OF 0]) (use assms in \<open>auto simp: path_at_def\<close>)
  then obtain m' q' ps' where run: "queue_ops m q ops = ok (fst (fifo_run [] ops), m', q')"
    and rep: "qrep m' q' ps'" and fst: "map fst ps' = snd (fifo_run [] ops)" and path: "path_at m' = path_at m"
    by (auto simp: queue_ops_eq)
  from fst have len: "length ps' = length (snd (fifo_run [] ops))" by (metis length_map)
  have "map snd ps' = map (\<lambda>a. the (path_at m a)) (map fst ps')"
  proof -
    have "snd x = the (path_at m (fst x))" if "x \<in> set ps'" for x
      using qrep_path [OF rep, of "fst x" "snd x"] path that by simp
    then show ?thesis by simp
  qed
  with run path num_elements_rep [OF rep] len assms(4) fst print_loop_chain [of m' "q_head q'" ps' "[]"] rep
  show ?thesis by (auto simp: print_queue_def qrep_def)
qed

definition queue_demo :: qheap where
  "queue_demo = \<lparr>cells = [0 \<mapsto> \<lparr>path_name = ''a'', qe_next = Some 7\<rparr>, 1 \<mapsto> \<lparr>path_name = ''b'', qe_next = None\<rparr>],
     qbrk = 2, qavail = 0\<rparr>"

lemma queue_is_fifo_witness:
  "\<exists>m' q'. queue_ops queue_demo \<lparr>q_head = None, q_tail = None\<rparr>
      [Insert 0, Remove, Insert 1, Insert 0, Remove, Remove, Remove, Insert 1] =
    ok ([Some 0, Some 1, Some 0, None], m', q') \<and> num_elements m' q' = ok 1 \<and>
    print_queue m' q' = ok [''b'', ''NULL'']"
  using queue_is_fifo [of "[Insert 0, Remove, Insert 1, Insert 0, Remove, Remove, Remove, Insert 1]"
      queue_demo "\<lparr>q_head = None, q_tail = None\<rparr>"]
  by (force simp: queue_demo_def INT_MAX_def path_at_def)

end
