(* ===== verification/GrepText.thy ===== *)
theory GrepText
  imports Prelude
begin

text \<open>
  How mini_grep searches one file (\<open>pp_2/mini_grep.c\<close>, lines 174 to 217, and the same code in
  the threads): \<open>fgets\<close> in chunks of at most 1023 characters, \<open>strtok\<close> at \<open>" ,.-"\<close>, and
  \<open>strstr\<close> on every token; with the number of matching words of the file as the
  specification.
\<close>

section \<open>The library calls\<close>

abbreviation NL :: char where "NL \<equiv> CHR 0x0A"

definition delim :: "char \<Rightarrow> bool" where
  "delim c \<longleftrightarrow> c = CHR '' '' \<or> c = CHR '','' \<or> c = CHR ''.'' \<or> c = CHR ''-''"

text \<open>\<open>strtok\<close> and \<open>strtok_r\<close>: the next token and where the scan goes on, or no token.\<close>

definition strtok :: "string \<Rightarrow> (string \<times> string) option" where
  "strtok s =
     (let t = dropWhile delim s in
      if t = [] then None
      else Some (takeWhile (\<lambda>c. \<not> delim c) t, drop 1 (dropWhile (\<lambda>c. \<not> delim c) t)))"

fun is_prefix :: "string \<Rightarrow> string \<Rightarrow> bool" where
  "is_prefix [] s = True"
| "is_prefix (a # as) [] = False"
| "is_prefix (a # as) (b # bs) = (a = b \<and> is_prefix as bs)"

text \<open>\<open>strstr(s, pat) != NULL\<close>.\<close>

fun strstr :: "string \<Rightarrow> string \<Rightarrow> bool" where
  "strstr [] pat = (pat = [])"
| "strstr (c # s) pat = (is_prefix pat (c # s) \<or> strstr s pat)"

text \<open>At most \<open>k\<close> characters, up to and including a newline; and the rest.\<close>

fun fgets_chunk :: "nat \<Rightarrow> string \<Rightarrow> string \<times> string" where
  "fgets_chunk 0 cs = ([], cs)"
| "fgets_chunk (Suc k) [] = ([], [])"
| "fgets_chunk (Suc k) (c # cs) = (if c = NL then ([c], cs) else (case fgets_chunk k cs of (a, b) \<Rightarrow> (c # a, b)))"

text \<open>
  A stream is what is left to read, and whether reading fails there instead of reporting the
  end of the file. \<open>fgets\<close> returns null at the end of the file and when a read fails before
  the chunk is complete.
\<close>

type_synonym stream = "string \<times> bool"

definition c_fgets :: "nat \<Rightarrow> stream \<Rightarrow> (string \<times> stream) option" where
  "c_fgets sz f =
     (case f of (cs, bad) \<Rightarrow>
        (case fgets_chunk (sz - 1) cs of (chunk, rest) \<Rightarrow>
           if chunk = [] then None
           else if bad \<and> rest = [] \<and> last chunk \<noteq> NL \<and> length chunk < sz - 1 then None
           else Some (chunk, rest, bad)))"

lemma fgets_chunk_append: "fgets_chunk k cs = (a, b) \<Longrightarrow> a @ b = cs"
  by (induction k cs arbitrary: a b rule: fgets_chunk.induct) (auto split: if_splits prod.splits)

lemma fgets_chunk_length: "fgets_chunk k cs = (a, b) \<Longrightarrow> length a \<le> k"
  by (induction k cs arbitrary: a b rule: fgets_chunk.induct) (auto split: if_splits prod.splits)

lemma fgets_chunk_empty: "fgets_chunk k cs = ([], b) \<Longrightarrow> k = 0 \<or> cs = []"
  by (cases "(k, cs)" rule: fgets_chunk.cases) (auto split: if_splits prod.splits)

lemma c_fgets_shorter: "c_fgets sz (cs, bad) = Some (chunk, rest, bad') \<Longrightarrow> length rest < length cs"
  using fgets_chunk_append by (fastforce simp: c_fgets_def split: prod.splits if_splits)

lemma strtok_shorter: "strtok s = Some (tok, rest) \<Longrightarrow> length rest < length s"
proof -
  assume a: "strtok s = Some (tok, rest)"
  let ?t = "dropWhile delim s"
  from a have t: "?t \<noteq> []" "rest = drop 1 (dropWhile (\<lambda>c. \<not> delim c) ?t)"
    by (auto simp: strtok_def Let_def split: if_splits)
  have "length ?t \<le> length s" "length (dropWhile (\<lambda>c. \<not> delim c) ?t) \<le> length ?t"
    by (rule length_dropWhile_le)+
  with t show ?thesis by (cases ?t) auto
qed

section \<open>Searching a file\<close>

definition LINE_SIZE :: nat where "LINE_SIZE = 1024"

function search_tokens :: "string \<Rightarrow> string \<Rightarrow> int \<Rightarrow> int res" where
  "search_tokens pat s num_occurrences =
     (case strtok s of
        None \<Rightarrow> ok num_occurrences
      | Some (tokenptr, rest) \<Rightarrow>
          rbind (if strstr tokenptr pat then c_add num_occurrences 1 else ok num_occurrences)
            (\<lambda>n. search_tokens pat rest n))"
  by pat_completeness auto
termination
  by (relation "measure (\<lambda>(p, s, n). length s)") (auto dest: strtok_shorter)

function search_lines :: "string \<Rightarrow> stream \<Rightarrow> int \<Rightarrow> int res" where
  "search_lines pat file_to_search num_occurrences =
     (case c_fgets LINE_SIZE file_to_search of
        None \<Rightarrow> ok num_occurrences
      | Some (buffer, file') \<Rightarrow>
          rbind (search_tokens pat (takeWhile (\<lambda>c. c \<noteq> NUL) buffer) num_occurrences)
            (\<lambda>n. search_lines pat file' n))"
  by pat_completeness auto
termination
  by (relation "measure (\<lambda>(p, f, n). length (fst f))") (auto dest: c_fgets_shorter)

declare search_tokens.simps [simp del] search_lines.simps [simp del]

section \<open>Words\<close>

text \<open>The maximal delimiter-free pieces of a text, with the delimiters a parameter.\<close>

fun split_words :: "(char \<Rightarrow> bool) \<Rightarrow> string \<Rightarrow> string \<Rightarrow> string list" where
  "split_words d [] acc = (if acc = [] then [] else [acc])"
| "split_words d (c # s) acc =
     (if d c then (if acc = [] then split_words d s [] else acc # split_words d s [])
      else split_words d s (acc @ [c]))"

definition words :: "(char \<Rightarrow> bool) \<Rightarrow> string \<Rightarrow> string list" where
  "words d s = split_words d s []"

definition matching :: "string \<Rightarrow> string list \<Rightarrow> nat" where
  "matching pat ws = length (filter (\<lambda>w. strstr w pat) ws)"

lemma matching_simps [simp]:
  "matching pat [] = 0"
  "matching pat (w # ws) = (if strstr w pat then Suc (matching pat ws) else matching pat ws)"
  "matching pat (ws @ vs) = matching pat ws + matching pat vs"
  by (simp_all add: matching_def)

text \<open>The chunks \<open>fgets\<close> delivers, and the matching words in them.\<close>

function chunks :: "stream \<Rightarrow> string list" where
  "chunks f = (case c_fgets LINE_SIZE f of None \<Rightarrow> [] | Some (buffer, f') \<Rightarrow> buffer # chunks f')"
  by pat_completeness auto
termination
  by (relation "measure (\<lambda>f. length (fst f))") (auto dest: c_fgets_shorter)

declare chunks.simps [simp del]

definition file_count :: "string \<Rightarrow> stream \<Rightarrow> nat" where
  "file_count pat f =
     sum_list (map (\<lambda>b. matching pat (words delim (takeWhile (\<lambda>c. c \<noteq> NUL) b))) (chunks f))"

lemma is_prefix_iff: "is_prefix p s \<longleftrightarrow> (\<exists>t. s = p @ t)"
  by (induction p s rule: is_prefix.induct) auto

lemma strstr_iff: "strstr s pat \<longleftrightarrow> (\<exists>a b. s = a @ pat @ b)"
proof (induction s pat rule: strstr.induct)
  case (2 c s pat)
  show ?case
  proof
    assume "strstr (c # s) pat"
    then consider t where "c # s = pat @ t" | a b where "s = a @ pat @ b"
      using 2 by (auto simp: is_prefix_iff)
    then show "\<exists>a b. c # s = a @ pat @ b"
    proof cases
      case 1
      then have "c # s = [] @ pat @ t" by simp
      then show ?thesis by blast
    next
      case (2 a b)
      then have "c # s = (c # a) @ pat @ b" by simp
      then show ?thesis by blast
    qed
  next
    assume "\<exists>a b. c # s = a @ pat @ b"
    then obtain a b where "c # s = a @ pat @ b" by blast
    then consider "is_prefix pat (c # s)" | a' where "s = a' @ pat @ b"
      by (cases a) (auto simp: is_prefix_iff)
    then show "strstr (c # s) pat" using 2 by cases auto
  qed
qed auto

lemma split_words_skip: "split_words d s [] = split_words d (dropWhile d s) []"
  by (induction s) auto

lemma split_words_take:
  "split_words d s acc = (let w = acc @ takeWhile (\<lambda>c. \<not> d c) s; r = split_words d (dropWhile (\<lambda>c. \<not> d c) s) [] in
     if w = [] then r else w # r)"
  by (induction s arbitrary: acc) (auto simp: Let_def)

lemma words_strtok:
  "words delim s = (case strtok s of None \<Rightarrow> [] | Some (tok, rest) \<Rightarrow> tok # words delim rest)"
proof (cases "dropWhile delim s")
  case Nil
  then have "split_words delim s [] = []"
    by (subst split_words_skip) (simp only: split_words.simps simp_thms if_True)
  with Nil show ?thesis unfolding words_def strtok_def Let_def by (simp only: refl if_True option.case)
next
  case (Cons c t)
  then have c: "\<not> delim c" by (metis hd_dropWhile list.distinct(1) list.sel(1))
  have "words delim s = split_words delim (c # t) []"
    using split_words_skip [of delim s] Cons by (simp add: words_def)
  also have "\<dots> = takeWhile (\<lambda>c. \<not> delim c) (c # t) # split_words delim (dropWhile (\<lambda>c. \<not> delim c) (c # t)) []"
    using c by (subst split_words_take) (simp add: Let_def)
  also have "split_words delim (dropWhile (\<lambda>c. \<not> delim c) (c # t)) [] =
      split_words delim (drop 1 (dropWhile (\<lambda>c. \<not> delim c) (c # t))) []"
  proof (cases "dropWhile (\<lambda>c. \<not> delim c) (c # t)")
    case (Cons e u)
    then have "\<not> \<not> delim e" by (metis (mono_tags, lifting) hd_dropWhile list.distinct(1) list.sel(1))
    with Cons show ?thesis by simp
  qed simp
  finally show ?thesis using Cons by (simp add: strtok_def words_def)
qed

definition c_count :: "int \<Rightarrow> nat \<Rightarrow> int res" where
  "c_count n k = (if n + int k \<le> INT_MAX then ok (n + int k) else err Signed_Overflow)"

lemma search_tokens_count:
  "0 \<le> n \<Longrightarrow> n \<le> INT_MAX \<Longrightarrow> search_tokens pat s n = c_count n (matching pat (words delim s))"
proof (induction pat s n rule: search_tokens.induct)
  case (1 pat s n)
  show ?case
  proof (cases "strtok s")
    case None
    with 1 show ?thesis by (simp add: search_tokens.simps [of pat s] words_strtok [of s] c_count_def)
  next
    case (Some tr)
    obtain tok rest where tr: "tr = (tok, rest)" by fastforce
    from 1 Some tr show ?thesis
      by (auto simp: search_tokens.simps [of pat s] words_strtok [of s] c_count_def c_add_def int_ok_def INT_MIN_def)
  qed
qed

lemma search_lines_count:
  "0 \<le> n \<Longrightarrow> n \<le> INT_MAX \<Longrightarrow> search_lines pat f n = c_count n (file_count pat f)"
proof (induction pat f n rule: search_lines.induct)
  case (1 pat f n)
  show ?case
  proof (cases "c_fgets LINE_SIZE f")
    case None
    with 1 show ?thesis
      by (simp add: search_lines.simps [of pat f] chunks.simps [of f] file_count_def c_count_def)
  next
    case (Some bf)
    obtain b f' where bf: "bf = (b, f')" by (rule prod.exhaust)
    let ?k = "matching pat (words delim (takeWhile (\<lambda>c. c \<noteq> NUL) b))"
    have sum: "file_count pat f = ?k + file_count pat f'"
      using Some bf by (simp add: file_count_def chunks.simps [of f])
    have "search_lines pat f n = rbind (c_count n ?k) (search_lines pat f')"
      using Some bf 1 by (simp add: search_lines.simps [of pat f] search_tokens_count)
    then show ?thesis
      using 1(1) [OF Some bf [symmetric], of "n + int ?k"] 1(2) sum by (auto simp: c_count_def)
  qed
qed

section \<open>Lines that fit the buffer\<close>

definition word_end :: "char \<Rightarrow> bool" where
  "word_end c \<longleftrightarrow> delim c \<or> c = NL"

text \<open>With room for \<open>k\<close> more characters of the current line, every line fits.\<close>

fun lines_fit :: "nat \<Rightarrow> string \<Rightarrow> bool" where
  "lines_fit k [] = True"
| "lines_fit k (c # cs) = (0 < k \<and> (if c = NL then lines_fit (LINE_SIZE - 1) cs else lines_fit (k - 1) cs))"

lemma split_words_append:
  "d c \<Longrightarrow> split_words d (l @ c # r) acc = split_words d l acc @ split_words d r []"
  by (induction l arbitrary: acc) auto

lemma strstr_snoc: "c \<notin> set pat \<Longrightarrow> pat \<noteq> [] \<Longrightarrow> strstr (w @ [c]) pat = strstr w pat"
proof -
  assume c: "c \<notin> set pat" "pat \<noteq> []"
  have "(\<exists>a b. w @ [c] = a @ pat @ b) \<longleftrightarrow> (\<exists>a b. w = a @ pat @ b)"
  proof
    assume "\<exists>a b. w @ [c] = a @ pat @ b"
    then obtain a b where e: "w @ [c] = a @ pat @ b" by blast
    from e c show "\<exists>a b. w = a @ pat @ b"
    proof (cases b rule: rev_cases)
      case Nil
      with e c(2) have "last pat = c" by (metis append_Nil2 last_appendR last_snoc)
      with c show ?thesis by auto
    qed auto
  next
    assume "\<exists>a b. w = a @ pat @ b"
    then obtain a b where "w @ [c] = a @ pat @ (b @ [c])" by auto
    then show "\<exists>a b. w @ [c] = a @ pat @ b" by blast
  qed
  then show ?thesis by (simp add: strstr_iff)
qed

lemma matching_line:
  assumes "NL \<notin> set pat" "pat \<noteq> []"
  shows "NL \<notin> set l \<Longrightarrow> matching pat (split_words delim (l @ [NL]) acc) = matching pat (split_words word_end l acc)"
proof (induction l arbitrary: acc)
  case Nil
  have "\<not> strstr [NL] pat" using strstr_snoc [OF assms, of "[]"] assms(2) by simp
  with Nil assms show ?case by (auto simp: delim_def strstr_snoc)
qed (auto simp: word_end_def)

lemma words_no_newline: "NL \<notin> set l \<Longrightarrow> split_words delim l acc = split_words word_end l acc"
  by (induction l arbitrary: acc) (auto simp: word_end_def)

lemma fgets_chunk_line:
  assumes "lines_fit k cs" "fgets_chunk k cs = (a, b)"
  shows "(\<exists>l. a = l @ [NL] \<and> NL \<notin> set l \<and> cs = l @ NL # b \<and> lines_fit (LINE_SIZE - 1) b) \<or>
    (b = [] \<and> a = cs \<and> NL \<notin> set cs)"
  using assms
proof (induction k cs arbitrary: a b rule: fgets_chunk.induct)
  case (1 cs)
  then show ?case by (cases cs) auto
next
  case (3 k c cs)
  show ?case
  proof (cases "c = NL")
    case False
    obtain a' b' where r: "fgets_chunk k cs = (a', b')" by fastforce
    with 3 False have "a = c # a'" "b = b'" by auto
    with 3 False r have "(\<exists>l. a' = l @ [NL] \<and> NL \<notin> set l \<and> cs = l @ NL # b' \<and> lines_fit (LINE_SIZE - 1) b') \<or>
        (b' = [] \<and> a' = cs \<and> NL \<notin> set cs)" by auto
    then show ?thesis
    proof (elim disjE exE conjE)
      fix l assume l: "a' = l @ [NL]" "NL \<notin> set l" "cs = l @ NL # b'" "lines_fit (LINE_SIZE - 1) b'"
      with \<open>a = c # a'\<close> \<open>b = b'\<close> False have "a = (c # l) @ [NL]" "NL \<notin> set (c # l)"
        "c # cs = (c # l) @ NL # b" by auto
      with l \<open>b = b'\<close> show ?thesis by blast
    qed (use \<open>a = c # a'\<close> \<open>b = b'\<close> False in auto)
  qed (use 3 in auto)
qed auto

lemma chunks_empty [simp]: "chunks ([], bad) = []"
  by (simp add: chunks.simps [of "([], bad)"] c_fgets_def LINE_SIZE_def numeral_eq_Suc)

lemma file_count_lines:
  assumes "NL \<notin> set pat" "pat \<noteq> []"
  shows "snd f = False \<Longrightarrow> NUL \<notin> set (fst f) \<Longrightarrow> lines_fit (LINE_SIZE - 1) (fst f) \<Longrightarrow>
    file_count pat f = matching pat (words word_end (fst f))"
proof (induction f rule: chunks.induct)
  case (1 f)
  obtain cs where f: "f = (cs, False)" using 1(2) by (cases f) auto
  obtain a b where r: "fgets_chunk (LINE_SIZE - 1) cs = (a, b)" by fastforce
  show ?case
  proof (cases "cs = []")
    case True
    then show ?thesis
      by (simp add: f file_count_def words_def)
  next
    case False
    with r fgets_chunk_empty [of "LINE_SIZE - 1" cs b] have "a \<noteq> []" by (auto simp: LINE_SIZE_def)
    with r have g: "c_fgets LINE_SIZE f = Some (a, b, False)" by (simp add: f c_fgets_def)
    have app: "cs = a @ b" using fgets_chunk_append [OF r] by simp
    with 1(3) f have nul: "takeWhile (\<lambda>c. c \<noteq> NUL) a = a" by (auto simp: takeWhile_eq_all_conv)
    have step: "file_count pat f = matching pat (words delim a) + file_count pat (b, False)"
      using g by (simp add: file_count_def chunks.simps [of f] nul)
    from fgets_chunk_line [OF 1(4) [unfolded f fst_conv] r] show ?thesis
    proof (elim disjE exE conjE)
      fix l assume l: "a = l @ [NL]" "NL \<notin> set l" "cs = l @ NL # b" "lines_fit (LINE_SIZE - 1) b"
      have "file_count pat (b, False) = matching pat (words word_end b)"
        using 1(1) [OF g refl] 1(3) l f by simp
      moreover have "words word_end cs = split_words word_end l [] @ words word_end b"
        unfolding words_def l(3) by (rule split_words_append) (simp add: word_end_def)
      ultimately show ?thesis
        using step matching_line [OF assms l(2), of "[]"] l(1) by (simp add: f words_def)
    next
      assume l: "b = []" "a = cs" "NL \<notin> set cs"
      have "file_count pat (b, False) = 0"
        by (simp add: l file_count_def)
      then show ?thesis using step l words_no_newline [OF l(3), of "[]"] by (simp add: f words_def)
    qed
  qed
qed

section \<open>Properties of the search of one file\<close>

text \<open>
  C24: in a file without null characters whose lines fit the line buffer, and for a nonempty
  pattern without a newline, the search adds the number of words of the file that contain the
  pattern, a word being a maximal run without a blank, comma, full stop, hyphen or newline; it
  overflows exactly when the count does not fit an \<open>int\<close>.
\<close>

theorem search_lines_counts_words:
  assumes "lines_fit 1023 text" "NUL \<notin> set text" "NL \<notin> set pat" "pat \<noteq> []" "0 \<le> n" "n \<le> INT_MAX"
  shows "search_lines pat (text, False) n =
    (if n + int (length (filter (\<lambda>w. strstr w pat) (words word_end text))) \<le> INT_MAX
     then ok (n + int (length (filter (\<lambda>w. strstr w pat) (words word_end text))))
     else err Signed_Overflow)"
proof -
  have "file_count pat (text, False) = matching pat (words word_end text)"
    using file_count_lines [OF assms(3,4), of "(text, False)"] assms(1,2) by (simp add: LINE_SIZE_def)
  with search_lines_count [OF assms(5,6)] show ?thesis by (simp add: c_count_def matching_def)
qed

lemma search_lines_counts_words_witness:
  "search_lines ''ab'' (''ab, xaby-ab'' @ [NL] @ ''b a'', False) 2 = ok 5"
  using search_lines_counts_words [of "''ab, xaby-ab'' @ [NL] @ ''b a''" "''ab''" 2]
  by (simp add: LINE_SIZE_def words_def word_end_def delim_def INT_MAX_def)

lemma split_words_no_delim:
  "filter d acc = [] \<Longrightarrow> w \<in> set (split_words d s acc) \<Longrightarrow> filter d w = []"
proof (induction s arbitrary: acc)
  case (Cons c s)
  from Cons.IH [of "[]"] Cons.IH [of "acc @ [c]"] Cons.prems show ?case
    by (auto simp del: filter_empty_conv split: if_splits)
qed (simp split: if_splits)

text \<open>
  A pattern that contains one of the delimiters is never found, whatever the file holds:
  the tokens the pattern is compared with contain no delimiter.
\<close>

theorem search_lines_delimiter_pattern:
  assumes "c \<in> set pat" "delim c" "0 \<le> n" "n \<le> INT_MAX"
  shows "search_lines pat f n = ok n"
proof -
  have "\<not> strstr w pat" if "w \<in> set (words delim s)" for w s
    using split_words_no_delim [of delim "[]" w s] that assms(1,2) by (auto simp: words_def strstr_iff filter_empty_conv)
  then have "matching pat (words delim s) = 0" for s by (simp add: matching_def filter_empty_conv)
  then have "file_count pat f = 0" by (simp add: file_count_def)
  with search_lines_count [OF assms(3,4)] assms(4) show ?thesis by (simp add: c_count_def)
qed

lemma search_lines_delimiter_pattern_witness:
  "search_lines ''a b'' (''a b'', False) 0 = ok 0"
  by (rule search_lines_delimiter_pattern [of "CHR '' ''"]) (simp_all add: delim_def INT_MAX_def)

end
