(* ===== verification/MiniGrep.thy ===== *)
theory MiniGrep
  imports WorkQueue GrepText
begin

text \<open>
  The serial search of mini_grep (\<open>pp_2/mini_grep.c\<close>, \<open>serial_search\<close>) and the loop body it
  shares with the threads of the static parallel search, over a file system that is a parameter.
  The specification is the sum of the matching words over the files that can be reached from
  the root without following links.
\<close>

section \<open>The file system\<close>

text \<open>
  What the search sees of the file system, which does not change while it runs: the type of a
  path (\<open>None\<close> when \<open>lstat\<close> fails), the names in a directory and whether reading it ends in an
  error (\<open>None\<close> when \<open>opendir\<close> fails), and the contents of a file (\<open>None\<close> when \<open>fopen\<close> fails).
\<close>

datatype ftype = Symlink | Directory | Regular | OtherType

record filesys =
  fs_lstat :: "string \<Rightarrow> ftype option"
  fs_opendir :: "string \<Rightarrow> (string list \<times> bool) option"
  fs_fopen :: "string \<Rightarrow> stream option"

section \<open>The code\<close>

text \<open>
  The loop that reads a directory, with \<open>entry\<close> the buffer for \<open>readdir_r\<close>. A read error ends
  the loop like the end of the directory.
\<close>

fun read_entries :: "qaddr option \<Rightarrow> string \<Rightarrow> string list \<Rightarrow> qheap \<Rightarrow> queue \<Rightarrow> (qheap \<times> queue) res" where
  "read_entries entry dir [] m queue = ok (m, queue)"
| "read_entries entry dir (d_name # ds) m queue =
     (if entry = None then err Null_Deref
      else if d_name = ''.'' then read_entries entry dir ds m queue
      else if d_name = ''..'' then read_entries entry dir ds m queue
      else
        (case qmalloc_element m of
           (m1, None) \<Rightarrow> err (Exit_Call 1)
         | (m1, Some new_element) \<Rightarrow>
             rbind (set_path m1 (Some new_element) (dir @ ''/'' @ d_name)) (\<lambda>m2.
             rbind (insert_element m2 queue (Some new_element)) (\<lambda>(m3, queue1).
             read_entries entry dir ds m3 queue1))))"

text \<open>
  One turn of the main loop: take an element, look at what it names, and search it or queue what
  it contains. The element is freed at the end of the turn, but not when a directory or a file
  cannot be opened (\<open>continue\<close> skips the call of \<open>free\<close>).
\<close>

definition visit :: "filesys \<Rightarrow> string \<Rightarrow> qaddr option \<Rightarrow> qheap \<Rightarrow> queue \<Rightarrow> int \<Rightarrow> (qheap \<times> queue \<times> int) res" where
  "visit fs pat entry m queue num_occurrences =
     rbind (remove_element m queue) (\<lambda>(element, queue1).
     rbind (qload m element) (\<lambda>e.
     (case fs_lstat fs (path_name e) of
        None \<Rightarrow> rbind (qfree m element) (\<lambda>m1. ok (m1, queue1, num_occurrences))
      | Some Symlink \<Rightarrow> rbind (qfree m element) (\<lambda>m1. ok (m1, queue1, num_occurrences))
      | Some Directory \<Rightarrow>
          (case fs_opendir fs (path_name e) of
             None \<Rightarrow> ok (m, queue1, num_occurrences)
           | Some (ds, bad) \<Rightarrow>
               rbind (read_entries entry (path_name e) ds m queue1) (\<lambda>(m1, queue2).
               rbind (qfree m1 element) (\<lambda>m2. ok (m2, queue2, num_occurrences))))
      | Some Regular \<Rightarrow>
          (case fs_fopen fs (path_name e) of
             None \<Rightarrow> ok (m, queue1, num_occurrences)
           | Some file_to_search \<Rightarrow>
               rbind (search_lines pat file_to_search num_occurrences) (\<lambda>n.
               rbind (qfree m element) (\<lambda>m1. ok (m1, queue1, n))))
      | Some OtherType \<Rightarrow> rbind (qfree m element) (\<lambda>m1. ok (m1, queue1, num_occurrences)))))"

partial_function (option) search_loop ::
  "filesys \<Rightarrow> string \<Rightarrow> qaddr option \<Rightarrow> qheap \<Rightarrow> queue \<Rightarrow> int \<Rightarrow> (qheap \<times> int) res" where
  "search_loop fs pat entry m queue num_occurrences =
     (if q_head queue = None then ok (m, num_occurrences)
      else rbind (visit fs pat entry m queue num_occurrences)
        (\<lambda>(m1, queue1, n). search_loop fs pat entry m1 queue1 n))"

text \<open>
  The beginning of a search: the buffer for directory entries, a queue and an element, all from
  \<open>malloc\<close>. Only the element is checked.
\<close>

definition alloc_root :: "qheap \<Rightarrow> (qaddr option \<times> queue option \<times> qaddr option \<times> qheap) res" where
  "alloc_root m =
     (case qmalloc m of (m1, entry) \<Rightarrow>
      case create_queue m1 of (m2, queue) \<Rightarrow>
      case qmalloc_element m2 of (m3, element) \<Rightarrow>
      if element = None then err (Exit_Call 1) else ok (entry, queue, element, m3))"

text \<open>The element gets the path of the root and goes into the queue. A missing queue is a null pointer.\<close>

definition place_root :: "string \<Rightarrow> queue option \<Rightarrow> qaddr option \<Rightarrow> qheap \<Rightarrow> (qheap \<times> queue) res" where
  "place_root path queue element m =
     rbind (set_path m element path) (\<lambda>m4.
     rbind (qstore m4 element (\<lambda>e. e\<lparr>qe_next := None\<rparr>)) (\<lambda>m5.
     (case queue of
        None \<Rightarrow> err Null_Deref
      | Some q \<Rightarrow> insert_element m5 q element)))"

definition insert_root :: "string \<Rightarrow> qheap \<Rightarrow> (qaddr option \<times> qheap \<times> queue) res" where
  "insert_root path m =
     rbind (alloc_root m) (\<lambda>(entry, queue, element, m3).
     rbind (place_root path queue element m3) (\<lambda>(m6, q1). ok (entry, m6, q1)))"

definition serial_search :: "filesys \<Rightarrow> string \<Rightarrow> string \<Rightarrow> qheap \<Rightarrow> (qheap \<times> int) res" where
  "serial_search fs pat path m =
     rbind (insert_root path m) (\<lambda>(entry, m1, queue). search_loop fs pat entry m1 queue 0)"

section \<open>What is searched\<close>

definition proper_names :: "string list \<Rightarrow> string list" where
  "proper_names ds = filter (\<lambda>d. d \<noteq> ''.'' \<and> d \<noteq> ''..'') ds"

text \<open>The paths a turn of the loop queues for a path.\<close>

definition children :: "filesys \<Rightarrow> string \<Rightarrow> string list" where
  "children fs p =
     (if fs_lstat fs p = Some Directory then
        (case fs_opendir fs p of None \<Rightarrow> [] | Some (ds, bad) \<Rightarrow> map (\<lambda>d. p @ ''/'' @ d) (proper_names ds))
      else [])"

lemma children_longer: "q \<in> set (children fs p) \<Longrightarrow> length p < length q"
proof -
  assume "q \<in> set (children fs p)"
  then obtain d where "q = p @ ''/'' @ d"
    by (cases "fs_lstat fs p = Some Directory"; cases "fs_opendir fs p") (auto simp add: children_def)
  then show ?thesis by simp
qed

text \<open>
  The paths below a path, itself included. A path that does not fit the buffer is not followed;
  this bounds the depth.
\<close>

function reach :: "filesys \<Rightarrow> string \<Rightarrow> string list" where
  "reach fs p = (if length p < MAX_LENGTH then p # concat (map (reach fs) (children fs p)) else [p])"
  by pat_completeness auto
termination
  apply (relation "measure (\<lambda>(fs, p). MAX_LENGTH - length p)")
   apply simp
  apply (auto dest!: children_longer)
  done

declare reach.simps [simp del]

definition paths_fit :: "filesys \<Rightarrow> string \<Rightarrow> bool" where
  "paths_fit fs p \<longleftrightarrow> (\<forall>q\<in>set (reach fs p). length q < MAX_LENGTH)"

text \<open>The matching words of one file, and of everything below a path.\<close>

definition path_count :: "filesys \<Rightarrow> string \<Rightarrow> string \<Rightarrow> nat" where
  "path_count fs pat p =
     (if fs_lstat fs p = Some Regular then
        (case fs_fopen fs p of None \<Rightarrow> 0 | Some f \<Rightarrow> file_count pat f) else 0)"

definition occurrences :: "filesys \<Rightarrow> string \<Rightarrow> string \<Rightarrow> nat" where
  "occurrences fs pat p = sum_list (map (path_count fs pat) (reach fs p))"

lemma sum_list_concat_map: "sum_list (concat (map f xs)) = sum_list (map (\<lambda>x. sum_list (f x)) xs)"
  by (induction xs) auto

lemma reach_nonempty [simp]: "reach fs p \<noteq> []"
  by (simp add: reach.simps [of fs p])

lemma paths_fit_step:
  "paths_fit fs p \<longleftrightarrow> length p < MAX_LENGTH \<and> (\<forall>q\<in>set (children fs p). paths_fit fs q)"
  by (auto simp: paths_fit_def reach.simps [of fs p])

lemma paths_fit_length: "paths_fit fs p \<Longrightarrow> length p < MAX_LENGTH"
  by (simp add: paths_fit_step [of fs p])

lemma occurrences_step:
  "length p < MAX_LENGTH \<Longrightarrow>
   occurrences fs pat p = path_count fs pat p + sum_list (map (occurrences fs pat) (children fs p))"
  by (simp add: occurrences_def [abs_def] reach.simps [of fs p] map_concat o_def sum_list_concat_map)

lemma reach_length_step:
  "length p < MAX_LENGTH \<Longrightarrow>
   length (reach fs p) = Suc (sum_list (map (\<lambda>q. length (reach fs q)) (children fs p)))"
  by (simp add: reach.simps [of fs p] length_concat o_def)

section \<open>One turn of the loop\<close>

definition qinv :: "qheap \<Rightarrow> queue \<Rightarrow> (qaddr \<times> string) list \<Rightarrow> bool" where
  "qinv m q ps \<longleftrightarrow> qrep m q ps \<and> (\<forall>a\<in>fst ` set ps. a < qbrk m)"

text \<open>The heap outside a set of elements is as it was, and new elements are above the old ones.\<close>

definition grows :: "qaddr set \<Rightarrow> qheap \<Rightarrow> qheap \<Rightarrow> bool" where
  "grows A m m' \<longleftrightarrow> qbrk m \<le> qbrk m' \<and> (\<forall>b<qbrk m. b \<notin> A \<longrightarrow> cells m' b = cells m b)"

lemma growsD: "grows A m m' \<Longrightarrow> b < qbrk m \<Longrightarrow> b \<notin> A \<Longrightarrow> cells m' b = cells m b"
  by (simp add: grows_def)

lemma grows_brk: "grows A m m' \<Longrightarrow> qbrk m \<le> qbrk m'"
  by (simp add: grows_def)

lemma grows_trans: "grows A m m1 \<Longrightarrow> grows B m1 m2 \<Longrightarrow> B \<subseteq> A \<union> {qbrk m..} \<Longrightarrow> grows A m m2"
  unfolding grows_def by (smt (verit, del_insts) UnE atLeast_iff le_trans less_le_trans linorder_not_le subsetD)

lemma insert_new:
  assumes "qinv m q ps" "qmalloc_element m = (m1, Some a)" "length s < MAX_LENGTH"
  shows "\<exists>m2 m3 q'. set_path m1 (Some a) s = ok m2 \<and> insert_element m2 q (Some a) = ok (m3, q') \<and>
    qinv m3 q' (ps @ [(a, s)]) \<and> a = qbrk m \<and> qbrk m3 = Suc (qbrk m) \<and> Suc (qavail m3) = qavail m \<and>
    grows (fst ` set ps) m m3"
proof -
  from assms(2) have a: "a = qbrk m" and av: "0 < qavail m"
    and m1: "m1 = m\<lparr>qbrk := Suc (qbrk m), qavail := qavail m - 1, cells := (cells m)(a \<mapsto> \<lparr>path_name = [], qe_next = None\<rparr>)\<rparr>"
    by (auto simp: qmalloc_element_def qmalloc_def split: if_splits)
  define m2 where "m2 = m1\<lparr>cells := (cells m1)(a \<mapsto> \<lparr>path_name = s, qe_next = None\<rparr>)\<rparr>"
  have set: "set_path m1 (Some a) s = ok m2"
    using assms(3) by (simp add: set_path_def qstore_def m1 m2_def)
  have notin: "a \<notin> fst ` set ps" using assms(1) by (auto simp: qinv_def a)
  have "qrep m2 q ps"
    by (rule qrep_frame [of m]) (use assms(1) notin in \<open>auto simp: qinv_def m2_def m1\<close>)
  then obtain m3 q' where 3: "insert_element m2 q (Some a) = ok (m3, q')" "qrep m3 q' (ps @ [(a, s)])"
    "\<And>b. b \<noteq> a \<Longrightarrow> b \<notin> fst ` set ps \<Longrightarrow> cells m3 b = cells m2 b" "qbrk m3 = qbrk m2" "qavail m3 = qavail m2"
    using insert_qrep [of m2 q ps a "\<lparr>path_name = s, qe_next = None\<rparr>"] notin by (auto simp: m2_def)
  have brk: "qbrk m3 = Suc (qbrk m)" "Suc (qavail m3) = qavail m"
    using 3 av by (simp_all add: m2_def m1)
  have "grows (fst ` set ps) m m3"
    using 3(3) brk by (auto simp: grows_def m2_def m1 a)
  moreover have "qinv m3 q' (ps @ [(a, s)])"
    using assms(1) 3(2) brk a by (auto simp: qinv_def)
  ultimately show ?thesis using set 3(1) brk a by blast
qed

lemma read_entries_rep:
  assumes "qinv m q ps" "entry \<noteq> None"
  shows "(\<exists>m' q' new. read_entries entry dir ds m q = ok (m', q') \<and> qinv m' q' (ps @ new) \<and>
      map snd new = map (\<lambda>d. dir @ ''/'' @ d) (proper_names ds) \<and> (\<forall>a\<in>fst ` set new. qbrk m \<le> a) \<and>
      grows (fst ` set ps) m m' \<and> qavail m' + length new = qavail m \<and>
      (\<forall>d\<in>set (proper_names ds). length (dir @ ''/'' @ d) < MAX_LENGTH)) \<or>
    (read_entries entry dir ds m q = err (Exit_Call 1) \<and> qavail m < length (proper_names ds)) \<or>
    (read_entries entry dir ds m q = err Out_Of_Bounds \<and>
      (\<exists>d\<in>set (proper_names ds). MAX_LENGTH \<le> length (dir @ ''/'' @ d)))"
  using assms(1)
proof (induction ds arbitrary: m q ps)
  case Nil
  then have "read_entries entry dir [] m q = ok (m, q) \<and> qinv m q (ps @ []) \<and> grows (fst ` set ps) m m"
    by (simp add: grows_def)
  then show ?case by (intro disjI1) (fastforce simp: proper_names_def)
next
  case (Cons d ds)
  show ?case
  proof (cases "d = ''.'' \<or> d = ''..''")
    case True
    then show ?thesis using Cons.IH [OF Cons.prems] assms(2) by (auto simp: proper_names_def)
  next
    case False
    then have pn: "proper_names (d # ds) = d # proper_names ds" by (simp add: proper_names_def)
    show ?thesis
    proof (cases "qmalloc_element m")
      case (Pair m1 o1)
      show ?thesis
      proof (cases o1)
        case None
        with Pair have "qavail m = 0" by (auto simp: qmalloc_element_def qmalloc_def split: if_splits)
        with False None Pair assms(2) pn show ?thesis by auto
      next
        case (Some a)
        show ?thesis
        proof (cases "length (dir @ ''/'' @ d) < MAX_LENGTH")
          case False
          with \<open>\<not> (d = ''.'' \<or> d = ''..'')\<close> Some Pair assms(2) pn show ?thesis
            by (auto simp: set_path_def)
        next
          case True
          from insert_new [OF Cons.prems Pair [unfolded Some] True] obtain m2 m3 q' where
            1: "set_path m1 (Some a) (dir @ ''/'' @ d) = ok m2" "insert_element m2 q (Some a) = ok (m3, q')"
              "qinv m3 q' (ps @ [(a, dir @ ''/'' @ d)])" "a = qbrk m" "qbrk m3 = Suc (qbrk m)"
              "Suc (qavail m3) = qavail m" "grows (fst ` set ps) m m3" by blast
          have run: "read_entries entry dir (d # ds) m q = read_entries entry dir ds m3 q'"
            using False Some Pair assms(2) 1 by auto
          from Cons.IH [OF 1(3)] show ?thesis
          proof (elim disjE exE conjE)
            fix m' q2 new
            assume 2: "read_entries entry dir ds m3 q' = ok (m', q2)"
              "qinv m' q2 ((ps @ [(a, dir @ ''/'' @ d)]) @ new)"
              "map snd new = map (\<lambda>d. dir @ ''/'' @ d) (proper_names ds)" "\<forall>a\<in>fst ` set new. qbrk m3 \<le> a"
              "grows (fst ` set (ps @ [(a, dir @ ''/'' @ d)])) m3 m'" "qavail m' + length new = qavail m3"
              "\<forall>d\<in>set (proper_names ds). length (dir @ ''/'' @ d) < MAX_LENGTH"
            let ?new = "(a, dir @ ''/'' @ d) # new"
            have "grows (fst ` set ps) m m'"
              by (rule grows_trans [OF 1(7) 2(5)]) (use 1(4) in auto)
            moreover have "qinv m' q2 (ps @ ?new)" using 2(2) by simp
            moreover have "map snd ?new = map (\<lambda>d. dir @ ''/'' @ d) (proper_names (d # ds))" using 2(3) pn by simp
            moreover have "\<forall>a\<in>fst ` set ?new. qbrk m \<le> a" using 2(4) 1(4,5) by auto
            moreover have "qavail m' + length ?new = qavail m" using 2(6) 1(6) by simp
            moreover have "\<forall>d'\<in>set (proper_names (d # ds)). length (dir @ ''/'' @ d') < MAX_LENGTH"
              using 2(7) True pn by simp
            ultimately show ?thesis using run 2(1) by (intro disjI1) metis
          qed (use run pn 1(6) in auto)
        qed
      qed
    qed
  qed
qed

lemma qfree_rep:
  assumes "qinv m q ps" "a \<notin> fst ` set ps" "cells m a \<noteq> None"
  shows "\<exists>m'. qfree m (Some a) = ok m' \<and> qinv m' q ps \<and> grows {a} m m' \<and> qavail m' = qavail m \<and> qbrk m' = qbrk m \<and> cells m' a = None"
proof -
  let ?m = "m\<lparr>cells := (cells m)(a := None)\<rparr>"
  have "qfree m (Some a) = ok ?m" using assms(3) by (auto simp: qfree_def)
  moreover have "qrep ?m q ps" by (rule qrep_frame [of m]) (use assms in \<open>auto simp: qinv_def\<close>)
  ultimately show ?thesis using assms(1) by (auto simp: qinv_def grows_def)
qed

definition unopened :: "filesys \<Rightarrow> string \<Rightarrow> bool" where
  "unopened fs p \<longleftrightarrow> fs_lstat fs p = Some Directory \<and> fs_opendir fs p = None \<or>
     fs_lstat fs p = Some Regular \<and> fs_fopen fs p = None"

text \<open>
  The four ways a turn can end. The error cases are those of the source: no memory, a path
  longer than the array, and a counter that overflows.
\<close>

definition visit_ok :: "filesys \<Rightarrow> string \<Rightarrow> qheap \<Rightarrow> qaddr \<Rightarrow> string \<Rightarrow> (qaddr \<times> string) list \<Rightarrow> int \<Rightarrow>
    qheap \<times> queue \<times> int \<Rightarrow> (qaddr \<times> string) list \<Rightarrow> bool" where
  "visit_ok fs pat m a p ps n r new \<longleftrightarrow>
     (case r of (m', q', n') \<Rightarrow> n' = n + int (path_count fs pat p) \<and> n' \<le> INT_MAX \<and> qinv m' q' (ps @ new) \<and>
        map snd new = children fs p \<and> (\<forall>b\<in>fst ` set new. qbrk m \<le> b) \<and>
        grows (fst ` set ((a, p) # ps)) m m' \<and> qavail m' + length new = qavail m \<and>
        (\<forall>c\<in>set (children fs p). length c < MAX_LENGTH) \<and>
        (cells m' a = None \<longleftrightarrow> \<not> unopened fs p))"

definition visit_fails :: "filesys \<Rightarrow> string \<Rightarrow> qheap \<Rightarrow> string \<Rightarrow> int \<Rightarrow> c_error \<Rightarrow> bool" where
  "visit_fails fs pat m p n e \<longleftrightarrow>
     e = Exit_Call 1 \<and> qavail m < length (children fs p) \<or>
     e = Out_Of_Bounds \<and> (\<exists>c\<in>set (children fs p). MAX_LENGTH \<le> length c) \<or>
     e = Signed_Overflow \<and> INT_MAX < n + int (path_count fs pat p)"

lemma visit_freed:
  assumes "qinv m q1 ps" "a \<notin> fst ` set ps" "cells m a \<noteq> None" "children fs p = []" "\<not> unopened fs p"
    and "n' = n + int (path_count fs pat p)" "n' \<le> INT_MAX"
  shows "\<exists>m'. qfree m (Some a) = ok m' \<and> visit_ok fs pat m a p ps n (m', q1, n') []"
proof -
  from qfree_rep [OF assms(1-3)] obtain m' where
    m': "qfree m (Some a) = ok m'" "qinv m' q1 ps" "grows {a} m m'" "qavail m' = qavail m" "cells m' a = None" by blast
  then have "grows (insert a (fst ` set ps)) m m'" by (auto simp: grows_def)
  with m' assms(4-7) show ?thesis by (auto simp: visit_ok_def)
qed

lemma visit_rep:
  assumes "qinv m q ((a, p) # ps)" "entry \<noteq> None" "0 \<le> n" "n \<le> INT_MAX"
  shows "(\<exists>r new. visit fs pat entry m q n = ok r \<and> visit_ok fs pat m a p ps n r new) \<or>
    (\<exists>e. visit fs pat entry m q n = err e \<and> visit_fails fs pat m p n e)"
proof -
  from assms(1) obtain q1 where q1: "remove_element m q = ok (Some a, q1)" "qrep m q1 ps"
    using remove_qrep by (fastforce simp: qinv_def)
  from assms(1) qrep_path [of m q "(a, p) # ps" a p] obtain e where e: "cells m a = Some e" "path_name e = p"
    by (auto simp: qinv_def path_at_def)
  from assms(1) have a: "a \<notin> fst ` set ps" "a < qbrk m" and inv: "qinv m q1 ps"
    using q1(2) by (auto simp: qinv_def qrep_def)
  have live: "cells m a \<noteq> None" using e by simp
  have load: "qload m (Some a) = ok e" using e by (simp add: qload_def)
  note freed = visit_freed [OF inv a(1) live, of fs p _ n pat]
  have run: "visit fs pat entry m q n =
      (case fs_lstat fs p of
        None \<Rightarrow> rbind (qfree m (Some a)) (\<lambda>m1. ok (m1, q1, n))
      | Some Symlink \<Rightarrow> rbind (qfree m (Some a)) (\<lambda>m1. ok (m1, q1, n))
      | Some Directory \<Rightarrow>
          (case fs_opendir fs p of
             None \<Rightarrow> ok (m, q1, n)
           | Some (ds, bad) \<Rightarrow>
               rbind (read_entries entry p ds m q1) (\<lambda>(m1, queue2).
               rbind (qfree m1 (Some a)) (\<lambda>m2. ok (m2, queue2, n))))
      | Some Regular \<Rightarrow>
          (case fs_fopen fs p of
             None \<Rightarrow> ok (m, q1, n)
           | Some file_to_search \<Rightarrow>
               rbind (search_lines pat file_to_search n) (\<lambda>n.
               rbind (qfree m (Some a)) (\<lambda>m1. ok (m1, q1, n))))
      | Some OtherType \<Rightarrow> rbind (qfree m (Some a)) (\<lambda>m1. ok (m1, q1, n)))"
    unfolding visit_def q1(1) rbind_ok prod.case load e(2) by (rule refl)
  have plain: ?thesis if "fs_lstat fs p \<noteq> Some Directory" "fs_lstat fs p \<noteq> Some Regular"
  proof -
    from that have "children fs p = []" "path_count fs pat p = 0" "\<not> unopened fs p"
      by (auto simp: children_def path_count_def unopened_def)
    with freed [of n] assms(4) obtain m' where "qfree m (Some a) = ok m'" "visit_ok fs pat m a p ps n (m', q1, n) []"
      by auto
    moreover from this that have "visit fs pat entry m q n = ok (m', q1, n)"
      unfolding run by (auto split: option.split ftype.split)
    ultimately show ?thesis by blast
  qed
  have kept: ?thesis if "visit fs pat entry m q n = ok (m, q1, n)" "children fs p = []" "path_count fs pat p = 0" "unopened fs p"
  proof -
    have "visit_ok fs pat m a p ps n (m, q1, n) []"
      using that inv live assms(4) by (simp add: visit_ok_def grows_def)
    with that show ?thesis by blast
  qed
  show ?thesis
  proof (cases "fs_lstat fs p")
    case (Some t)
    show ?thesis
    proof (cases t)
      case Directory
      show ?thesis
      proof (cases "fs_opendir fs p")
        case None
        with Some Directory show ?thesis
          by (intro kept) (simp_all add: run children_def path_count_def unopened_def)
      next
        case (Some db)
        obtain ds bad where db: "db = (ds, bad)" by fastforce
        have ch: "children fs p = map (\<lambda>d. p @ ''/'' @ d) (proper_names ds)" and pc: "path_count fs pat p = 0"
          and op: "\<not> unopened fs p"
          using Some \<open>fs_lstat fs p = Some t\<close> Directory db by (simp_all add: children_def path_count_def unopened_def)
        have run': "visit fs pat entry m q n = rbind (read_entries entry p ds m q1) (\<lambda>(m1, queue2).
            rbind (qfree m1 (Some a)) (\<lambda>m2. ok (m2, queue2, n)))"
          using Some \<open>fs_lstat fs p = Some t\<close> Directory db by (simp add: run)
        from read_entries_rep [OF inv assms(2), of p ds] show ?thesis
        proof (elim disjE exE conjE)
          fix m1 q2 new
          assume r: "read_entries entry p ds m q1 = ok (m1, q2)" "qinv m1 q2 (ps @ new)"
            "map snd new = map (\<lambda>d. p @ ''/'' @ d) (proper_names ds)" "\<forall>b\<in>fst ` set new. qbrk m \<le> b"
            "grows (fst ` set ps) m m1" "qavail m1 + length new = qavail m"
            "\<forall>d\<in>set (proper_names ds). length (p @ ''/'' @ d) < MAX_LENGTH"
          from growsD [OF r(5) a(2,1)] live have "cells m1 a \<noteq> None" by simp
          moreover have "a \<notin> fst ` set (ps @ new)" using a r(4) by force
          ultimately obtain m2 where m2: "qfree m1 (Some a) = ok m2" "qinv m2 q2 (ps @ new)" "grows {a} m1 m2"
            "qavail m2 = qavail m1" "cells m2 a = None" using qfree_rep [OF r(2)] by blast
          have "grows (fst ` set ps) m m1 \<Longrightarrow> grows (fst ` set ((a, p) # ps)) m m2"
            using m2(3) by (auto simp: grows_def)
          then have "visit_ok fs pat m a p ps n (m2, q2, n) new"
            using r m2 ch pc op assms(4) by (simp add: visit_ok_def)
          with run' r(1) m2(1) show ?thesis by fastforce
        qed (use run' ch in \<open>auto simp: visit_fails_def\<close>)
      qed
    next
      case Regular
      show ?thesis
      proof (cases "fs_fopen fs p")
        case None
        with Some Regular show ?thesis
          by (intro kept) (simp_all add: run children_def path_count_def unopened_def)
      next
        case (Some f)
        have ch: "children fs p = []" and pc: "path_count fs pat p = file_count pat f"
          and op: "\<not> unopened fs p"
          using Some \<open>fs_lstat fs p = Some t\<close> Regular by (simp_all add: children_def path_count_def unopened_def)
        have run': "visit fs pat entry m q n = rbind (c_count n (file_count pat f)) (\<lambda>n.
               rbind (qfree m (Some a)) (\<lambda>m1. ok (m1, q1, n)))"
          using Some \<open>fs_lstat fs p = Some t\<close> Regular search_lines_count [OF assms(3,4)] by (simp add: run)
        show ?thesis
        proof (cases "n + int (file_count pat f) \<le> INT_MAX")
          case True
          with freed [OF ch op refl] pc obtain m' where "qfree m (Some a) = ok m'"
            "visit_ok fs pat m a p ps n (m', q1, n + int (path_count fs pat p)) []" by auto
          with run' True pc show ?thesis by (fastforce simp: c_count_def)
        next
          case False
          with run' pc show ?thesis by (auto simp: c_count_def visit_fails_def)
        qed
      qed
    next
      case Symlink
      with Some show ?thesis by (intro plain) simp_all
    next
      case OtherType
      with Some show ?thesis by (intro plain) simp_all
    qed
  qed (rule plain; simp)
qed

section \<open>The whole search\<close>

text \<open>
  The sum of a quantity over the elements of a queue: what is left to count, and how much memory and
  time that takes.
\<close>

definition todo :: "(string \<Rightarrow> 'a :: comm_monoid_add) \<Rightarrow> (qaddr \<times> string) list \<Rightarrow> 'a" where
  "todo f ps = sum_list (map (\<lambda>x. f (snd x)) ps)"

abbreviation todo_count :: "filesys \<Rightarrow> string \<Rightarrow> (qaddr \<times> string) list \<Rightarrow> nat" where
  "todo_count fs pat \<equiv> todo (occurrences fs pat)"

abbreviation todo_size :: "filesys \<Rightarrow> (qaddr \<times> string) list \<Rightarrow> nat" where
  "todo_size fs \<equiv> todo (\<lambda>p. length (reach fs p))"

lemma todo_simps [simp]:
  "todo f [] = 0" "todo f (x # ps) = f (snd x) + todo f ps" "todo f (ps @ ps') = todo f ps + todo f ps'"
  by (simp_all add: todo_def add.assoc)

lemma todo_paths: "map snd ps = xs \<Longrightarrow> todo f ps = sum_list (map f xs)"
  by (auto simp: todo_def o_def)

lemma todo_take_drop: "todo f (take k ps) + todo f (drop k ps) = todo f ps"
  by (metis append_take_drop_id todo_simps(3))

lemma todo_length: "length ps \<le> todo_size fs ps"
proof (induction ps)
  case (Cons x ps)
  have "reach fs (snd x) \<noteq> []" by (rule reach_nonempty)
  with Cons show ?case by (cases "reach fs (snd x)") simp_all
qed simp

lemma todo_children:
  assumes "map snd new = children fs p" "length p < MAX_LENGTH"
  shows "occurrences fs pat p = path_count fs pat p + todo_count fs pat new"
    and "length (reach fs p) = Suc (todo_size fs new)"
  using assms occurrences_step [of p fs pat] reach_length_step [of p fs] by (simp_all add: todo_paths)

text \<open>
  The loop returns, on every file system: a turn replaces a path by the paths directly below it,
  and paths get longer. It returns the sum of the occurrences, unless a path does not fit, the
  memory runs out or the count overflows.
\<close>

definition search_result :: "filesys \<Rightarrow> string \<Rightarrow> qheap \<Rightarrow> int \<Rightarrow> (qaddr \<times> string) list \<Rightarrow> (qheap \<times> int) res \<Rightarrow> bool" where
  "search_result fs pat m n ps r \<longleftrightarrow>
     (\<exists>m'. r = ok (m', n + int (todo_count fs pat ps)) \<and> n + int (todo_count fs pat ps) \<le> INT_MAX \<and>
        qavail m' + todo_size fs ps = qavail m + length ps) \<or>
     r = err (Exit_Call 1) \<and> qavail m + length ps < todo_size fs ps \<or>
     r = err Out_Of_Bounds \<and> \<not> (\<forall>x\<in>set ps. paths_fit fs (snd x)) \<or>
     r = err Signed_Overflow \<and> INT_MAX < n + int (todo_count fs pat ps)"

lemma search_loop_result:
  assumes "qinv m q ps" "entry \<noteq> None" "0 \<le> n" "n \<le> INT_MAX" "\<forall>x\<in>set ps. length (snd x) < MAX_LENGTH"
  shows "search_result fs pat m n ps (search_loop fs pat entry m q n)"
  using assms
proof (induction "todo_size fs ps" arbitrary: m q ps n rule: less_induct)
  case less
  show ?case
  proof (cases ps)
    case Nil
    with less.prems show ?thesis
      by (simp add: search_result_def search_loop.simps [of fs pat entry m q] qinv_def qrep_head)
  next
    case (Cons x ps')
    obtain a p where x: "x = (a, p)" by fastforce
    have hd: "q_head q \<noteq> None" using less.prems(1) Cons qrep_head [of m q ps] by (simp add: qinv_def)
    have run: "search_loop fs pat entry m q n = rbind (visit fs pat entry m q n)
        (\<lambda>(m1, queue1, n). search_loop fs pat entry m1 queue1 n)"
      by (subst search_loop.simps) (simp only: hd if_False)
    have len: "length p < MAX_LENGTH" using less.prems(5) Cons x by simp
    from todo_length [of ps' fs] have tl: "length ps' \<le> todo_size fs ps'" .
    from visit_rep [OF less.prems(1) [unfolded Cons x] less.prems(2-4), of fs pat] show ?thesis
    proof (elim disjE exE conjE)
      fix r new assume v: "visit fs pat entry m q n = ok r" "visit_ok fs pat m a p ps' n r new"
      obtain m1 q1 n1 where r: "r = (m1, q1, n1)" by (cases r) auto
      from v(2) r have ok: "n1 = n + int (path_count fs pat p)" "n1 \<le> INT_MAX" "qinv m1 q1 (ps' @ new)"
        "map snd new = children fs p" "qavail m1 + length new = qavail m"
        "\<forall>c\<in>set (children fs p). length c < MAX_LENGTH" by (simp_all add: visit_ok_def)
      note tc = todo_children [OF ok(4) len]
      have setnew: "set (children fs p) = snd ` set new" by (metis ok(4) set_map)
      have fit: "(\<forall>y\<in>set (ps' @ new). paths_fit fs (snd y)) \<longleftrightarrow> (\<forall>y\<in>set ps. paths_fit fs (snd y))"
        using Cons x setnew len by (auto simp: paths_fit_step [of fs p])
      have tot: "n1 + int (todo_count fs pat (ps' @ new)) = n + int (todo_count fs pat ps)"
        using ok(1) tc(1) Cons x by simp
      have mem: "qavail m1 + length (ps' @ new) < todo_size fs (ps' @ new) \<longleftrightarrow> qavail m + length ps < todo_size fs ps"
        using ok(5) tc(2) Cons x by auto
      have used: "k + todo_size fs (ps' @ new) = qavail m1 + length (ps' @ new) \<longleftrightarrow>
          k + todo_size fs ps = qavail m + length ps" for k
        using ok(5) tc(2) Cons x by auto
      have "search_result fs pat m1 n1 (ps' @ new) (search_loop fs pat entry m1 q1 n1)"
        by (rule less.hyps) (use ok setnew less.prems Cons x tc in auto)
      then show ?thesis
        unfolding search_result_def fit tot mem used using run v(1) r by auto
    next
      fix e assume v: "visit fs pat entry m q n = err e" "visit_fails fs pat m p n e"
      from todo_children [of "map (Pair 0) (children fs p)" fs p, OF _ len]
      have tc: "occurrences fs pat p = path_count fs pat p + todo_count fs pat (map (Pair 0) (children fs p))"
        "length (reach fs p) = Suc (todo_size fs (map (Pair 0) (children fs p)))" by (simp_all add: o_def)
      have mem: "qavail m < length (children fs p) \<Longrightarrow> qavail m + length ps < todo_size fs ps"
        using tc(2) todo_length [of "map (Pair 0) (children fs p)" fs] tl Cons x by simp
      have oob: "c \<in> set (children fs p) \<Longrightarrow> MAX_LENGTH \<le> length c \<Longrightarrow> \<not> (\<forall>x\<in>set ps. paths_fit fs (snd x))" for c
        using Cons x paths_fit_step [of fs p] paths_fit_step [of fs c] by auto
      have "INT_MAX < n + int (path_count fs pat p) \<Longrightarrow> INT_MAX < n + int (todo_count fs pat ps)"
        using tc(1) Cons x by simp
      then show ?thesis
        using run v mem oob by (auto simp: visit_fails_def search_result_def)
    qed
  qed
qed

lemma alloc_root_result:
  "if qavail m < 3 then alloc_root m = err (Exit_Call 1)
   else alloc_root m = ok (Some (qbrk m), Some \<lparr>q_head = None, q_tail = None\<rparr>, Some (qbrk m + 2),
     \<lparr>cells = (cells m)(qbrk m + 2 \<mapsto> \<lparr>path_name = [], qe_next = None\<rparr>), qbrk = qbrk m + 3, qavail = qavail m - 3\<rparr>)"
  by (auto simp: alloc_root_def qmalloc_def create_queue_def qmalloc_element_def numeral_3_eq_3)

lemma place_root_result:
  assumes "cells m a \<noteq> None" "a < qbrk m"
  shows "if MAX_LENGTH \<le> length p then place_root p (Some \<lparr>q_head = None, q_tail = None\<rparr>) (Some a) m = err Out_Of_Bounds
    else \<exists>m' q. place_root p (Some \<lparr>q_head = None, q_tail = None\<rparr>) (Some a) m = ok (m', q) \<and> qinv m' q [(a, p)] \<and>
      qavail m' = qavail m \<and> qbrk m' = qbrk m \<and> grows {a} m m'"
  using assms
  by (auto simp: place_root_def set_path_def qstore_def insert_element_def qinv_def qrep_def grows_def)

lemma insert_root_result:
  "if qavail m < 3 then insert_root p m = err (Exit_Call 1)
   else if MAX_LENGTH \<le> length p then insert_root p m = err Out_Of_Bounds
   else \<exists>e m' q a. insert_root p m = ok (Some e, m', q) \<and> qinv m' q [(a, p)] \<and> qavail m' + 3 = qavail m"
proof (cases "qavail m < 3")
  case True
  then show ?thesis using alloc_root_result [of m] by (simp add: insert_root_def)
next
  case False
  let ?m = "\<lparr>cells = (cells m)(qbrk m + 2 \<mapsto> \<lparr>path_name = [], qe_next = None\<rparr>), qbrk = qbrk m + 3, qavail = qavail m - 3\<rparr>"
  have run: "insert_root p m = rbind (place_root p (Some \<lparr>q_head = None, q_tail = None\<rparr>) (Some (qbrk m + 2)) ?m)
      (\<lambda>(m6, q1). ok (Some (qbrk m), m6, q1))"
    using alloc_root_result [of m] False by (simp add: insert_root_def)
  have "cells ?m (qbrk m + 2) \<noteq> None" "qbrk m + 2 < qbrk ?m" by simp_all
  from place_root_result [OF this, of p] show ?thesis
    unfolding run using False by (auto split: if_splits)
qed

lemma serial_search_result:
  "qavail m < 3 \<and> serial_search fs pat p m = err (Exit_Call 1) \<or>
   MAX_LENGTH \<le> length p \<and> serial_search fs pat p m = err Out_Of_Bounds \<or>
   (\<exists>m1 a. length p < MAX_LENGTH \<and> qavail m1 + 3 = qavail m \<and> search_result fs pat m1 0 [(a, p)] (serial_search fs pat p m))"
proof (cases "qavail m < 3 \<or> MAX_LENGTH \<le> length p")
  case True
  then show ?thesis using insert_root_result [of m p] by (auto simp: serial_search_def split: if_splits)
next
  case False
  then obtain e m' q a where r: "insert_root p m = ok (Some e, m', q)" "qinv m' q [(a, p)]" "qavail m' + 3 = qavail m"
    using insert_root_result [of m p] by (auto split: if_splits)
  have "search_result fs pat m' 0 [(a, p)] (search_loop fs pat (Some e) m' q 0)"
    by (rule search_loop_result [OF r(2)]) (use False in \<open>simp_all add: INT_MAX_def\<close>)
  with r False show ?thesis by (auto simp: serial_search_def)
qed

lemma serial_search_ok:
  assumes "paths_fit fs p" "length (reach fs p) + 2 \<le> qavail m" "int (occurrences fs pat p) \<le> INT_MAX"
  shows "\<exists>m'. serial_search fs pat p m = ok (m', int (occurrences fs pat p)) \<and>
    qavail m' + length (reach fs p) + 2 = qavail m"
proof -
  have "reach fs p \<noteq> []" by (rule reach_nonempty)
  then have "3 \<le> qavail m" using assms(2) by (cases "reach fs p") auto
  moreover have "length p < MAX_LENGTH" using assms(1) by (simp add: paths_fit_step [of fs p])
  ultimately show ?thesis
    using serial_search_result [of m fs pat p] assms by (auto simp: search_result_def)
qed

section \<open>Properties of the serial search\<close>

text \<open>
  C14: when the paths below the root fit their buffers, there is memory for one element per path
  and the entry buffer, queue and root element, and the count fits an \<open>int\<close>, then \<open>serial_search\<close>
  returns, and what it returns is the number of matching words, summed over the regular files
  below the root that can be opened, links not followed.
\<close>

theorem serial_search_counts:
  assumes "paths_fit fs p" "length (reach fs p) + 2 \<le> qavail m" "int (occurrences fs pat p) \<le> INT_MAX"
  shows "\<exists>m'. serial_search fs pat p m = ok (m', int (sum_list (map (path_count fs pat) (reach fs p))))"
  using serial_search_ok [OF assms] by (auto simp: occurrences_def)

definition demo_fs :: filesys where
  "demo_fs =
     \<lparr>fs_lstat = [''r'' \<mapsto> Directory, ''r/a'' \<mapsto> Regular, ''r/d'' \<mapsto> Directory, ''r/l'' \<mapsto> Symlink, ''r/d/b'' \<mapsto> Regular],
      fs_opendir = [''r'' \<mapsto> ([''.'', ''..'', ''a'', ''d'', ''l''], False), ''r/d'' \<mapsto> ([''b''], True)],
      fs_fopen = [''r/a'' \<mapsto> (''cat, dog'' @ [NL] @ ''cats'', False), ''r/d/b'' \<mapsto> (''a-cat'', False)]\<rparr>"

definition demo_heap :: "nat \<Rightarrow> qheap" where
  "demo_heap n = \<lparr>cells = Map.empty, qbrk = 0, qavail = n\<rparr>"

lemma demo_children:
  "children demo_fs ''r'' = [''r/a'', ''r/d'', ''r/l'']" "children demo_fs ''r/a'' = []"
  "children demo_fs ''r/d'' = [''r/d/b'']" "children demo_fs ''r/d/b'' = []" "children demo_fs ''r/l'' = []"
  by (simp_all add: children_def demo_fs_def proper_names_def)

lemma demo_reach: "reach demo_fs ''r'' = [''r'', ''r/a'', ''r/d'', ''r/d/b'', ''r/l'']"
  by (simp add: demo_children MAX_LENGTH_def reach.simps [of demo_fs "''r''"] reach.simps [of demo_fs "''r/a''"]
      reach.simps [of demo_fs "''r/d''"] reach.simps [of demo_fs "''r/d/b''"] reach.simps [of demo_fs "''r/l''"])

lemma demo_chunks:
  "chunks (''cat, dog'' @ [NL] @ ''cats'', False) = [''cat, dog'' @ [NL], ''cats'']"
  "chunks (''a-cat'', False) = [''a-cat'']"
  by (simp_all add: chunks.simps [of "(_ # _, _)"] c_fgets_def LINE_SIZE_def numeral_eq_Suc)

lemma demo_counts:
  "path_count demo_fs ''cat'' ''r'' = 0" "path_count demo_fs ''cat'' ''r/a'' = 2"
  "path_count demo_fs ''cat'' ''r/d'' = 0" "path_count demo_fs ''cat'' ''r/d/b'' = 1" "path_count demo_fs ''cat'' ''r/l'' = 0"
  by (simp_all add: path_count_def file_count_def demo_fs_def demo_chunks [simplified] words_def delim_def)

lemma demo_sum: "sum_list (map (path_count demo_fs ''cat'') (reach demo_fs ''r'')) = 3"
  by (simp add: demo_reach demo_counts)

lemma serial_search_counts_witness:
  "\<exists>m'. serial_search demo_fs ''cat'' ''r'' (demo_heap 9) = ok (m', 3)"
  using serial_search_counts [of demo_fs "''r''" "demo_heap 9" "''cat''"] unfolding occurrences_def demo_sum
  by (simp add: paths_fit_def demo_reach MAX_LENGTH_def INT_MAX_def demo_heap_def)

text \<open>
  C15: the serial search returns on every file system, however deep, with whatever memory: it
  gives a count, exits because \<open>malloc\<close> failed, writes past a path buffer or overflows the count.
  It never runs for ever, and meets no other undefined behaviour: no element is used after it
  was freed and no null pointer is followed.
\<close>

theorem serial_search_returns:
  "serial_search fs pat p m \<in> range ok \<union> {err (Exit_Call 1), err Out_Of_Bounds, err Signed_Overflow}"
  using serial_search_result [of m fs pat p] by (auto simp: search_result_def)

text \<open>
  A turn of the loop frees the element it took from the queue, except when the directory or
  the file it names cannot be opened; then the element is left allocated and unreachable.
\<close>

theorem visit_leaks_unopened:
  assumes "qrep m q ((a, p) # ps)" "\<forall>b\<in>set (map fst ((a, p) # ps)). b < qbrk m" "entry \<noteq> None"
    and "0 \<le> n" "n \<le> INT_MAX" "visit fs pat entry m q n = ok (m', q', n')"
  shows "cells m' a = None \<longleftrightarrow>
    \<not> (fs_lstat fs p = Some Directory \<and> fs_opendir fs p = None \<or> fs_lstat fs p = Some Regular \<and> fs_fopen fs p = None)"
proof -
  from assms(1,2) have "qinv m q ((a, p) # ps)" by (auto simp: qinv_def)
  from visit_rep [OF this assms(3-5), of fs pat] assms(6) show ?thesis
    by (auto simp: visit_ok_def unopened_def)
qed

lemma visit_leaks_unopened_witness:
  "\<exists>m' q'. visit (\<lparr>fs_lstat = [''x'' \<mapsto> Regular], fs_opendir = Map.empty, fs_fopen = Map.empty\<rparr>) ''p'' (Some 5)
      \<lparr>cells = [0 \<mapsto> \<lparr>path_name = ''x'', qe_next = None\<rparr>], qbrk = 1, qavail = 0\<rparr>
      \<lparr>q_head = Some 0, q_tail = Some 0\<rparr> 0 = ok (m', q', 0) \<and> q_head q' = None \<and> cells m' 0 \<noteq> None"
proof -
  let ?fs = "\<lparr>fs_lstat = [''x'' \<mapsto> Regular], fs_opendir = Map.empty, fs_fopen = Map.empty\<rparr>"
  let ?m = "\<lparr>cells = [0 \<mapsto> \<lparr>path_name = ''x'', qe_next = None\<rparr>], qbrk = 1, qavail = 0\<rparr>"
  let ?q = "\<lparr>q_head = Some 0, q_tail = Some 0\<rparr>"
  have v: "visit ?fs ''p'' (Some 5) ?m ?q 0 = ok (?m, ?q\<lparr>q_head := None\<rparr>, 0)"
    by (simp add: visit_def remove_element_def qload_def)
  from visit_leaks_unopened [of ?m ?q 0 "''x''" "[]" "Some 5" 0 ?fs "''p''", OF _ _ _ _ _ v] v show ?thesis
    by (simp add: qrep_def INT_MAX_def)
qed

end
