(* ===== verification/WorkerPool.thy ===== *)
theory WorkerPool
  imports MiniGrep "HOL-Library.Word" "HOL-Library.Multiset"
begin

text \<open>
  What the two parallel searches of mini_grep share (\<open>pp_2/mini_grep.c\<close>): the main thread hands
  the elements of a queue out to workers and waits for them; each worker works its own queue off.
  All threads run interleaved on one heap; a schedule says whose turn it is. The locale
  \<open>thread_pool\<close> states what a worker's code has to do in one turn, and proves what the pool as a
  whole then does, for every schedule.
\<close>

section \<open>The code\<close>

definition round_up :: "32 word \<Rightarrow> 32 word \<Rightarrow> 32 word res" where
  "round_up dividend divisor =
     (if divisor = 0 then err Div_By_Zero else ok ((dividend + (divisor - 1)) div divisor))"

definition MAX_ELEMENTS_Q :: nat where "MAX_ELEMENTS_Q = 4096"

text \<open>\<open>num_elements\<close> is the length of \<open>elements\<close>.\<close>

record thread_args =
  threadID :: nat
  elements :: "qaddr option list"
  search_string :: string

text \<open>
  Where a worker is: not yet created, created with its arguments, in its main loop with its entry
  buffer, queue and count, or finished.
\<close>

datatype worker =
    Not_Created
  | Created thread_args
  | Searching (w_id: nat) (w_pat: string) "qaddr option" queue int
  | Finished

record pool_state =
  st_heap :: qheap
  st_queue :: queue                  \<comment> \<open>the queue the main thread hands out\<close>
  st_given :: int                    \<comment> \<open>\<open>num_el_to_threads\<close>\<close>
  st_created :: nat                  \<comment> \<open>\<open>i\<close> of the loop that creates the workers\<close>
  st_workers :: "worker list"
  st_results :: "int option list"    \<comment> \<open>\<open>RESULTS\<close>; empty when \<open>malloc\<close> failed\<close>
  st_shared :: "queue option"        \<comment> \<open>\<open>SHARED.queue_files\<close>\<close>

text \<open>
  The code of a worker: what it does before its main loop, one turn of that loop (on the heap, its
  queue, the shared queue and its count), whether it writes \<open>RESULTS\<close> at the end; and how the
  main thread packs its arguments: the size of \<open>search_string\<close>, and whether that is copied before
  the elements are moved.
\<close>

record thread_code =
  tc_start :: "qheap \<Rightarrow> thread_args \<Rightarrow> (qheap \<times> worker) res"
  tc_turn :: "string \<Rightarrow> qaddr option \<Rightarrow> qheap \<Rightarrow> queue \<Rightarrow> queue option \<Rightarrow> int \<Rightarrow>
    (qheap \<times> queue \<times> queue option \<times> int) res"
  tc_writes :: bool
  tc_size :: nat
  tc_early :: bool

fun insert_inputs :: "qheap \<Rightarrow> queue \<Rightarrow> qaddr option list \<Rightarrow> (qheap \<times> queue) res" where
  "insert_inputs m queue [] = ok (m, queue)"
| "insert_inputs m queue (e # es) =
     rbind (insert_element m queue e) (\<lambda>(m1, queue1). insert_inputs m1 queue1 es)"

text \<open>One step of worker \<open>i\<close>: its start, a turn of its main loop, or its end.\<close>

definition worker_step :: "thread_code \<Rightarrow> nat \<Rightarrow> pool_state \<Rightarrow> pool_state res" where
  "worker_step code i st =
     (if length (st_workers st) \<le> i then ok st
      else
        (case st_workers st ! i of
           Not_Created \<Rightarrow> ok st
         | Created args \<Rightarrow>
             rbind (tc_start code (st_heap st) args) (\<lambda>(m, w).
             ok (st\<lparr>st_heap := m, st_workers := (st_workers st)[i := w]\<rparr>))
         | Searching thread_id pat entry queue n \<Rightarrow>
             if q_head queue = None then
               (if \<not> tc_writes code then ok (st\<lparr>st_workers := (st_workers st)[i := Finished]\<rparr>)
                else if length (st_results st) \<le> thread_id then err Null_Deref
                else ok (st\<lparr>st_results := (st_results st)[thread_id := Some n],
                            st_workers := (st_workers st)[i := Finished]\<rparr>))
             else
               rbind (tc_turn code pat entry (st_heap st) queue (st_shared st) n) (\<lambda>(m, queue1, shared1, n1).
               ok (st\<lparr>st_heap := m, st_shared := shared1,
                      st_workers := (st_workers st)[i := Searching thread_id pat entry queue1 n1]\<rparr>))
         | Finished \<Rightarrow> ok st))"

text \<open>
  The loop that moves elements from the queue of the main thread to the arguments of a worker:
  \<open>rounds\<close> turns are left, \<open>j\<close> elements have been moved for this worker.
\<close>

fun take_elements :: "nat \<Rightarrow> nat \<Rightarrow> int \<Rightarrow> int \<Rightarrow> qheap \<Rightarrow> queue \<Rightarrow> (qaddr option list \<times> int \<times> queue) res" where
  "take_elements 0 j num_el given m queue = ok ([], given, queue)"
| "take_elements (Suc rounds) j num_el given m queue =
     (if given < num_el then
        rbind (remove_element m queue) (\<lambda>(e, queue1).
        if MAX_ELEMENTS_Q \<le> j then err Out_Of_Bounds
        else
          rbind (take_elements rounds (Suc j) num_el (given + 1) m queue1) (\<lambda>(es, given', queue2).
          ok (e # es, given', queue2)))
      else ok ([], given, queue))"

text \<open>One turn of the loop that creates the workers.\<close>

definition create_worker :: "thread_code \<Rightarrow> string \<Rightarrow> (nat \<Rightarrow> bool) \<Rightarrow> int \<Rightarrow> int \<Rightarrow> pool_state \<Rightarrow> pool_state res" where
  "create_worker code pat pthread_create num_el items_per_thread st =
     (case qmalloc (st_heap st) of (m1, args) \<Rightarrow>
      case qmalloc m1 of (m2, str) \<Rightarrow>
      if args = None then err Null_Deref
      else if tc_early code \<and> str = None then err Null_Deref
      else if tc_early code \<and> tc_size code \<le> length pat then err Out_Of_Bounds
      else
        rbind (take_elements (nat items_per_thread) 0 num_el (st_given st) m2 (st_queue st)) (\<lambda>(es, given, queue).
        if str = None then err Null_Deref
        else if tc_size code \<le> length pat then err Out_Of_Bounds
        else if \<not> pthread_create (st_created st) then err (Exit_Call 0)
        else
          ok (st\<lparr>st_heap := m2, st_queue := queue, st_given := given, st_created := Suc (st_created st),
                 st_workers := (st_workers st)[st_created st :=
                   Created \<lparr>threadID = st_created st, elements = es, search_string = pat\<rparr>]\<rparr>)))"

datatype actor = Main | Worker nat

text \<open>The main thread waits in \<open>pthread_join\<close> once it has created the workers.\<close>

definition pool_step :: "thread_code \<Rightarrow> string \<Rightarrow> (nat \<Rightarrow> bool) \<Rightarrow> int \<Rightarrow> int \<Rightarrow> actor \<Rightarrow> pool_state \<Rightarrow> pool_state res" where
  "pool_step code pat pthread_create num_el items_per_thread x st =
     (case x of
        Main \<Rightarrow> if st_created st < length (st_workers st)
                then create_worker code pat pthread_create num_el items_per_thread st else ok st
      | Worker i \<Rightarrow> worker_step code i st)"

fun pool_run :: "thread_code \<Rightarrow> string \<Rightarrow> (nat \<Rightarrow> bool) \<Rightarrow> int \<Rightarrow> int \<Rightarrow> actor list \<Rightarrow> pool_state \<Rightarrow> pool_state res" where
  "pool_run code pat pc num_el items [] st = ok st"
| "pool_run code pat pc num_el items (x # xs) st =
     rbind (pool_step code pat pc num_el items x st) (\<lambda>st1. pool_run code pat pc num_el items xs st1)"

text \<open>The state in which the main thread begins to create \<open>n\<close> workers for a queue.\<close>

definition pool_init :: "qheap \<Rightarrow> queue \<Rightarrow> nat \<Rightarrow> int option list \<Rightarrow> queue option \<Rightarrow> pool_state" where
  "pool_init m queue n results shared =
     \<lparr>st_heap = m, st_queue = queue, st_given = 0, st_created = 0, st_workers = replicate n Not_Created,
      st_results = results, st_shared = shared\<rparr>"

definition all_finished :: "pool_state \<Rightarrow> bool" where
  "all_finished st \<longleftrightarrow> (\<forall>w\<in>set (st_workers st). w = Finished)"

text \<open>
  Creating the workers for a queue and waiting for them: the schedule goes up to the moment the main
  thread is looked at; when a worker has not finished then, the main thread still waits.
\<close>

definition run_workers :: "thread_code \<Rightarrow> string \<Rightarrow> (nat \<Rightarrow> bool) \<Rightarrow> actor list \<Rightarrow> int \<Rightarrow>
    qheap \<Rightarrow> queue \<Rightarrow> int option list \<Rightarrow> queue option \<Rightarrow> pool_state res" where
  "run_workers code pat pthread_create sched num_threads m queue results shared =
     rbind (num_elements m queue) (\<lambda>num_el.
     rbind (round_up (word_of_int num_el) (word_of_int num_threads)) (\<lambda>items.
     rbind (pool_run code pat pthread_create num_el (sint items) sched
         (pool_init m queue (nat num_threads) results shared)) (\<lambda>st.
     if all_finished st then ok st else None)))"

fun sum_results :: "int option list \<Rightarrow> int \<Rightarrow> int res" where
  "sum_results [] num_occurrences = ok num_occurrences"
| "sum_results (r # rs) num_occurrences =
     (case r of None \<Rightarrow> err Uninit_Read | Some k \<Rightarrow> rbind (c_add num_occurrences k) (\<lambda>n. sum_results rs n))"

text \<open>
  The queue the main thread distributes: the entries of the root, if that is a directory. The
  element of the root has been inserted before; it is taken out again.
\<close>

definition read_root :: "filesys \<Rightarrow> qaddr option \<Rightarrow> qheap \<Rightarrow> queue \<Rightarrow> (qheap \<times> queue) res" where
  "read_root fs entry m1 queue =
     rbind (remove_element m1 queue) (\<lambda>(element, queue1).
     rbind (qload m1 element) (\<lambda>e.
     (case fs_lstat fs (path_name e) of
        None \<Rightarrow> rbind (qfree m1 element) (\<lambda>_. err Uninit_Read)
      | Some t \<Rightarrow>
          if t = Directory then
            (case fs_opendir fs (path_name e) of
               None \<Rightarrow> err Null_Deref
             | Some (ds, bad) \<Rightarrow> read_entries entry (path_name e) ds m1 queue1)
          else ok (m1, queue1))))"

section \<open>The partition\<close>

lemma round_up_nat:
  assumes "divisor \<noteq> 0" "unat dividend + unat divisor \<le> 2 ^ 32"
  shows "\<exists>r. round_up dividend divisor = ok r \<and> unat r = (unat dividend + unat divisor - 1) div unat divisor"
proof -
  have d: "1 \<le> unat divisor" using assms(1) by (simp add: unat_gt_0 Suc_le_eq)
  have "unat (divisor - 1) = unat divisor - 1"
    using unat_minus_one [OF assms(1)] by simp
  moreover have "unat dividend + unat (divisor - 1) < 2 ^ LENGTH(32)"
    using calculation assms(2) d by simp
  ultimately have "unat (dividend + (divisor - 1)) = unat dividend + (unat divisor - 1)"
    using unat_add_lem [of dividend "divisor - 1"] by simp
  then have "unat ((dividend + (divisor - 1)) div divisor) = (unat dividend + unat divisor - 1) div unat divisor"
    using d by (simp only: unat_div) simp
  then show ?thesis using assms(1) by (simp add: round_up_def)
qed

text \<open>The number of elements a worker gets is enough to hand all of them out.\<close>

lemma ceiling_covers: "0 < d \<Longrightarrow> n \<le> d * ((n + d - 1) div d)" for n d :: nat
proof -
  assume d: "0 < d"
  obtain k r where kr: "d * ((n + d - 1) div d) = k" "(n + d - 1) mod d = r" by blast
  have "n + d - 1 = k + r" unfolding kr [symmetric] by (rule mult_div_mod_eq [symmetric])
  moreover have "r < d" unfolding kr(2) [symmetric] by (rule mod_less_divisor [OF d])
  ultimately show ?thesis unfolding kr(1) by arith
qed

lemma take_elements_rep:
  "qinv m q mw \<Longrightarrow> given + int (length mw) = num_el \<Longrightarrow> j + rounds \<le> MAX_ELEMENTS_Q \<Longrightarrow>
   \<exists>q'. take_elements rounds j num_el given m q =
       ok (map (\<lambda>x. Some (fst x)) (take rounds mw), given + int (min rounds (length mw)), q') \<and>
     qinv m q' (drop rounds mw)"
proof (induction rounds arbitrary: j given q mw)
  case (Suc rounds)
  show ?case
  proof (cases mw)
    case Nil
    with Suc.prems show ?thesis by simp
  next
    case (Cons x mw')
    obtain a s where x: "x = (a, s)" by fastforce
    from Suc.prems(1) Cons x obtain q1 where q1: "remove_element m q = ok (Some a, q1)" "qinv m q1 mw'"
      using remove_qrep [of m q a s mw'] by (auto simp: qinv_def)
    from Suc.IH [OF q1(2), of "given + 1" "Suc j"] Suc.prems Cons obtain q' where
      "take_elements rounds (Suc j) num_el (given + 1) m q1 =
         ok (map (\<lambda>x. Some (fst x)) (take rounds mw'), given + 1 + int (min rounds (length mw')), q')"
      "qinv m q' (drop rounds mw')" by auto
    with q1 Suc.prems Cons x show ?thesis by (auto simp: min_def)
  qed
qed simp

lemma insert_inputs_rep:
  assumes "qinv m q ps" "\<forall>x\<in>set w. path_at m (fst x) = Some (snd x) \<and> fst x < qbrk m"
    and "distinct (map fst (ps @ w))"
  shows "\<exists>m' q'. insert_inputs m q (map (\<lambda>x. Some (fst x)) w) = ok (m', q') \<and> qinv m' q' (ps @ w) \<and>
    grows (fst ` set (ps @ w)) m m' \<and> qavail m' = qavail m"
  using assms
proof (induction w arbitrary: m q ps)
  case Nil
  then show ?case by (simp add: grows_def)
next
  case (Cons x w)
  obtain a s where x: "x = (a, s)" by fastforce
  from Cons.prems x obtain e where e: "cells m a = Some e" "path_name e = s" by (auto simp: path_at_def)
  from insert_qrep [of m q ps a e] Cons.prems e x obtain m1 q1 where
    1: "insert_element m q (Some a) = ok (m1, q1)" "qrep m1 q1 (ps @ [(a, s)])" "path_at m1 = path_at m"
      "\<And>b. b \<noteq> a \<Longrightarrow> b \<notin> fst ` set ps \<Longrightarrow> cells m1 b = cells m b" "qbrk m1 = qbrk m" "qavail m1 = qavail m"
    by (auto simp: qinv_def)
  have inv: "qinv m1 q1 (ps @ [x])" using 1 Cons.prems x by (auto simp: qinv_def)
  have g: "grows (fst ` set (ps @ [x])) m m1" using 1(4,5) x by (auto simp: grows_def)
  from Cons.IH [OF inv] Cons.prems 1 obtain m' q' where
    2: "insert_inputs m1 q1 (map (\<lambda>x. Some (fst x)) w) = ok (m', q')" "qinv m' q' ((ps @ [x]) @ w)"
      "grows (fst ` set ((ps @ [x]) @ w)) m1 m'" "qavail m' = qavail m1" by auto
  have "grows (fst ` set (ps @ x # w)) m m'"
    using g 2(3) by (auto simp: grows_def)
  with 1 2 x show ?case by auto
qed

lemma items_per_thread:
  assumes "int n \<le> INT_MAX" "int T \<le> INT_MAX" "0 < T" "n \<le> T * 4096"
  shows "\<exists>r k. round_up (word_of_int (int n)) (word_of_int (int T)) = ok r \<and> sint r = int k \<and> k \<le> 4096 \<and> n \<le> T * k"
proof -
  have w: "unat (word_of_int (int v) :: 32 word) = v" if "int v \<le> INT_MAX" for v
  proof -
    have "v < 2 ^ 32" using that by (simp add: INT_MAX_def)
    then show ?thesis by (simp add: unat_of_nat take_bit_nat_eq_self)
  qed
  note u = w [OF assms(1)] w [OF assms(2)]
  have "(word_of_int (int T) :: 32 word) \<noteq> 0" using u(2) assms(3) by (metis not_gr_zero unat_0)
  from round_up_nat [OF this, of "word_of_int (int n)"] u assms(1,2) obtain r where
    r: "round_up (word_of_int (int n)) (word_of_int (int T)) = ok r" "unat r = (n + T - 1) div T"
    by (auto simp: INT_MAX_def)
  have "(n + T - 1) div T < Suc 4096"
    using assms(3,4) by (intro div_less_iff_less_mult [THEN iffD2]) auto
  then have k: "(n + T - 1) div T \<le> 4096" by simp
  have "sint r = int (unat r)"
  proof -
    have u: "uint r = int (unat r)" by simp
    have le: "unat r \<le> 4096" using r(2) k by simp
    have "signed_take_bit 31 (int v) = int v" if "v \<le> 4096" for v
      by (rule signed_take_bit_int_eq_self) (use that in simp_all)
    from this [OF le] show ?thesis unfolding sint_uint u by simp
  qed
  then have "sint r = int ((n + T - 1) div T)" unfolding r(2) .
  with r(1) k ceiling_covers [OF assms(3), of n] show ?thesis by blast
qed

section \<open>The elements to hand out\<close>

lemma read_root_rep:
  assumes "qinv m q [(a, p)]" "fs_lstat fs p \<noteq> None" "fs_lstat fs p = Some Directory \<longrightarrow> fs_opendir fs p \<noteq> None"
    and "paths_fit fs p" "length (children fs p) \<le> qavail m"
  shows "\<exists>m' q' mw. read_root fs (Some e) m q = ok (m', q') \<and> qinv m' q' mw \<and> map snd mw = children fs p \<and>
    qavail m' + length mw = qavail m"
proof -
  obtain q1 where q1: "remove_element m q = ok (Some a, q1)" "qrep m q1 []"
    using remove_qrep [of m q a p "[]"] assms(1) by (auto simp: qinv_def)
  obtain c where c: "qload m (Some a) = ok c" "path_name c = p"
    using qrep_path [of m q "[(a, p)]" a p] assms(1) by (auto simp: qinv_def path_at_def qload_def)
  have inv: "qinv m q1 []" using q1(2) by (simp add: qinv_def)
  show ?thesis
  proof (cases "fs_lstat fs p = Some Directory")
    case False
    have "read_root fs (Some e) m q = ok (m, q1)"
      unfolding read_root_def rbind_ok prod.case q1(1) c using assms(2) False by auto
    with inv False show ?thesis by (auto simp: children_def)
  next
    case True
    with assms(3) obtain ds bad where op: "fs_opendir fs p = Some (ds, bad)" by auto
    have ch: "children fs p = map (\<lambda>d. p @ ''/'' @ d) (proper_names ds)" using True op by (simp add: children_def)
    have fit: "\<forall>c\<in>set (children fs p). length c < MAX_LENGTH"
      using assms(4) paths_fit_length unfolding paths_fit_step [of fs p] by blast
    have run: "read_root fs (Some e) m q = read_entries (Some e) p ds m q1"
      unfolding read_root_def rbind_ok prod.case q1(1) c by (simp add: True op)
    from read_entries_rep [OF inv option.distinct(2), of e p ds] show ?thesis
    proof (elim disjE exE conjE)
      fix m' q' new
      assume "read_entries (Some e) p ds m q1 = ok (m', q')" "qinv m' q' ([] @ new)"
        "map snd new = map (\<lambda>d. p @ ''/'' @ d) (proper_names ds)" "qavail m' + length new = qavail m"
      with run ch show ?thesis by (intro exI [of _ m'] exI [of _ q'] exI [of _ new]) simp
    qed (use ch fit assms(5) in \<open>auto simp: not_le [symmetric]\<close>)
  qed
qed

text \<open>A root that cannot be examined, or opened, is an error.\<close>

definition root_error :: "filesys \<Rightarrow> string \<Rightarrow> c_error option" where
  "root_error fs p =
     (if fs_lstat fs p = None then Some Uninit_Read
      else if fs_lstat fs p = Some Directory \<and> fs_opendir fs p = None then Some Null_Deref else None)"

lemma read_root_fails:
  assumes "qinv m q [(a, p)]" "root_error fs p = Some e"
  shows "read_root fs entry m q = err e"
proof -
  obtain q1 where q1: "remove_element m q = ok (Some a, q1)"
    using remove_qrep [of m q a p "[]"] assms(1) by (auto simp: qinv_def)
  obtain c where c: "cells m a = Some c" "path_name c = p"
    using qrep_path [of m q "[(a, p)]" a p] assms(1) by (auto simp: qinv_def path_at_def)
  have l: "qload m (Some a) = ok c" using c by (simp add: qload_def)
  show ?thesis
    using assms(2) c by (auto simp: root_error_def read_root_def q1 l qfree_def split: if_splits)
qed

section \<open>Lists of workers\<close>

lemma qinv_frame: "qinv m q ps \<Longrightarrow> grows A m m' \<Longrightarrow> A \<inter> fst ` set ps = {} \<Longrightarrow> qinv m' q ps"
proof -
  assume q: "qinv m q ps" and g: "grows A m m'" and d: "A \<inter> fst ` set ps = {}"
  have same: "cells m' a = cells m a \<and> a < qbrk m'" if "a \<in> fst ` set ps" for a
  proof -
    have "a < qbrk m" using q that unfolding qinv_def by blast
    moreover have "a \<notin> A" using d that by blast
    ultimately show ?thesis using growsD [OF g] grows_brk [OF g] by simp
  qed
  have "qrep m' q ps" by (rule qrep_frame [of m]) (use q same in \<open>simp_all add: qinv_def\<close>)
  with same show ?thesis by (simp add: qinv_def)
qed

lemma sum_list_upd:
  "i < length xs \<Longrightarrow> sum_list (xs[i := v]) + xs ! i = sum_list xs + (v :: 'a :: comm_monoid_add)"
proof (induction xs arbitrary: i)
  case (Cons x xs)
  then show ?case by (cases i) (auto simp: ac_simps)
qed simp

lemma sum_list_replicate_empty [simp]: "sum_list (replicate n {#}) = {#}"
  by (induction n) simp_all

lemma map2_update: "length xs = length ys \<Longrightarrow> map2 f (xs[i := x]) (ys[i := y]) = (map2 f xs ys)[i := f x y]"
  by (simp add: zip_update map_update)

lemma sum_results_rep:
  "\<forall>r\<in>set rs. \<exists>k\<ge>0. r = Some k \<Longrightarrow> 0 \<le> n \<Longrightarrow> n + sum_list (map the rs) \<le> INT_MAX \<Longrightarrow>
   sum_results rs n = ok (n + sum_list (map the rs))"
proof (induction rs arbitrary: n)
  case (Cons r rs)
  from Cons.prems(1) obtain k where k: "r = Some k" "0 \<le> k" by auto
  have "0 \<le> sum_list (map the rs)"
    using Cons.prems(1) by (intro sum_list_nonneg) auto
  then have "int_ok (n + k)" using Cons.prems(2,3) k by (simp add: int_ok_def INT_MIN_def)
  with Cons k show ?case by simp
qed simp

lemma pool_run_append:
  "pool_run code pat pc n k (s1 @ s2) st = rbind (pool_run code pat pc n k s1 st) (pool_run code pat pc n k s2)"
  by (induction s1 arbitrary: st) (auto simp: rbind_assoc intro!: arg_cong [where f = "rbind _"] ext)

text \<open>
  A schedule that gives the main thread enough turns to create \<open>T\<close> workers, and then each worker
  enough turns for \<open>n\<close> elements, a start and an end.
\<close>

definition turns_given :: "nat \<Rightarrow> nat \<Rightarrow> actor list \<Rightarrow> bool" where
  "turns_given T n sched \<longleftrightarrow>
     (\<exists>s1 s2. sched = s1 @ s2 \<and> T \<le> count_list s1 Main \<and> (\<forall>i<T. n + 2 \<le> count_list s2 (Worker i)))"

lemma turns_given_mono: "turns_given T n sched \<Longrightarrow> k \<le> n \<Longrightarrow> turns_given T k sched"
  unfolding turns_given_def by (elim exE conjE, intro exI conjI, assumption+) force

section \<open>What a worker promises\<close>

text \<open>The shared queue, if there is one, holds these elements.\<close>

definition shared_rep :: "qheap \<Rightarrow> queue option \<Rightarrow> (qaddr \<times> string) list \<Rightarrow> bool" where
  "shared_rep m sq sh \<longleftrightarrow> (case sq of None \<Rightarrow> sh = [] | Some q \<Rightarrow> qinv m q sh)"

lemma shared_rep_below: "shared_rep m sq sh \<Longrightarrow> fst ` set sh \<subseteq> {..<qbrk m}"
  by (auto simp: shared_rep_def qinv_def split: option.split_asm)

lemma shared_rep_frame:
  "shared_rep m sq sh \<Longrightarrow> grows A m m' \<Longrightarrow> A \<inter> fst ` set sh = {} \<Longrightarrow> shared_rep m' sq sh"
  by (auto simp: shared_rep_def intro: qinv_frame split: option.split)

text \<open>What one turn on path \<open>p\<close> at address \<open>a\<close> achieves.\<close>

definition turn_post :: "qheap \<Rightarrow> qaddr \<Rightarrow> string list \<Rightarrow> string list \<Rightarrow> (qaddr \<times> string) list \<Rightarrow> (qaddr \<times> string) list \<Rightarrow>
    qheap \<Rightarrow> queue \<Rightarrow> queue option \<Rightarrow> (qaddr \<times> string) list \<Rightarrow> (qaddr \<times> string) list \<Rightarrow> bool" where
  "turn_post m a kids files ps sh m' q' sq' new newsh \<longleftrightarrow>
     qinv m' q' (ps @ new) \<and> shared_rep m' sq' (sh @ newsh) \<and> map snd new = kids \<and> map snd newsh = files \<and>
     fst ` set (new @ newsh) \<subseteq> {qbrk m..} \<and> fst ` set new \<inter> fst ` set newsh = {} \<and>
     grows (insert a (fst ` set ps \<union> fst ` set sh)) m m' \<and> qavail m' + length new + length newsh = qavail m"

text \<open>
  The contract of a worker's code. Taking a path from its queue, it queues \<open>kids\<close> of the path, adds
  \<open>files\<close> to the shared queue and \<open>cnt\<close> to its count, touches nothing of the other threads, and
  allocates just the elements it queues. \<open>weight\<close>, \<open>total\<close>, \<open>tfiles\<close> and \<open>mem\<close> sum turns, counts,
  files and allocations over everything that comes from a path; \<open>good\<close> says that its names fit.
\<close>

locale thread_pool =
  fixes code :: thread_code and pat :: string
    and kids :: "string \<Rightarrow> string list" and files :: "string \<Rightarrow> string list" and cnt :: "string \<Rightarrow> nat"
    and weight :: "string \<Rightarrow> nat" and total :: "string \<Rightarrow> nat" and tfiles :: "string \<Rightarrow> string multiset"
    and mem :: "string \<Rightarrow> nat" and good :: "string \<Rightarrow> bool" and start_need :: nat
    and entry_ok :: "qaddr option \<Rightarrow> bool" and shared_ok :: "queue option \<Rightarrow> bool"
  assumes start_law: "distinct (map fst w) \<Longrightarrow> \<forall>x\<in>set w. path_at m (fst x) = Some (snd x) \<and> fst x < qbrk m \<Longrightarrow>
      start_need \<le> qavail m \<Longrightarrow>
      \<exists>m' entry q. tc_start code m \<lparr>threadID = i, elements = map (\<lambda>x. Some (fst x)) w, search_string = pat\<rparr> =
          ok (m', Searching i pat entry q 0) \<and>
        entry_ok entry \<and> qinv m' q w \<and> grows (fst ` set w) m m' \<and> qavail m' + start_need = qavail m"
    and turn_law: "qinv m q ((a, p) # ps) \<Longrightarrow> shared_rep m sq sh \<Longrightarrow> shared_ok sq \<Longrightarrow>
      insert a (fst ` set ps) \<inter> fst ` set sh = {} \<Longrightarrow> entry_ok entry \<Longrightarrow> good p \<Longrightarrow> 0 \<le> n \<Longrightarrow>
      n + int (cnt p) \<le> INT_MAX \<Longrightarrow> length (kids p) + length (files p) \<le> qavail m \<Longrightarrow>
      \<exists>m' q' sq' new newsh. tc_turn code pat entry m q sq n = ok (m', q', sq', n + int (cnt p)) \<and> shared_ok sq' \<and>
        turn_post m a (kids p) (files p) ps sh m' q' sq' new newsh"
    and weight_law: "good p \<Longrightarrow> weight p = Suc (sum_list (map weight (kids p)))"
    and total_law: "good p \<Longrightarrow> total p = cnt p + sum_list (map total (kids p))"
    and tfiles_law: "good p \<Longrightarrow> tfiles p = mset (files p) + sum_list (map tfiles (kids p))"
    and mem_law: "good p \<Longrightarrow> mem p = length (kids p) + length (files p) + sum_list (map mem (kids p))"
    and good_law: "good p \<Longrightarrow> c \<in> set (kids p) \<Longrightarrow> good c"
    and writes_law: "tc_writes code \<or> cnt p = 0"
begin

text \<open>The elements worker \<open>i\<close> owns are \<open>w\<close>.\<close>

definition worker_ok :: "qheap \<Rightarrow> nat \<Rightarrow> worker \<Rightarrow> (qaddr \<times> string) list \<Rightarrow> bool" where
  "worker_ok m i t w \<longleftrightarrow>
     (case t of
        Not_Created \<Rightarrow> w = []
      | Created args \<Rightarrow>
          args = \<lparr>threadID = i, elements = map (\<lambda>x. Some (fst x)) w, search_string = pat\<rparr> \<and> distinct (map fst w) \<and>
          (\<forall>x\<in>set w. path_at m (fst x) = Some (snd x) \<and> fst x < qbrk m)
      | Searching thread_id p entry queue n \<Rightarrow>
          thread_id = i \<and> p = pat \<and> entry_ok entry \<and> 0 \<le> n \<and> (tc_writes code \<or> n = 0) \<and> qinv m queue w
      | Finished \<Rightarrow> w = [])"

lemma worker_ok_below: "worker_ok m i t w \<Longrightarrow> x \<in> set w \<Longrightarrow> fst x < qbrk m"
  by (cases t) (auto simp: worker_ok_def qinv_def)

lemma worker_ok_frame:
  assumes "worker_ok m i t w" "grows A m m'" "A \<inter> fst ` set w = {}"
  shows "worker_ok m' i t w"
proof -
  have "path_at m' (fst x) = path_at m (fst x) \<and> fst x < qbrk m'" if "x \<in> set w" for x
  proof -
    have lt: "fst x < qbrk m" using worker_ok_below [OF assms(1) that] .
    moreover have "fst x \<notin> A" using that assms(3) by blast
    ultimately show ?thesis using growsD [OF assms(2)] grows_brk [OF assms(2)] by (simp add: path_at_def)
  qed
  with assms show ?thesis by (cases t) (auto simp: worker_ok_def intro: qinv_frame)
qed

definition wcount :: "worker \<Rightarrow> int option \<Rightarrow> int" where
  "wcount t r = (case t of Searching _ _ _ _ n \<Rightarrow> n | Finished \<Rightarrow> (case r of Some k \<Rightarrow> k | None \<Rightarrow> 0) | _ \<Rightarrow> 0)"

text \<open>The allocations a worker and its elements still need, and the steps it still takes.\<close>

definition need :: "worker \<Rightarrow> (qaddr \<times> string) list \<Rightarrow> nat" where
  "need t w = todo mem w + (case t of Not_Created \<Rightarrow> start_need + 2 | Created _ \<Rightarrow> start_need | _ \<Rightarrow> 0)"

definition remaining :: "worker \<Rightarrow> (qaddr \<times> string) list \<Rightarrow> nat" where
  "remaining t w =
     (case t of Created _ \<Rightarrow> 2 + todo weight w | Searching _ _ _ _ _ \<Rightarrow> 1 + todo weight w | _ \<Rightarrow> 0)"

text \<open>A worker that writes its result has written it when it has finished; the others write nothing.\<close>

definition result_ok :: "worker \<Rightarrow> int option \<Rightarrow> bool" where
  "result_ok t r \<longleftrightarrow> (case r of None \<Rightarrow> tc_writes code \<longrightarrow> t \<noteq> Finished | Some k \<Rightarrow> tc_writes code \<and> 0 \<le> k)"

definition shape :: "nat \<Rightarrow> pool_state \<Rightarrow> (qaddr \<times> string) list \<Rightarrow> (qaddr \<times> string) list list \<Rightarrow> (qaddr \<times> string) list \<Rightarrow> bool" where
  "shape T st mw ws sh \<longleftrightarrow>
     length (st_workers st) = T \<and> length (st_results st) = T \<and> length ws = T \<and>
     qinv (st_heap st) (st_queue st) mw \<and> shared_rep (st_heap st) (st_shared st) sh \<and> shared_ok (st_shared st) \<and>
     (\<forall>i<T. worker_ok (st_heap st) i (st_workers st ! i) (ws ! i)) \<and>
     fst ` set mw \<inter> fst ` set sh = {} \<and>
     (\<forall>i<T. fst ` set mw \<inter> fst ` set (ws ! i) = {}) \<and>
     (\<forall>i<T. fst ` set sh \<inter> fst ` set (ws ! i) = {}) \<and>
     (\<forall>i<T. \<forall>j<T. i \<noteq> j \<longrightarrow> fst ` set (ws ! i) \<inter> fst ` set (ws ! j) = {}) \<and>
     st_created st \<le> T \<and> (\<forall>i<T. st_workers st ! i = Not_Created \<longleftrightarrow> st_created st \<le> i) \<and>
     (\<forall>i<T. result_ok (st_workers st ! i) (st_results st ! i)) \<and>
     (\<forall>x\<in>set mw. good (snd x)) \<and> (\<forall>i<T. \<forall>x\<in>set (ws ! i). good (snd x))"

text \<open>
  The sums the steps keep: the count, the files, the memory still needed beside a reserve \<open>R\<close>, and
  the turns still to come, at most \<open>N\<close>.
\<close>

definition sums :: "int \<Rightarrow> string multiset \<Rightarrow> nat \<Rightarrow> nat \<Rightarrow> pool_state \<Rightarrow> (qaddr \<times> string) list \<Rightarrow> (qaddr \<times> string) list list \<Rightarrow>
    (qaddr \<times> string) list \<Rightarrow> bool" where
  "sums tot F N R st mw ws sh \<longleftrightarrow>
     sum_list (map2 wcount (st_workers st) (st_results st)) + int (todo total mw) +
       int (sum_list (map (todo total) ws)) = tot \<and>
     mset (map snd sh) + (todo tfiles mw + sum_list (map (todo tfiles) ws)) = F \<and>
     todo mem mw + sum_list (map2 need (st_workers st) ws) + R \<le> qavail (st_heap st) \<and>
     todo weight mw + sum_list (map (todo weight) ws) \<le> N"

text \<open>A step of worker \<open>i\<close> keeps the invariant when it behaves like this on its own part.\<close>

lemma worker_update:
  assumes "shape T st mw ws sh" "sums tot F N R st mw ws sh" "i < T"
    and "grows (fst ` set (ws ! i) \<union> fst ` set sh) (st_heap st) m'" "worker_ok m' i t' w'"
    and "shared_rep m' sq' sh'" "shared_ok sq'"
    and "fst ` set w' \<subseteq> fst ` set (ws ! i) \<union> {qbrk (st_heap st)..}"
    and "fst ` set sh' \<subseteq> fst ` set sh \<union> {qbrk (st_heap st)..}" "fst ` set sh' \<inter> fst ` set w' = {}"
    and "t' \<noteq> Not_Created" "st_workers st ! i \<noteq> Not_Created"
    and "wcount t' r' + int (todo total w') =
      wcount (st_workers st ! i) (st_results st ! i) + int (todo total (ws ! i))"
    and "mset (map snd sh') + todo tfiles w' = mset (map snd sh) + todo tfiles (ws ! i)"
    and "qavail (st_heap st) + need t' w' \<le> qavail m' + need (st_workers st ! i) (ws ! i)"
    and "todo weight w' \<le> todo weight (ws ! i)"
    and "result_ok t' r'"
    and "\<forall>x\<in>set w'. good (snd x)"
  defines "st' \<equiv> st\<lparr>st_heap := m', st_shared := sq', st_workers := (st_workers st)[i := t'],
      st_results := (st_results st)[i := r']\<rparr>"
  shows "shape T st' mw (ws[i := w']) sh'" "sums tot F N R st' mw (ws[i := w']) sh'"
proof -
  note shape = assms(1) [unfolded shape_def]
  let ?m = "st_heap st"
  have len: "length (st_workers st) = T" "length (st_results st) = T" "length ws = T" using shape by simp_all
  have old: "worker_ok ?m j (st_workers st ! j) (ws ! j)" if "j < T" for j
    using shape that by simp
  have below: "fst ` set (ws ! j) \<subseteq> {..<qbrk ?m}" if "j < T" for j
    using worker_ok_below [OF old [OF that]] by auto
  have mbelow: "fst ` set mw \<subseteq> {..<qbrk ?m}" using shape by (auto simp: qinv_def)
  have new: "{qbrk ?m..} \<inter> {..<qbrk ?m} = {}" by auto
  have wdisj: "fst ` set (ws ! k) \<inter> fst ` set (ws ! j) = {}" if "k < T" "j < T" "k \<noteq> j" for k j
    using shape that by simp
  have mwdisj: "fst ` set mw \<inter> fst ` set (ws ! j) = {}" if "j < T" for j
    using shape that by simp
  have shdisj: "fst ` set sh \<inter> fst ` set (ws ! j) = {}" if "j < T" for j
    using shape that by simp
  have mshdisj: "fst ` set mw \<inter> fst ` set sh = {}" using shape by simp
  have disj: "fst ` set w' \<inter> fst ` set (ws ! j) = {}" if "j < T" "j \<noteq> i" for j
    using assms(8) below [OF that(1)] new wdisj [OF assms(3) that(1)] that(2) by blast
  have mdisj: "fst ` set mw \<inter> fst ` set w' = {}"
    using assms(8) mbelow new mwdisj [OF assms(3)] by blast
  have msdisj: "fst ` set mw \<inter> fst ` set sh' = {}"
    using assms(9) mbelow new mshdisj by blast
  have sdisj: "fst ` set sh' \<inter> fst ` set (ws ! j) = {}" if "j < T" for j
    using assms(9) below [OF that] new shdisj [OF that] by blast
  have other: "worker_ok m' j (st_workers st ! j) (ws ! j)" if "j < T" "j \<noteq> i" for j
    by (rule worker_ok_frame [OF old [OF that(1)] assms(4)])
      (use wdisj [OF assms(3) that(1)] that(2) shdisj [OF that(1)] in blast)
  have main: "qinv m' (st_queue st) mw"
  proof (rule qinv_frame [OF _ assms(4)])
    show "qinv ?m (st_queue st) mw" using shape by simp
    show "(fst ` set (ws ! i) \<union> fst ` set sh) \<inter> fst ` set mw = {}" using mwdisj [OF assms(3)] mshdisj by blast
  qed
  have ok': "worker_ok m' j ((st_workers st)[i := t'] ! j) (ws[i := w'] ! j)" if "j < T" for j
    using other [OF that] assms(5) that len by (cases "j = i") simp_all
  have mdisj': "fst ` set mw \<inter> fst ` set (ws[i := w'] ! j) = {}" if "j < T" for j
    using mdisj mwdisj [OF that] that len by (cases "j = i") simp_all
  have sdisj': "fst ` set sh' \<inter> fst ` set (ws[i := w'] ! j) = {}" if "j < T" for j
    using assms(10) sdisj [OF that] that len by (cases "j = i") simp_all
  have disj': "fst ` set (ws[i := w'] ! k) \<inter> fst ` set (ws[i := w'] ! j) = {}" if "k < T" "j < T" "k \<noteq> j" for k j
    using disj [OF that(1)] disj [OF that(2)] wdisj [OF that] that len
    by (cases "k = i"; cases "j = i") (simp_all add: Int_commute)
  have created: "(st_workers st)[i := t'] ! j = Not_Created \<longleftrightarrow> st_created st \<le> j" if "j < T" for j
    using shape assms(11,12) that len by (cases "j = i") auto
  have results: "result_ok ((st_workers st)[i := t'] ! j) ((st_results st)[i := r'] ! j)" if "j < T" for j
    using shape assms(17) that len by (cases "j = i") simp_all
  have fit: "\<forall>x\<in>set (ws[i := w'] ! j). good (snd x)" if "j < T" for j
    using shape assms(18) that len by (cases "j = i") simp_all
  show "shape T st' mw (ws[i := w']) sh'"
    unfolding shape_def st'_def
    using shape main assms(6,7) ok' mdisj' sdisj' msdisj disj' created results fit by simp
  have i: "i < length (map2 wcount (st_workers st) (st_results st))" "i < length (map2 need (st_workers st) ws)"
    "i < length (map (todo total) ws)" "i < length (map (todo tfiles) ws)" "i < length (map (todo weight) ws)"
    using len assms(3) by simp_all
  note upd = sum_list_upd [OF i(1), of "wcount t' r'"] sum_list_upd [OF i(2), of "need t' w'"]
    sum_list_upd [OF i(3), of "todo total w'"] sum_list_upd [OF i(4), of "todo tfiles w'"]
    sum_list_upd [OF i(5), of "todo weight w'"]
  have nth: "map2 wcount (st_workers st) (st_results st) ! i = wcount (st_workers st ! i) (st_results st ! i)"
    "map2 need (st_workers st) ws ! i = need (st_workers st ! i) (ws ! i)"
    "map (todo total) ws ! i = todo total (ws ! i)" "map (todo tfiles) ws ! i = todo tfiles (ws ! i)"
    "map (todo weight) ws ! i = todo weight (ws ! i)"
    using len assms(3) by simp_all
  have lists: "map2 wcount (st_workers st') (st_results st') = (map2 wcount (st_workers st) (st_results st))[i := wcount t' r']"
    "map2 need (st_workers st') (ws[i := w']) = (map2 need (st_workers st) ws)[i := need t' w']"
    "map (todo total) (ws[i := w']) = (map (todo total) ws)[i := todo total w']"
    "map (todo tfiles) (ws[i := w']) = (map (todo tfiles) ws)[i := todo tfiles w']"
    "map (todo weight) (ws[i := w']) = (map (todo weight) ws)[i := todo weight w']"
    using len by (simp_all add: st'_def map2_update map_update)
  note old_sums = assms(2) [unfolded sums_def]
  have c: "sum_list (map2 wcount (st_workers st') (st_results st')) + int (todo total mw) +
      int (sum_list (map (todo total) (ws[i := w']))) = tot"
    unfolding lists using old_sums assms(13) upd(1,3) [unfolded nth] by linarith
  have f: "mset (map snd sh') + (todo tfiles mw + sum_list (map (todo tfiles) (ws[i := w']))) = F"
  proof -
    let ?S = "sum_list (map (todo tfiles) ws)" and ?S' = "sum_list ((map (todo tfiles) ws)[i := todo tfiles w'])"
    have 1: "?S' + todo tfiles (ws ! i) = ?S + todo tfiles w'" using upd(4) [unfolded nth] .
    have "(mset (map snd sh') + (todo tfiles mw + ?S')) + todo tfiles (ws ! i) =
        mset (map snd sh') + todo tfiles mw + (?S' + todo tfiles (ws ! i))" by (simp only: add.assoc)
    also have "\<dots> = todo tfiles mw + ?S + (mset (map snd sh') + todo tfiles w')"
      unfolding 1 by (simp only: ac_simps)
    also have "\<dots> = (mset (map snd sh) + (todo tfiles mw + ?S)) + todo tfiles (ws ! i)"
      unfolding assms(14) by (simp only: ac_simps)
    also have "\<dots> = F + todo tfiles (ws ! i)" using old_sums by simp
    finally show ?thesis unfolding lists by simp
  qed
  have m: "todo mem mw + sum_list (map2 need (st_workers st') (ws[i := w'])) + R \<le> qavail m'"
    unfolding lists using old_sums assms(15) upd(2) [unfolded nth] by linarith
  have n: "todo weight mw + sum_list (map (todo weight) (ws[i := w'])) \<le> N"
    unfolding lists using old_sums assms(16) upd(5) [unfolded nth] by linarith
  show "sums tot F N R st' mw (ws[i := w']) sh'"
    unfolding sums_def using c f m n by (simp add: st'_def)
qed

lemma sums_worker:
  assumes "shape T st mw ws sh" "sums tot F N R st mw ws sh" "i < T"
  shows "need (st_workers st ! i) (ws ! i) \<le> qavail (st_heap st)"
    and "wcount (st_workers st ! i) (st_results st ! i) + int (todo total (ws ! i)) \<le> tot"
    and "todo weight (ws ! i) \<le> N"
proof -
  have len: "length (st_workers st) = T" "length (st_results st) = T" "length ws = T"
    using assms(1) by (simp_all add: shape_def)
  have nonneg: "0 \<le> wcount (st_workers st ! j) (st_results st ! j)" if "j < T" for j
  proof -
    have "worker_ok (st_heap st) j (st_workers st ! j) (ws ! j)" "result_ok (st_workers st ! j) (st_results st ! j)"
      using assms(1) that by (simp_all add: shape_def)
    then show ?thesis
      by (cases "st_workers st ! j"; cases "st_results st ! j") (auto simp: wcount_def worker_ok_def result_ok_def)
  qed
  have "map2 need (st_workers st) ws ! i \<le> sum_list (map2 need (st_workers st) ws)"
    "map (todo total) ws ! i \<le> sum_list (map (todo total) ws)"
    "map (todo weight) ws ! i \<le> sum_list (map (todo weight) ws)"
    by (rule elem_le_sum_list; simp add: len assms(3))+
  moreover have "0 \<le> sum_list ((map2 wcount (st_workers st) (st_results st))[i := 0])"
  proof (rule sum_list_nonneg)
    fix v assume "v \<in> set ((map2 wcount (st_workers st) (st_results st))[i := 0])"
    then obtain k where k: "k < T" "v = (map2 wcount (st_workers st) (st_results st))[i := 0] ! k"
      using len by (auto simp: in_set_conv_nth)
    with nonneg [OF k(1)] len show "0 \<le> v" by (cases "k = i") simp_all
  qed
  moreover have "sum_list ((map2 wcount (st_workers st) (st_results st))[i := 0]) +
      map2 wcount (st_workers st) (st_results st) ! i = sum_list (map2 wcount (st_workers st) (st_results st)) + 0"
    by (rule sum_list_upd) (simp add: len assms(3))
  ultimately show "need (st_workers st ! i) (ws ! i) \<le> qavail (st_heap st)"
    "wcount (st_workers st ! i) (st_results st ! i) + int (todo total (ws ! i)) \<le> tot"
    "todo weight (ws ! i) \<le> N"
    using assms(2,3) len by (simp_all add: sums_def)
qed

text \<open>What a step of worker \<open>i\<close> does: the invariant stays, and the worker comes closer to its end.\<close>

definition worker_progress :: "nat \<Rightarrow> nat \<Rightarrow> pool_state \<Rightarrow> (qaddr \<times> string) list list \<Rightarrow>
    pool_state \<Rightarrow> (qaddr \<times> string) list list \<Rightarrow> bool" where
  "worker_progress T i st ws st' ws' \<longleftrightarrow>
     st_created st' = st_created st \<and> st_given st' = st_given st \<and>
     (\<forall>j<T. remaining (st_workers st' ! j) (ws' ! j) \<le>
        remaining (st_workers st ! j) (ws ! j) - (if j = i then 1 else 0))"

lemma todo_kids:
  assumes "good p" "map snd new = kids p" "map snd newsh = files p"
  shows "todo total new + cnt p = total p" "todo tfiles new + mset (map snd newsh) = tfiles p"
    "todo mem new + length new + length newsh = mem p" "weight p = Suc (todo weight new)"
proof -
  have l: "length (kids p) = length new" "length (files p) = length newsh"
    using assms(2,3) by (metis length_map)+
  note t = todo_paths [OF assms(2)]
  show "todo total new + cnt p = total p" using total_law [OF assms(1)] by (simp add: t)
  show "todo tfiles new + mset (map snd newsh) = tfiles p"
    using tfiles_law [OF assms(1)] assms(3) by (simp add: t add.commute del: mset_map)
  show "todo mem new + length new + length newsh = mem p" using mem_law [OF assms(1)] l by (simp add: t)
  show "weight p = Suc (todo weight new)" using weight_law [OF assms(1)] by (simp add: t)
qed

lemma cnt_le: "good p \<Longrightarrow> cnt p \<le> total p"
  using total_law [of p] by simp

lemma mem_le: "good p \<Longrightarrow> length (kids p) + length (files p) \<le> mem p"
  using mem_law [of p] by simp

lemma step_same:
  assumes "shape T st mw ws sh" "sums tot F N R st mw ws sh"
    and "worker_step code i st = ok st" "i < T \<longrightarrow> remaining (st_workers st ! i) (ws ! i) = 0"
  shows "\<exists>st' ws' sh'. worker_step code i st = ok st' \<and> shape T st' mw ws' sh' \<and>
    sums tot F N R st' mw ws' sh' \<and> worker_progress T i st ws st' ws'"
  using assms by (auto simp: worker_progress_def)

lemma step_started:
  assumes "shape T st mw ws sh" "sums tot F N R st mw ws sh" "i < T" "st_workers st ! i = Created args"
  shows "\<exists>st' ws' sh'. worker_step code i st = ok st' \<and> shape T st' mw ws' sh' \<and>
    sums tot F N R st' mw ws' sh' \<and> worker_progress T i st ws st' ws'"
proof -
  note shape = assms(1) [unfolded shape_def]
  have len: "length (st_workers st) = T" "length (st_results st) = T" "length ws = T" using shape by simp_all
  have "worker_ok (st_heap st) i (st_workers st ! i) (ws ! i)" using shape assms(3) by simp
  then have w: "args = \<lparr>threadID = i, elements = map (\<lambda>x. Some (fst x)) (ws ! i), search_string = pat\<rparr>"
    "distinct (map fst (ws ! i))" "\<forall>x\<in>set (ws ! i). path_at (st_heap st) (fst x) = Some (snd x) \<and> fst x < qbrk (st_heap st)"
    by (simp_all add: assms(4) worker_ok_def)
  have fit: "\<forall>x\<in>set (ws ! i). good (snd x)" using shape assms(3) by simp
  have sh: "shared_rep (st_heap st) (st_shared st) sh" "shared_ok (st_shared st)"
    "fst ` set sh \<inter> fst ` set (ws ! i) = {}" using shape assms(3) by simp_all
  have "start_need \<le> qavail (st_heap st)"
    using sums_worker(1) [OF assms(1-3)] by (simp add: assms(4) need_def)
  from start_law [OF w(2,3) this] obtain m' entry q where
    t: "tc_start code (st_heap st) args = ok (m', Searching i pat entry q 0)" "entry_ok entry" "qinv m' q (ws ! i)"
      "grows (fst ` set (ws ! i)) (st_heap st) m'" "qavail m' + start_need = qavail (st_heap st)"
    unfolding w(1) by blast
  let ?st = "st\<lparr>st_heap := m', st_shared := st_shared st, st_workers := (st_workers st)[i := Searching i pat entry q 0],
    st_results := (st_results st)[i := st_results st ! i]\<rparr>"
  have run: "worker_step code i st = ok ?st" using len assms(3,4) t(1) by (simp add: worker_step_def)
  have g: "grows (fst ` set (ws ! i) \<union> fst ` set sh) (st_heap st) m'" using t(4) by (simp add: grows_def)
  have s': "shared_rep m' (st_shared st) sh"
    by (rule shared_rep_frame [OF sh(1) t(4)]) (use sh(3) in \<open>simp add: Int_commute\<close>)
  have wok: "worker_ok m' i (Searching i pat entry q 0) (ws ! i)" using t(2,3) by (simp add: worker_ok_def)
  have r: "result_ok (Searching i pat entry q 0) (st_results st ! i)"
  proof -
    have "result_ok (st_workers st ! i) (st_results st ! i)" using shape assms(3) by simp
    then show ?thesis by (simp add: result_ok_def assms(4) split: option.splits)
  qed
  note upd = worker_update [OF assms(1-3) g wok s' sh(2)]
  have "shape T ?st mw (ws[i := ws ! i]) sh" "sums tot F N R ?st mw (ws[i := ws ! i]) sh"
    by (rule upd; use t(5) fit sh(3) r assms(4) in \<open>simp add: wcount_def need_def\<close>)+
  moreover have "worker_progress T i st ws ?st (ws[i := ws ! i])"
    using assms(3,4) len by (simp add: worker_progress_def remaining_def nth_list_update)
  ultimately show ?thesis using run by blast
qed

lemma step_finished:
  assumes "shape T st mw ws sh" "sums tot F N R st mw ws sh" "i < T" "st_workers st ! i = Searching thread_id p entry q n"
    and "ws ! i = []"
  shows "\<exists>st' ws' sh'. worker_step code i st = ok st' \<and> shape T st' mw ws' sh' \<and>
    sums tot F N R st' mw ws' sh' \<and> worker_progress T i st ws st' ws'"
proof -
  note shape = assms(1) [unfolded shape_def]
  have len: "length (st_workers st) = T" "length (st_results st) = T" "length ws = T" using shape by simp_all
  have "worker_ok (st_heap st) i (st_workers st ! i) (ws ! i)" using shape assms(3) by simp
  then have s: "thread_id = i" "0 \<le> n" "tc_writes code \<or> n = 0" "qinv (st_heap st) q []"
    unfolding assms(4,5) by (simp_all add: worker_ok_def)
  have head: "q_head q = None" using s(4) qrep_head by (simp add: qinv_def)
  have r0: "result_ok (st_workers st ! i) (st_results st ! i)" using shape assms(3) by simp
  define r where "r = (if tc_writes code then Some n else st_results st ! i)"
  let ?st = "st\<lparr>st_heap := st_heap st, st_shared := st_shared st, st_workers := (st_workers st)[i := Finished],
    st_results := (st_results st)[i := r]\<rparr>"
  have run: "worker_step code i st = ok ?st"
    using len assms(3,4) s(1) head by (simp add: worker_step_def r_def)
  have sh: "shared_rep (st_heap st) (st_shared st) sh" "shared_ok (st_shared st)" using shape by simp_all
  have g: "grows (fst ` set (ws ! i) \<union> fst ` set sh) (st_heap st) (st_heap st)" by (simp add: grows_def)
  have wok: "worker_ok (st_heap st) i Finished []" by (simp add: worker_ok_def)
  have r: "result_ok Finished r" using r0 s(2) by (auto simp: r_def result_ok_def split: option.splits)
  have c: "wcount Finished r = n"
    using s(3) r0 by (auto simp: r_def wcount_def result_ok_def split: option.split_asm)
  note upd = worker_update [OF assms(1-3) g wok sh]
  have "shape T ?st mw (ws[i := []]) sh" "sums tot F N R ?st mw (ws[i := []]) sh"
    by (rule upd; use r assms(4,5) c s(3) in \<open>simp add: wcount_def need_def\<close>)+
  moreover have "worker_progress T i st ws ?st (ws[i := []])"
    using assms(3,4) len by (simp add: worker_progress_def remaining_def nth_list_update)
  ultimately show ?thesis using run by blast
qed

lemma step_turn:
  assumes "shape T st mw ws sh" "sums tot F N R st mw ws sh" "i < T" "st_workers st ! i = Searching thread_id pt entry q n"
    and "ws ! i = (a, p) # w" "tot \<le> INT_MAX"
  shows "\<exists>st' ws' sh'. worker_step code i st = ok st' \<and> shape T st' mw ws' sh' \<and>
    sums tot F N R st' mw ws' sh' \<and> worker_progress T i st ws st' ws'"
proof -
  note shape = assms(1) [unfolded shape_def]
  have len: "length (st_workers st) = T" "length (st_results st) = T" "length ws = T" using shape by simp_all
  have "worker_ok (st_heap st) i (st_workers st ! i) (ws ! i)" using shape assms(3) by simp
  then have s: "thread_id = i" "pt = pat" "entry_ok entry" "0 \<le> n" "tc_writes code \<or> n = 0"
    "qinv (st_heap st) q ((a, p) # w)" unfolding assms(4,5) by (simp_all add: worker_ok_def)
  have head: "q_head q \<noteq> None" using s(6) qrep_head [of "st_heap st" q "(a, p) # w"] by (simp add: qinv_def)
  have r0: "result_ok (st_workers st ! i) (st_results st ! i)" using shape assms(3) by simp
  have fit: "\<forall>x\<in>set (ws ! i). good (snd x)" using shape assms(3) by simp
  then have gp: "good p" by (simp add: assms(5))
  have sh: "shared_rep (st_heap st) (st_shared st) sh" "shared_ok (st_shared st)" using shape by simp_all
  have shd: "fst ` set sh \<inter> fst ` set (ws ! i) = {}" using shape assms(3) by simp
  then have dsh: "insert a (fst ` set w) \<inter> fst ` set sh = {}" by (auto simp: assms(5))
  note sw = sums_worker [OF assms(1-3), unfolded assms(4,5)]
  have nmax: "n + int (cnt p) \<le> INT_MAX" using sw(2) assms(6) cnt_le [OF gp] by (simp add: wcount_def)
  have mem: "length (kids p) + length (files p) \<le> qavail (st_heap st)"
    using sw(1) mem_le [OF gp] by (simp add: need_def)
  from turn_law [OF s(6) sh dsh s(3) gp s(4) nmax mem] obtain m' q' sq' new newsh where
    t: "tc_turn code pat entry (st_heap st) q (st_shared st) n = ok (m', q', sq', n + int (cnt p))" "shared_ok sq'"
      "turn_post (st_heap st) a (kids p) (files p) w sh m' q' sq' new newsh" by blast
  from t(3) have post: "qinv m' q' (w @ new)" "shared_rep m' sq' (sh @ newsh)" "map snd new = kids p"
    "map snd newsh = files p" "fst ` set new \<subseteq> {qbrk (st_heap st)..}" "fst ` set newsh \<subseteq> {qbrk (st_heap st)..}"
    "fst ` set new \<inter> fst ` set newsh = {}" "grows (insert a (fst ` set w \<union> fst ` set sh)) (st_heap st) m'"
    "qavail m' + length new + length newsh = qavail (st_heap st)"
    by (simp_all add: turn_post_def image_Un)
  note tk = todo_kids [OF gp post(3,4)]
  let ?t = "Searching i pat entry q' (n + int (cnt p))"
  let ?st = "st\<lparr>st_heap := m', st_shared := sq', st_workers := (st_workers st)[i := ?t],
    st_results := (st_results st)[i := st_results st ! i]\<rparr>"
  have run: "worker_step code i st = ok ?st"
    using len assms(3,4) s(1,2) t(1) by (simp add: worker_step_def head)
  have below: "fst ` set (ws ! i) \<union> fst ` set sh \<subseteq> {..<qbrk (st_heap st)}"
    using s(6) shared_rep_below [OF sh(1)] by (auto simp: assms(5) qinv_def)
  have g: "grows (fst ` set (ws ! i) \<union> fst ` set sh) (st_heap st) m'" using post(8) by (simp add: assms(5))
  have wok: "worker_ok m' i ?t (w @ new)"
    using s(3,4,5) post(1) writes_law [of p] by (auto simp: worker_ok_def)
  have sub: "fst ` set (w @ new) \<subseteq> fst ` set (ws ! i) \<union> {qbrk (st_heap st)..}"
    "fst ` set (sh @ newsh) \<subseteq> fst ` set sh \<union> {qbrk (st_heap st)..}"
    using post(5,6) by (auto simp: assms(5))
  have disj: "fst ` set (sh @ newsh) \<inter> fst ` set (w @ new) = {}"
  proof -
    have up: "X \<inter> Y = {}" if "X \<subseteq> {..<qbrk (st_heap st)}" "Y \<subseteq> {qbrk (st_heap st)..}" for X Y
      using that by force
    have "fst ` set sh \<inter> fst ` set w = {}" using shd by (auto simp: assms(5))
    moreover have "fst ` set sh \<inter> fst ` set new = {}" by (rule up [OF _ post(5)]) (use below in simp)
    moreover have "fst ` set w \<inter> fst ` set newsh = {}" by (rule up [OF _ post(6)]) (use below in \<open>simp add: assms(5)\<close>)
    ultimately show ?thesis
      using post(7) by (simp only: set_append image_Un Int_Un_distrib Int_Un_distrib2 Un_empty Int_commute)
  qed
  have fit': "\<forall>x\<in>set (w @ new). good (snd x)"
  proof -
    have "set (kids p) = snd ` set new" by (metis post(3) set_map)
    then have "\<forall>x\<in>set new. good (snd x)" using good_law [OF gp] by simp
    moreover have "\<forall>x\<in>set w. good (snd x)" using fit by (simp add: assms(5))
    ultimately show ?thesis by (simp add: ball_Un)
  qed
  have res: "result_ok ?t (st_results st ! i)" using r0 by (simp add: result_ok_def split: option.splits)
  have cnt: "wcount ?t (st_results st ! i) + int (todo total (w @ new)) =
      wcount (st_workers st ! i) (st_results st ! i) + int (todo total (ws ! i))"
    using tk(1) by (simp add: wcount_def assms(4,5) flip: of_nat_add)
  have fil: "mset (map snd (sh @ newsh)) + todo tfiles (w @ new) = mset (map snd sh) + todo tfiles (ws ! i)"
    unfolding assms(5) todo_simps snd_conv tk(2) [symmetric] map_append mset_append by (simp only: ac_simps)
  have ned: "qavail (st_heap st) + need ?t (w @ new) \<le> qavail m' + need (st_workers st ! i) (ws ! i)"
    using tk(3) post(9) by (simp add: need_def assms(4,5))
  have wei: "todo weight (w @ new) \<le> todo weight (ws ! i)" using tk(4) by (simp add: assms(5))
  note upd = worker_update [OF assms(1-3) g wok post(2) t(2) sub disj _ _ cnt fil ned wei res fit']
  have "shape T ?st mw (ws[i := w @ new]) (sh @ newsh)" "sums tot F N R ?st mw (ws[i := w @ new]) (sh @ newsh)"
    by (rule upd; simp add: assms(4))+
  moreover have "worker_progress T i st ws ?st (ws[i := w @ new])"
    using assms(3,4,5) len tk(4) by (simp add: worker_progress_def remaining_def nth_list_update)
  ultimately show ?thesis using run by blast
qed

lemma worker_step_rep:
  assumes "shape T st mw ws sh" "sums tot F N R st mw ws sh" "tot \<le> INT_MAX"
  shows "\<exists>st' ws' sh'. worker_step code i st = ok st' \<and> shape T st' mw ws' sh' \<and>
    sums tot F N R st' mw ws' sh' \<and> worker_progress T i st ws st' ws'"
proof (cases "i < T")
  case False
  with assms(1) show ?thesis by (intro step_same [OF assms(1,2)]) (simp_all add: worker_step_def shape_def)
next
  case True
  have len: "length (st_workers st) = T" using assms(1) by (simp add: shape_def)
  show ?thesis
  proof (cases "st_workers st ! i")
    case (Searching thread_id p entry q n)
    show ?thesis
    proof (cases "ws ! i")
      case Nil
      show ?thesis by (rule step_finished [OF assms(1,2) True Searching Nil])
    next
      case (Cons x w)
      obtain a path where "x = (a, path)" by fastforce
      with Cons show ?thesis using step_turn [OF assms(1,2) True Searching _ assms(3)] by simp
    qed
  next
    case (Created args)
    then show ?thesis by (rule step_started [OF assms(1,2) True])
  qed (use len True in \<open>intro step_same [OF assms(1,2)]; simp add: worker_step_def remaining_def\<close>)+
qed

text \<open>The main thread has enough turns left to hand out all elements.\<close>

definition main_ok :: "int \<Rightarrow> nat \<Rightarrow> nat \<Rightarrow> pool_state \<Rightarrow> (qaddr \<times> string) list \<Rightarrow> bool" where
  "main_ok num_el k T st mw \<longleftrightarrow> st_given st + int (length mw) = num_el \<and> length mw \<le> (T - st_created st) * k"

lemma create_worker_sums:
  assumes "shape T st mw ws sh" "sums tot F N R st mw ws sh" "st_created st < T"
    and "st_workers st ! st_created st = Not_Created" "ws ! st_created st = []" "qavail m' + 2 = qavail (st_heap st)"
  defines "i \<equiv> st_created st"
  shows "sums tot F N R
    (st\<lparr>st_heap := m', st_queue := q', st_given := g, st_created := Suc i, st_workers := (st_workers st)[i := Created args]\<rparr>)
    (drop k mw) (ws[i := take k mw]) sh"
proof -
  have len: "length (st_workers st) = T" "length (st_results st) = T" "length ws = T"
    using assms(1) by (simp_all add: shape_def)
  let ?t = "Created args" and ?ws = "ws[i := take k mw]"
  have i: "i < length (map2 wcount (st_workers st) (st_results st))" "i < length (map2 need (st_workers st) ws)"
    "i < length (map (todo total) ws)" "i < length (map (todo tfiles) ws)" "i < length (map (todo weight) ws)"
    using len assms(3) by (simp_all add: i_def)
  note upd = sum_list_upd [OF i(1), of 0] sum_list_upd [OF i(2), of "need ?t (take k mw)"]
    sum_list_upd [OF i(3), of "todo total (take k mw)"] sum_list_upd [OF i(4), of "todo tfiles (take k mw)"]
    sum_list_upd [OF i(5), of "todo weight (take k mw)"]
  have nth: "map2 wcount (st_workers st) (st_results st) ! i = 0" "map2 need (st_workers st) ws ! i = start_need + 2"
    "map (todo total) ws ! i = 0" "map (todo tfiles) ws ! i = {#}" "map (todo weight) ws ! i = 0"
    using len assms(3-5) by (simp_all add: wcount_def need_def i_def)
  have lists: "map2 wcount ((st_workers st)[i := ?t]) (st_results st) = (map2 wcount (st_workers st) (st_results st))[i := 0]"
    "map2 need ((st_workers st)[i := ?t]) ?ws = (map2 need (st_workers st) ws)[i := need ?t (take k mw)]"
    "map (todo total) ?ws = (map (todo total) ws)[i := todo total (take k mw)]"
    "map (todo tfiles) ?ws = (map (todo tfiles) ws)[i := todo tfiles (take k mw)]"
    "map (todo weight) ?ws = (map (todo weight) ws)[i := todo weight (take k mw)]"
    using len map2_update [of "st_workers st" "st_results st" wcount i ?t "st_results st ! i"]
    by (simp_all add: map2_update map_update wcount_def)
  have n: "need ?t (take k mw) = todo mem (take k mw) + start_need" by (simp add: need_def)
  note old = assms(2) [unfolded sums_def]
  note td = todo_take_drop [of total k mw] todo_take_drop [of mem k mw] todo_take_drop [of weight k mw]
  have "todo mem (drop k mw) + sum_list (map2 need ((st_workers st)[i := ?t]) ?ws) + R \<le> qavail m'"
    unfolding lists n using old upd(2) [unfolded nth n] td(2) assms(6) by linarith
  moreover have "sum_list (map2 wcount ((st_workers st)[i := ?t]) (st_results st)) + int (todo total (drop k mw)) +
      int (sum_list (map (todo total) ?ws)) = tot"
    unfolding lists using old upd(1,3) [unfolded nth] td(1) by linarith
  moreover have "todo weight (drop k mw) + sum_list (map (todo weight) ?ws) \<le> N"
    unfolding lists using old upd(5) [unfolded nth] td(3) by linarith
  moreover have "mset (map snd sh) + (todo tfiles (drop k mw) + sum_list (map (todo tfiles) ?ws)) = F"
  proof -
    have "sum_list ((map (todo tfiles) ws)[i := todo tfiles (take k mw)]) =
        sum_list (map (todo tfiles) ws) + todo tfiles (take k mw)" using upd(4) by (simp add: nth)
    then have "todo tfiles (drop k mw) + sum_list (map (todo tfiles) ?ws) =
        (todo tfiles (take k mw) + todo tfiles (drop k mw)) + sum_list (map (todo tfiles) ws)"
      unfolding lists by (simp add: ac_simps)
    with old show ?thesis unfolding todo_take_drop by simp
  qed
  ultimately show ?thesis by (simp add: sums_def)
qed

lemma create_worker_shape:
  assumes "shape T st mw ws sh" "st_created st < T" "qinv m' q' (drop k mw)" "grows {} (st_heap st) m'"
    and "st_workers st ! st_created st = Not_Created"
  defines "i \<equiv> st_created st"
  shows "shape T
    (st\<lparr>st_heap := m', st_queue := q', st_given := g, st_created := Suc i,
        st_workers := (st_workers st)[i := Created
          \<lparr>threadID = i, elements = map (\<lambda>x. Some (fst x)) (take k mw), search_string = pat\<rparr>]\<rparr>)
    (drop k mw) (ws[i := take k mw]) sh"
proof -
  note shape = assms(1) [unfolded shape_def]
  let ?m = "st_heap st" and ?ws = "ws[i := take k mw]"
  let ?t = "Created \<lparr>threadID = i, elements = map (\<lambda>x. Some (fst x)) (take k mw), search_string = pat\<rparr>"
  have len: "length (st_workers st) = T" "length (st_results st) = T" "length ws = T" using shape by simp_all
  have i: "i < T" using assms(2) by (simp add: i_def)
  have q: "qinv ?m (st_queue st) mw" using shape by simp
  have q2: "qinv m' (st_queue st) mw" by (rule qinv_frame [OF q assms(4)]) simp
  have dm: "distinct (map fst mw)" using q by (simp add: qinv_def qrep_def)
  have split: "fst ` set (take k mw) \<subseteq> fst ` set mw" "fst ` set (drop k mw) \<subseteq> fst ` set mw"
    using set_take_subset [of k mw] set_drop_subset [of k mw] by auto
  have td: "fst ` set (drop k mw) \<inter> fst ` set (take k mw) = {}"
  proof -
    have "distinct (map fst (take k mw @ drop k mw))" using dm by simp
    then show ?thesis unfolding map_append distinct_append by auto
  qed
  have sh: "shared_rep m' (st_shared st) sh"
    by (rule shared_rep_frame [OF _ assms(4)]) (use shape in simp_all)
  have new: "worker_ok m' i ?t (take k mw)"
  proof -
    have "path_at m' (fst x) = Some (snd x) \<and> fst x < qbrk m'" if "x \<in> set (take k mw)" for x
    proof -
      have "(fst x, snd x) \<in> set mw" using in_set_takeD [OF that] by simp
      with q2 qrep_path show ?thesis unfolding qinv_def by fastforce
    qed
    moreover have "distinct (map fst (take k mw))" using dm by (simp add: take_map [symmetric])
    ultimately show ?thesis by (simp add: worker_ok_def)
  qed
  have workers: "worker_ok m' j ((st_workers st)[i := ?t] ! j) (?ws ! j)" if "j < T" for j
  proof (cases "j = i")
    case False
    have "worker_ok m' j (st_workers st ! j) (ws ! j)"
      by (rule worker_ok_frame [OF _ assms(4)]) (use shape that in simp_all)
    with False show ?thesis by simp
  qed (use new len that in simp)
  have mdisj: "fst ` set (drop k mw) \<inter> fst ` set (?ws ! j) = {}" if "j < T" for j
  proof (cases "j = i")
    case False
    have "fst ` set mw \<inter> fst ` set (ws ! j) = {}" using shape that by simp
    with False split(2) show ?thesis by auto
  qed (use td len that in simp)
  have tdisj: "fst ` set (take k mw) \<inter> fst ` set (ws ! j) = {}" if "j < T" for j
  proof -
    have "fst ` set mw \<inter> fst ` set (ws ! j) = {}" using shape that by simp
    with split(1) show ?thesis by auto
  qed
  have msh: "fst ` set (drop k mw) \<inter> fst ` set sh = {}" "fst ` set sh \<inter> fst ` set (take k mw) = {}"
  proof -
    have "fst ` set mw \<inter> fst ` set sh = {}" using shape by simp
    with split show "fst ` set (drop k mw) \<inter> fst ` set sh = {}" "fst ` set sh \<inter> fst ` set (take k mw) = {}"
      by blast+
  qed
  have shdisj: "fst ` set sh \<inter> fst ` set (?ws ! j) = {}" if "j < T" for j
    using shape msh(2) that len by (cases "j = i") simp_all
  have disj: "fst ` set (?ws ! h) \<inter> fst ` set (?ws ! j) = {}" if "h < T" "j < T" "h \<noteq> j" for h j
    using shape tdisj [OF that(1)] tdisj [OF that(2)] that len
    by (cases "h = i"; cases "j = i") (simp_all add: Int_commute)
  have created: "(st_workers st)[i := ?t] ! j = Not_Created \<longleftrightarrow> Suc i \<le> j" if "j < T" for j
    using shape that len by (cases "j = i") (auto simp: i_def)
  have results: "result_ok ((st_workers st)[i := ?t] ! j) (st_results st ! j)" if "j < T" for j
  proof (cases "j = i")
    case True
    have "result_ok (st_workers st ! i) (st_results st ! i)" using shape i by simp
    with True len that show ?thesis using assms(5) by (simp add: result_ok_def i_def split: option.splits)
  qed (use shape that in simp)
  have fits: "\<forall>x\<in>set (?ws ! j). good (snd x)" if "j < T" for j
    using shape that len by (cases "j = i") (auto dest: in_set_takeD)
  have fitm: "\<forall>x\<in>set (drop k mw). good (snd x)" using shape by (auto dest: in_set_dropD)
  have "shared_ok (st_shared st)" using shape by simp
  then show ?thesis
    unfolding shape_def
    using len assms(3) sh workers mdisj msh(1) shdisj disj created results fits fitm i by simp
qed

lemma create_worker_rep:
  assumes "shape T st mw ws sh" "sums tot F N R st mw ws sh" "main_ok num_el k T st mw"
    and "st_created st < T" "k \<le> MAX_ELEMENTS_Q" "length pat < tc_size code" "pc (st_created st)"
  shows "\<exists>st' mw' ws'. create_worker code pat pc num_el (int k) st = ok st' \<and> shape T st' mw' ws' sh \<and>
    sums tot F N R st' mw' ws' sh \<and> main_ok num_el k T st' mw' \<and> st_created st' = Suc (st_created st)"
proof -
  note shape = assms(1) [unfolded shape_def]
  let ?i = "st_created st" and ?m = "st_heap st"
  have fresh: "st_workers st ! ?i = Not_Created" "ws ! ?i = []"
  proof -
    show 1: "st_workers st ! ?i = Not_Created" using shape assms(4) by simp
    have "worker_ok ?m ?i (st_workers st ! ?i) (ws ! ?i)" using shape assms(4) by simp
    with 1 show "ws ! ?i = []" by (simp add: worker_ok_def)
  qed
  have avail: "2 \<le> qavail ?m"
    using sums_worker(1) [OF assms(1,2,4)] fresh by (simp add: need_def)
  define m2 where "m2 = ?m\<lparr>qbrk := qbrk ?m + 2, qavail := qavail ?m - 2\<rparr>"
  have g: "grows {} ?m m2" by (simp add: grows_def m2_def)
  have av: "qavail m2 + 2 = qavail ?m" using avail by (simp add: m2_def)
  have q2: "qinv m2 (st_queue st) mw" by (rule qinv_frame [OF _ g]) (use shape in simp_all)
  have ctl: "st_given st + int (length mw) = num_el" "length mw \<le> (T - ?i) * k"
    using assms(3) by (simp_all add: main_ok_def)
  from take_elements_rep [OF q2 ctl(1), of 0 k] assms(5) obtain q' where
    t: "take_elements k 0 num_el (st_given st) m2 (st_queue st) =
       ok (map (\<lambda>x. Some (fst x)) (take k mw), st_given st + int (min k (length mw)), q')" "qinv m2 q' (drop k mw)" by auto
  let ?t = "Created \<lparr>threadID = ?i, elements = map (\<lambda>x. Some (fst x)) (take k mw), search_string = pat\<rparr>"
  let ?st = "st\<lparr>st_heap := m2, st_queue := q', st_given := st_given st + int (min k (length mw)),
    st_created := Suc ?i, st_workers := (st_workers st)[?i := ?t]\<rparr>"
  have run: "create_worker code pat pc num_el (int k) st = ok ?st"
    using avail t(1) assms(6,7) by (simp add: create_worker_def qmalloc_def m2_def numeral_2_eq_2)
  have "main_ok num_el k T ?st (drop k mw)"
  proof -
    have "(T - ?i) * k = (T - Suc ?i) * k + k" using assms(4) by (simp add: Suc_diff_Suc [symmetric] algebra_simps)
    with ctl have "length mw - k \<le> (T - Suc ?i) * k" by linarith
    with ctl show ?thesis by (simp add: main_ok_def min_def)
  qed
  with run create_worker_shape [OF assms(1,4) t(2) g fresh(1)] create_worker_sums [OF assms(1,2,4) fresh av]
  show ?thesis by fastforce
qed

lemma pool_step_rep:
  assumes "shape T st mw ws sh" "sums tot F N R st mw ws sh" "main_ok num_el k T st mw"
    and "tot \<le> INT_MAX" "k \<le> MAX_ELEMENTS_Q" "length pat < tc_size code" "\<forall>i<T. pc i"
  shows "\<exists>st' mw' ws' sh'. pool_step code pat pc num_el (int k) x st = ok st' \<and> shape T st' mw' ws' sh' \<and>
    sums tot F N R st' mw' ws' sh' \<and> main_ok num_el k T st' mw' \<and>
    st_created st' = min T (st_created st + (if x = Main then 1 else 0)) \<and>
    (st_created st = T \<longrightarrow> (\<forall>i<T. remaining (st_workers st' ! i) (ws' ! i) \<le>
       remaining (st_workers st ! i) (ws ! i) - (if x = Worker i then 1 else 0)))"
proof -
  have len: "length (st_workers st) = T" "st_created st \<le> T" using assms(1) by (simp_all add: shape_def)
  show ?thesis
  proof (cases x)
    case Main
    show ?thesis
    proof (cases "st_created st < T")
      case True
      have pc: "pc (st_created st)" using assms(7) True by simp
      from create_worker_rep [OF assms(1-3) True assms(5,6), of pc] pc obtain st' mw' ws' where
        r: "create_worker code pat pc num_el (int k) st = ok st'" "shape T st' mw' ws' sh"
          "sums tot F N R st' mw' ws' sh" "main_ok num_el k T st' mw'" "st_created st' = Suc (st_created st)" by blast
      have "pool_step code pat pc num_el (int k) x st = ok st'" using r(1) Main True len by (simp add: pool_step_def)
      with r(2-5) Main True show ?thesis
        by (intro exI [of _ st'] exI [of _ mw'] exI [of _ ws'] exI [of _ sh]) simp
    next
      case False
      with assms len Main show ?thesis by (auto simp: pool_step_def)
    qed
  next
    case (Worker i)
    from worker_step_rep [OF assms(1,2,4), of i] obtain st' ws' sh' where
      r: "worker_step code i st = ok st'" "shape T st' mw ws' sh'" "sums tot F N R st' mw ws' sh'"
        "worker_progress T i st ws st' ws'" by blast
    have c: "main_ok num_el k T st' mw" "st_created st' = st_created st"
      using assms(3) r(4) by (simp_all add: main_ok_def worker_progress_def)
    have p: "\<forall>j<T. remaining (st_workers st' ! j) (ws' ! j) \<le>
       remaining (st_workers st ! j) (ws ! j) - (if x = Worker j then 1 else 0)"
      using r(4) Worker by (auto simp: worker_progress_def)
    have "pool_step code pat pc num_el (int k) x st = ok st'" using r(1) Worker by (simp add: pool_step_def)
    with r c p Worker len show ?thesis
      by (intro exI [of _ st'] exI [of _ mw] exI [of _ ws'] exI [of _ sh'] conjI impI) simp_all
  qed
qed

lemma pool_run_rep:
  assumes "tot \<le> INT_MAX" "k \<le> MAX_ELEMENTS_Q" "length pat < tc_size code" "\<forall>i<T. pc i"
  shows "shape T st mw ws sh \<Longrightarrow> sums tot F N R st mw ws sh \<Longrightarrow> main_ok num_el k T st mw \<Longrightarrow>
    \<exists>st' mw' ws' sh'. pool_run code pat pc num_el (int k) sched st = ok st' \<and> shape T st' mw' ws' sh' \<and>
    sums tot F N R st' mw' ws' sh' \<and> main_ok num_el k T st' mw' \<and>
    st_created st' = min T (st_created st + count_list sched Main) \<and>
    (st_created st = T \<longrightarrow> (\<forall>i<T. remaining (st_workers st' ! i) (ws' ! i) \<le>
       remaining (st_workers st ! i) (ws ! i) - count_list sched (Worker i)))"
proof (induction sched arbitrary: st mw ws sh)
  case Nil
  then have "st_created st \<le> T" by (simp add: shape_def)
  with Nil show ?case
    by (intro exI [of _ st] exI [of _ mw] exI [of _ ws] exI [of _ sh]) simp
next
  case (Cons x sched)
  from pool_step_rep [OF Cons.prems assms, of x] obtain st1 mw1 ws1 sh1 where
    1: "pool_step code pat pc num_el (int k) x st = ok st1" "shape T st1 mw1 ws1 sh1"
      "sums tot F N R st1 mw1 ws1 sh1" "main_ok num_el k T st1 mw1"
      "st_created st1 = min T (st_created st + (if x = Main then 1 else 0))"
      "st_created st = T \<longrightarrow> (\<forall>i<T. remaining (st_workers st1 ! i) (ws1 ! i) \<le>
         remaining (st_workers st ! i) (ws ! i) - (if x = Worker i then 1 else 0))" by blast
  from Cons.IH [OF 1(2-4)] obtain st' mw' ws' sh' where
    2: "pool_run code pat pc num_el (int k) sched st1 = ok st'" "shape T st' mw' ws' sh'"
      "sums tot F N R st' mw' ws' sh'" "main_ok num_el k T st' mw'"
      "st_created st' = min T (st_created st1 + count_list sched Main)"
      "st_created st1 = T \<longrightarrow> (\<forall>i<T. remaining (st_workers st' ! i) (ws' ! i) \<le>
         remaining (st_workers st1 ! i) (ws1 ! i) - count_list sched (Worker i))" by blast
  have "remaining (st_workers st' ! i) (ws' ! i) \<le>
      remaining (st_workers st ! i) (ws ! i) - count_list (x # sched) (Worker i)" if "st_created st = T" "i < T" for i
  proof -
    have a: "remaining (st_workers st1 ! i) (ws1 ! i) \<le>
        remaining (st_workers st ! i) (ws ! i) - (if x = Worker i then 1 else 0)" using 1(6) that by simp
    have "st_created st1 = T" using 1(5) that(1) by simp
    with 2(6) that(2) have b: "remaining (st_workers st' ! i) (ws' ! i) \<le>
        remaining (st_workers st1 ! i) (ws1 ! i) - count_list sched (Worker i)" by simp
    show ?thesis using a b by (cases "x = Worker i") simp_all
  qed
  moreover have "st_created st' = min T (st_created st + count_list (x # sched) Main)"
    using 1(5) 2(5) by (auto simp: min_def)
  ultimately show ?case
    using 1(1) 2(1-4) by (intro exI [of _ st'] exI [of _ mw'] exI [of _ ws'] exI [of _ sh']) simp
qed

text \<open>When all workers have finished, everything has been done.\<close>

lemma pool_finished:
  assumes "shape T st mw ws sh" "sums tot F N R st mw ws sh" "main_ok num_el k T st mw" "0 < T" "all_finished st"
  shows "mset (map snd sh) = F" "tc_writes code \<longrightarrow> tot \<le> INT_MAX \<longrightarrow> sum_results (st_results st) 0 = ok tot"
    "\<not> tc_writes code \<longrightarrow> st_results st = replicate T None"
proof -
  note shape = assms(1) [unfolded shape_def]
  have len: "length (st_workers st) = T" "length (st_results st) = T" "length ws = T" using shape by simp_all
  have fin: "st_workers st ! i = Finished" if "i < T" for i using assms(5) that len by (simp add: all_finished_def)
  have created: "st_created st = T"
  proof (rule ccontr)
    assume "st_created st \<noteq> T"
    with shape have "st_created st < T" by simp
    with shape have "st_workers st ! st_created st = Not_Created" by simp
    with fin [OF \<open>st_created st < T\<close>] show False by simp
  qed
  then have mw: "mw = []" using assms(3) by (simp add: main_ok_def)
  have wsi: "ws ! i = []" if "i < T" for i
  proof -
    have "worker_ok (st_heap st) i (st_workers st ! i) (ws ! i)" using shape that by simp
    with fin [OF that] show ?thesis by (simp add: worker_ok_def)
  qed
  then have "map (todo total) ws = replicate T 0" "map (todo tfiles) ws = replicate T {#}"
    by (intro nth_equalityI; simp add: len)+
  then have z: "sum_list (map (todo total) ws) = 0" "sum_list (map (todo tfiles) ws) = {#}"
    by (simp_all only: sum_list_replicate sum_list_replicate_empty)
  show "mset (map snd sh) = F" using assms(2) z(2) mw by (simp add: sums_def)
  have r: "result_ok Finished x" if "x \<in> set (st_results st)" for x
    using shape fin that by (auto simp: in_set_conv_nth)
  show "\<not> tc_writes code \<longrightarrow> st_results st = replicate T None"
  proof
    assume "\<not> tc_writes code"
    then have "x = None" if "x \<in> set (st_results st)" for x
      using r [OF that] by (cases x) (simp_all add: result_ok_def)
    then show "st_results st = replicate T None"
      by (intro nth_equalityI) (simp_all add: len)
  qed
  have res: "map2 wcount (st_workers st) (st_results st) = map (wcount Finished) (st_results st)"
    by (intro nth_equalityI) (simp_all add: len fin)
  show "tc_writes code \<longrightarrow> tot \<le> INT_MAX \<longrightarrow> sum_results (st_results st) 0 = ok tot"
  proof (intro impI)
    assume "tc_writes code" "tot \<le> INT_MAX"
    have k: "\<forall>x\<in>set (st_results st). \<exists>k\<ge>0. x = Some k"
      using r \<open>tc_writes code\<close> by (force simp: result_ok_def split: option.splits)
    have the: "map (wcount Finished) (st_results st) = map the (st_results st)"
      using k by (auto simp: wcount_def)
    have "sum_list (map (wcount Finished) (st_results st)) = tot"
      using assms(2) z mw res by (simp add: sums_def)
    then have "sum_list (map the (st_results st)) = tot" unfolding the .
    with sum_results_rep [OF k, of 0] \<open>tot \<le> INT_MAX\<close> show "sum_results (st_results st) 0 = ok tot" by simp
  qed
qed

text \<open>The whole pool: all elements of a queue, on a schedule.\<close>

definition pool_done :: "nat \<Rightarrow> int \<Rightarrow> string multiset \<Rightarrow> nat \<Rightarrow> pool_state \<Rightarrow> bool" where
  "pool_done T tot F R st \<longleftrightarrow>
     (\<exists>sh. shared_rep (st_heap st) (st_shared st) sh \<and> mset (map snd sh) = F) \<and> shared_ok (st_shared st) \<and>
     R \<le> qavail (st_heap st) \<and> (tc_writes code \<longrightarrow> sum_results (st_results st) 0 = ok tot) \<and>
     (\<not> tc_writes code \<longrightarrow> st_results st = replicate T None)"

lemma pool_runs:
  assumes "qinv m q mw" "shared_rep m sq sh" "shared_ok sq" "fst ` set mw \<inter> fst ` set sh = {}"
    and "\<forall>x\<in>set mw. good (snd x)" "0 < T" "int T \<le> INT_MAX" "length mw \<le> T * MAX_ELEMENTS_Q"
    and "int (length mw) \<le> INT_MAX" "length pat < tc_size code" "\<forall>i<T. pc i" "int (todo total mw) \<le> INT_MAX"
    and "todo mem mw + T * (start_need + 2) + R \<le> qavail m"
  defines "done \<equiv> pool_done T (int (todo total mw)) (mset (map snd sh) + todo tfiles mw) R"
    and "run \<equiv> \<lambda>x. run_workers code pat pc x (int T) m q (replicate T None) sq"
  shows "run sched = None \<or> (\<exists>st. run sched = ok st \<and> done st)"
    and "turns_given T (todo weight mw) sched \<Longrightarrow> \<exists>st. run sched = ok st \<and> done st"
proof -
  have num: "num_elements m q = ok (int (length mw))"
    using num_elements_rep [of m q mw] assms(1,9) by (simp add: qinv_def)
  obtain items k where k: "round_up (word_of_int (int (length mw))) (word_of_int (int T)) = ok items"
    "sint items = int k" "k \<le> 4096" "length mw \<le> T * k"
    using items_per_thread [of "length mw" T] assms(6-9) by (auto simp: MAX_ELEMENTS_Q_def)
  let ?st = "pool_init m q T (replicate T None) sq"
  let ?ws = "replicate T []" and ?tot = "int (todo total mw)" and ?F = "mset (map snd sh) + todo tfiles mw"
  let ?N = "todo weight mw"
  have run: "run sched = rbind (pool_run code pat pc (int (length mw)) (int k) sched ?st)
      (\<lambda>st. if all_finished st then ok st else None)" for sched
    unfolding run_def run_workers_def num rbind_ok k(1,2) by simp
  have shape: "shape T ?st mw ?ws sh"
    using assms(1-5) by (simp add: shape_def pool_init_def worker_ok_def result_ok_def)
  have sums: "sums ?tot ?F ?N R ?st mw ?ws sh"
    using assms(13) by (simp add: sums_def pool_init_def sum_list_replicate wcount_def need_def)
  have mok: "main_ok (int (length mw)) k T ?st mw" using k(4) by (simp add: main_ok_def pool_init_def)
  have bound: "k \<le> MAX_ELEMENTS_Q" using k(3) by (simp add: MAX_ELEMENTS_Q_def)
  note go = pool_run_rep [OF assms(12) bound assms(10,11)]
  have fin: "done st" if "shape T st mw' ws' sh'" "sums ?tot ?F ?N R st mw' ws' sh'"
    "main_ok (int (length mw)) k T st mw'" "all_finished st" for st mw' ws' sh'
  proof -
    note f = pool_finished [OF that(1-3) assms(6) that(4)]
    have "shared_rep (st_heap st) (st_shared st) sh'" "shared_ok (st_shared st)"
      using that(1) by (simp_all add: shape_def)
    moreover have "R \<le> qavail (st_heap st)" using that(2) unfolding sums_def by linarith
    ultimately show ?thesis unfolding done_def pool_done_def using f assms(12) by blast
  qed
  show "run sched = None \<or> (\<exists>st. run sched = ok st \<and> done st)"
  proof -
    from go [OF shape sums mok, of sched] obtain st' mw' ws' sh' where
      s: "pool_run code pat pc (int (length mw)) (int k) sched ?st = ok st'" "shape T st' mw' ws' sh'"
        "sums ?tot ?F ?N R st' mw' ws' sh'" "main_ok (int (length mw)) k T st' mw'" by blast
    show ?thesis
      unfolding run s(1) rbind_ok using fin [OF s(2-4)] by simp
  qed
  assume "turns_given T (todo weight mw) sched"
  then obtain s1 s2 where f: "sched = s1 @ s2" "T \<le> count_list s1 Main"
    "\<forall>i<T. ?N + 2 \<le> count_list s2 (Worker i)" by (auto simp: turns_given_def)
  from go [OF shape sums mok, of s1] obtain st1 mw1 ws1 sh1 where
    s1: "pool_run code pat pc (int (length mw)) (int k) s1 ?st = ok st1" "shape T st1 mw1 ws1 sh1"
      "sums ?tot ?F ?N R st1 mw1 ws1 sh1" "main_ok (int (length mw)) k T st1 mw1"
      "st_created st1 = min T (0 + count_list s1 Main)" by (auto simp: pool_init_def)
  from go [OF s1(2-4), of s2] obtain st2 mw2 ws2 sh2 where
    s2: "pool_run code pat pc (int (length mw)) (int k) s2 st1 = ok st2" "shape T st2 mw2 ws2 sh2"
      "sums ?tot ?F ?N R st2 mw2 ws2 sh2" "main_ok (int (length mw)) k T st2 mw2"
      "st_created st2 = min T (st_created st1 + count_list s2 Main)"
      "st_created st1 = T \<longrightarrow> (\<forall>i<T. remaining (st_workers st2 ! i) (ws2 ! i) \<le>
         remaining (st_workers st1 ! i) (ws1 ! i) - count_list s2 (Worker i))" by blast
  have created: "st_created st1 = T" "st_created st2 = T" using s1(5) s2(5) f(2) by simp_all
  have "st_workers st2 ! i = Finished" if "i < T" for i
  proof -
    have "todo weight (ws1 ! i) \<le> ?N" using sums_worker(3) [OF s1(2,3) that] .
    then have "remaining (st_workers st1 ! i) (ws1 ! i) \<le> ?N + 2"
      by (simp add: remaining_def split: worker.split)
    moreover have "remaining (st_workers st2 ! i) (ws2 ! i) \<le>
         remaining (st_workers st1 ! i) (ws1 ! i) - count_list s2 (Worker i)" using s2(6) created(1) that by simp
    ultimately have z: "remaining (st_workers st2 ! i) (ws2 ! i) = 0"
      using f(3) [rule_format, OF that] by linarith
    have "st_workers st2 ! i \<noteq> Not_Created" using s2(2) created(2) that by (simp add: shape_def)
    with z show ?thesis by (cases "st_workers st2 ! i") (simp_all add: remaining_def)
  qed
  then have all: "all_finished st2"
    using s2(2) by (auto simp: shape_def all_finished_def in_set_conv_nth)
  have "pool_run code pat pc (int (length mw)) (int k) sched ?st = ok st2"
    unfolding f(1) pool_run_append s1(1) rbind_ok by (rule s2(1))
  with run all fin [OF s2(2-4) all] show "\<exists>st. run sched = ok st \<and> done st" by simp
qed

end

end
