(* ===== verification/StaticGrep.thy ===== *)
theory StaticGrep
  imports WorkerPool
begin

text \<open>
  The parallel search with static load balancing (\<open>pp_2/mini_grep.c\<close>,
  \<open>parallel_search_static_thread\<close>, \<open>parallel_search_static\<close>): the entries of the root are handed out
  to the workers, and each worker searches what is below its own ones. The theorems are about every
  schedule of the main thread and the workers.
\<close>

section \<open>The code\<close>

text \<open>The beginning of a worker: its own queue, filled with its input elements.\<close>

definition thread_start :: "qheap \<Rightarrow> thread_args \<Rightarrow> (qheap \<times> worker) res" where
  "thread_start m args =
     rbind (alloc_root m) (\<lambda>(entry, queue, element, m3).
     (case queue of
        None \<Rightarrow> err Null_Deref
      | Some q \<Rightarrow>
          rbind (insert_inputs m3 q (elements args)) (\<lambda>(m4, q1).
          ok (m4, Searching (threadID args) (search_string args) entry q1 0))))"

text \<open>A turn of \<open>parallel_search_static_thread\<close> is a turn of the serial search.\<close>

definition static_turn :: "filesys \<Rightarrow> string \<Rightarrow> qaddr option \<Rightarrow> qheap \<Rightarrow> queue \<Rightarrow> queue option \<Rightarrow> int \<Rightarrow>
    (qheap \<times> queue \<times> queue option \<times> int) res" where
  "static_turn fs pat entry m queue shared n =
     rbind (visit fs pat entry m queue n) (\<lambda>(m1, queue1, n1). ok (m1, queue1, shared, n1))"

definition SEARCH_STRING_SIZE :: nat where "SEARCH_STRING_SIZE = 128"

definition static_code :: "filesys \<Rightarrow> thread_code" where
  "static_code fs =
     \<lparr>tc_start = thread_start, tc_turn = static_turn fs, tc_writes = True, tc_size = SEARCH_STRING_SIZE,
      tc_early = False\<rparr>"

text \<open>
  \<open>num_threads\<close> is the value of \<open>atoi(argv[3])\<close>; an array of a length that is not positive is
  undefined behaviour. \<open>sched\<close> is the schedule up to the moment the main thread is looked at.
\<close>

definition parallel_search_static ::
  "filesys \<Rightarrow> string \<Rightarrow> string \<Rightarrow> int \<Rightarrow> (nat \<Rightarrow> bool) \<Rightarrow> actor list \<Rightarrow> qheap \<Rightarrow> int res" where
  "parallel_search_static fs pat path num_threads pthread_create sched m =
     (if num_threads \<le> 0 then err Out_Of_Bounds
      else
        (case qmalloc m of (m1, results) \<Rightarrow>
        rbind (insert_root path m1) (\<lambda>(entry, m2, queue).
        rbind (read_root fs entry m2 queue) (\<lambda>(m3, queue1).
        rbind (run_workers (static_code fs) pat pthread_create sched num_threads m3 queue1
            (if results = None then [] else replicate (nat num_threads) None) None) (\<lambda>st.
        sum_results (st_results st) 0)))))"

section \<open>The workers\<close>

lemma thread_start_rep:
  assumes "distinct (map fst w)" "\<forall>x\<in>set w. path_at m (fst x) = Some (snd x) \<and> fst x < qbrk m" "3 \<le> qavail m"
  shows "\<exists>m' entry q. thread_start m \<lparr>threadID = i, elements = map (\<lambda>x. Some (fst x)) w, search_string = pat\<rparr> =
      ok (m', Searching i pat entry q 0) \<and> entry \<noteq> None \<and> qinv m' q w \<and> grows (fst ` set w) m m' \<and>
    qavail m' + 3 = qavail m"
proof -
  define m3 where "m3 = \<lparr>cells = (cells m)(qbrk m + 2 \<mapsto> \<lparr>path_name = [], qe_next = None\<rparr>), qbrk = qbrk m + 3,
    qavail = qavail m - 3\<rparr>"
  have al: "alloc_root m = ok (Some (qbrk m), Some \<lparr>q_head = None, q_tail = None\<rparr>, Some (qbrk m + 2), m3)"
    using alloc_root_result [of m] assms(3) by (simp add: m3_def)
  have w3: "\<forall>x\<in>set w. path_at m3 (fst x) = Some (snd x) \<and> fst x < qbrk m3"
    using assms(2) by (force simp: m3_def path_at_def)
  have q3: "qinv m3 \<lparr>q_head = None, q_tail = None\<rparr> []" by (simp add: qinv_def qrep_def)
  from insert_inputs_rep [OF q3 w3] assms(1) obtain m' q' where
    r: "insert_inputs m3 \<lparr>q_head = None, q_tail = None\<rparr> (map (\<lambda>x. Some (fst x)) w) = ok (m', q')"
      "qinv m' q' w" "grows (fst ` set w) m3 m'" "qavail m' = qavail m3" by auto
  have "grows (fst ` set w) m m'" using r(3) by (auto simp: grows_def m3_def)
  then show ?thesis using al r assms(3) by (auto simp: thread_start_def m3_def)
qed

lemma reach_size:
  assumes "paths_fit fs p"
  shows "length (reach fs p) = Suc (sum_list (map (\<lambda>q. length (reach fs q)) (children fs p)))"
    and "length (reach fs p) - 1 =
      length (children fs p) + sum_list (map (\<lambda>q. length (reach fs q) - 1) (children fs p))"
proof -
  show len: "length (reach fs p) = Suc (sum_list (map (\<lambda>q. length (reach fs q)) (children fs p)))"
    by (rule reach_length_step [OF paths_fit_length [OF assms]])
  have "sum_list (map (\<lambda>q. length (reach fs q)) xs) = length xs + sum_list (map (\<lambda>q. length (reach fs q) - 1) xs)" for xs
  proof (induction xs)
    case (Cons x xs)
    have "reach fs x \<noteq> []" by (rule reach_nonempty)
    with Cons show ?case by (cases "reach fs x") simp_all
  qed simp
  with len show "length (reach fs p) - 1 =
      length (children fs p) + sum_list (map (\<lambda>q. length (reach fs q) - 1) (children fs p))" by simp
qed

lemma paths_fit_children: "paths_fit fs p \<Longrightarrow> c \<in> set (children fs p) \<Longrightarrow> paths_fit fs c"
  by (simp add: paths_fit_step [of fs p])

lemma static_turn_rep:
  assumes "qinv m q ((a, p) # ps)" "shared_rep m sq sh" "sq = None"
    and "insert a (fst ` set ps) \<inter> fst ` set sh = {}" "entry \<noteq> None" "paths_fit fs p" "0 \<le> n"
    and "n + int (path_count fs pat p) \<le> INT_MAX" "length (children fs p) \<le> qavail m"
  shows "\<exists>m' q' sq' new newsh. static_turn fs pat entry m q sq n = ok (m', q', sq', n + int (path_count fs pat p)) \<and>
    sq' = None \<and> turn_post m a (children fs p) [] ps sh m' q' sq' new newsh"
proof -
  have "\<forall>c\<in>set (children fs p). length c < MAX_LENGTH"
    using paths_fit_children [OF assms(6)] paths_fit_length by blast
  then have nofail: "\<not> visit_fails fs pat m p n e" for e
    using assms(8,9) by (auto simp: visit_fails_def)
  have "n \<le> INT_MAX" using assms(8) by simp
  from visit_rep [OF assms(1,5,7) this, of fs pat] nofail obtain r new where
    v: "visit fs pat entry m q n = ok r" "visit_ok fs pat m a p ps n r new" by blast
  obtain m' q' n' where r: "r = (m', q', n')" by (cases r) auto
  have sh: "sh = []" using assms(2,3) by (simp add: shared_rep_def)
  have "turn_post m a (children fs p) [] ps sh m' q' None new []"
    using v(2) r sh by (auto simp: turn_post_def visit_ok_def shared_rep_def)
  moreover have "static_turn fs pat entry m q sq n = ok (m', q', None, n + int (path_count fs pat p))"
    using v r assms(3) by (simp add: static_turn_def visit_ok_def)
  ultimately show ?thesis by blast
qed

interpretation static: thread_pool "static_code fs" pat "children fs" "\<lambda>p. []" "path_count fs pat"
  "\<lambda>p. length (reach fs p)" "occurrences fs pat" "\<lambda>p. {#}" "\<lambda>p. length (reach fs p) - 1" "paths_fit fs" 3
  "\<lambda>entry. entry \<noteq> None" "\<lambda>sq. sq = None"
  for fs pat
proof unfold_locales
  fix w m i
  assume "distinct (map fst w)" "\<forall>x\<in>set w. path_at m (fst x) = Some (snd x) \<and> fst x < qbrk m" "3 \<le> qavail m"
  from thread_start_rep [OF this, of i pat]
  show "\<exists>m' entry q. tc_start (static_code fs) m \<lparr>threadID = i, elements = map (\<lambda>x. Some (fst x)) w, search_string = pat\<rparr> =
      ok (m', Searching i pat entry q 0) \<and> entry \<noteq> None \<and> qinv m' q w \<and> grows (fst ` set w) m m' \<and> qavail m' + 3 = qavail m"
    by (simp add: static_code_def)
next
  fix m q a p ps sq sh n and entry :: "qaddr option"
  assume "qinv m q ((a, p) # ps)" "shared_rep m sq sh" "sq = None"
    "insert a (fst ` set ps) \<inter> fst ` set sh = {}" "entry \<noteq> None" "paths_fit fs p" "0 \<le> n"
    "n + int (path_count fs pat p) \<le> INT_MAX" "length (children fs p) + length ([] :: string list) \<le> qavail m"
  note this(1-8) and le = this(9)
  from static_turn_rep [OF this(1-8)] le
  show "\<exists>m' q' sq' new newsh. tc_turn (static_code fs) pat entry m q sq n = ok (m', q', sq', n + int (path_count fs pat p)) \<and>
      sq' = None \<and> turn_post m a (children fs p) [] ps sh m' q' sq' new newsh"
    by (simp add: static_code_def)
next
  fix p assume "paths_fit fs p"
  note fit = this
  show "length (reach fs p) = Suc (sum_list (map (\<lambda>p. length (reach fs p)) (children fs p)))"
    by (rule reach_size(1) [OF fit])
  show "length (reach fs p) - 1 =
      length (children fs p) + length [] + sum_list (map (\<lambda>p. length (reach fs p) - 1) (children fs p))"
    using reach_size(2) [OF fit] by simp
  show "occurrences fs pat p = path_count fs pat p + sum_list (map (occurrences fs pat) (children fs p))"
    by (rule occurrences_step [OF paths_fit_length [OF fit]])
  show "{#} = mset [] + sum_list (map (\<lambda>p. {#}) (children fs p))" by simp
  fix c assume "c \<in> set (children fs p)"
  then show "paths_fit fs c" by (rule paths_fit_children [OF fit])
next
  show "tc_writes (static_code fs) \<or> path_count fs pat p = 0" for p by (simp add: static_code_def)
qed

section \<open>The whole parallel search\<close>

text \<open>
  What the search needs: names and pattern that fit their arrays, at most \<open>MAX_ELEMENTS_Q\<close> entries of
  the root per thread, memory, and a count that fits an \<open>int\<close>. A fair schedule gives the main thread
  as many turns as there are workers, and then every worker as many as there are paths below the
  root, and two more.
\<close>

definition static_resources :: "filesys \<Rightarrow> string \<Rightarrow> string \<Rightarrow> nat \<Rightarrow> qheap \<Rightarrow> bool" where
  "static_resources fs pat p T m \<longleftrightarrow>
     paths_fit fs p \<and> int (occurrences fs pat p) \<le> INT_MAX \<and> length pat < SEARCH_STRING_SIZE \<and>
     0 < T \<and> int T \<le> INT_MAX \<and> length (children fs p) \<le> T * MAX_ELEMENTS_Q \<and>
     int (length (children fs p)) \<le> INT_MAX \<and> length (reach fs p) + 5 * T + 3 \<le> qavail m"

definition fair :: "filesys \<Rightarrow> string \<Rightarrow> nat \<Rightarrow> actor list \<Rightarrow> bool" where
  "fair fs p T sched \<longleftrightarrow> turns_given T (length (reach fs p)) sched"

lemma parallel_search_static_result:
  assumes "fs_lstat fs p \<noteq> None" "fs_lstat fs p = Some Directory \<longrightarrow> fs_opendir fs p \<noteq> None"
    "static_resources fs pat p T m" "\<forall>i<T. pc i"
  shows "parallel_search_static fs pat p (int T) pc sched m \<in> {None, ok (int (sum_list (map (occurrences fs pat) (children fs p))))}"
    and "fair fs p T sched \<Longrightarrow> parallel_search_static fs pat p (int T) pc sched m = ok (int (sum_list (map (occurrences fs pat) (children fs p))))"
proof -
  note res = assms(3) [unfolded static_resources_def]
  have fit: "paths_fit fs p" using res by simp
  have len: "length p < MAX_LENGTH" using paths_fit_length [OF fit] .
  note size = reach_size [OF fit]
  define m1 where "m1 = m\<lparr>qbrk := Suc (qbrk m), qavail := qavail m - 1\<rparr>"
  have m1: "qmalloc m = (m1, Some (qbrk m))" "qavail m1 = qavail m - 1" using res by (simp_all add: qmalloc_def m1_def)
  have "3 \<le> qavail m1" using res m1(2) by linarith
  then obtain e m2 q a where r: "insert_root p m1 = ok (Some e, m2, q)" "qinv m2 q [(a, p)]" "qavail m2 + 3 = qavail m1"
    using insert_root_result [of m1 p] len by (auto split: if_splits)
  have "length (children fs p) \<le> qavail m2" using size(2) r(3) m1(2) res by linarith
  from read_root_rep [OF r(2) assms(1,2) fit this, of e] obtain m3 q1 mw where
    rr: "read_root fs (Some e) m2 q = ok (m3, q1)" "qinv m3 q1 mw" "map snd mw = children fs p"
      "qavail m3 + length mw = qavail m2" by blast
  have lmw: "length mw = length (children fs p)" by (metis rr(3) length_map)
  note td = todo_paths [OF rr(3)]
  let ?tot = "int (sum_list (map (occurrences fs pat) (children fs p)))"
  let ?run = "run_workers (static_code fs) pat pc sched (int T) m3 q1 (replicate T None) None"
  have run: "parallel_search_static fs pat p (int T) pc sched m = rbind ?run (\<lambda>st. sum_results (st_results st) 0)"
    unfolding parallel_search_static_def m1(1) prod.case r(1) rbind_ok rr(1) using res by simp
  have sh: "shared_rep m3 None []" "fst ` set mw \<inter> fst ` set [] = {}" by (simp_all add: shared_rep_def)
  have "\<forall>c\<in>set (children fs p). paths_fit fs c" using paths_fit_children [OF fit] by blast
  then have fits: "\<forall>x\<in>set mw. paths_fit fs (snd x)" unfolding rr(3) [symmetric] by simp
  have T: "0 < T" "int T \<le> INT_MAX" "length mw \<le> T * MAX_ELEMENTS_Q" "int (length mw) \<le> INT_MAX"
    "length pat < tc_size (static_code fs)" using res lmw by (simp_all add: static_code_def)
  have cnt: "int (todo (occurrences fs pat) mw) \<le> INT_MAX"
    using res occurrences_step [OF len, of fs pat] by (simp add: td)
  have mem: "todo (\<lambda>p. length (reach fs p) - 1) mw + T * (3 + 2) + 0 \<le> qavail m3"
  proof -
    let ?S = "sum_list (map (\<lambda>p. length (reach fs p) - 1) (children fs p))"
    have "?S + length mw + 1 = length (reach fs p)" using size lmw by simp
    moreover have "length (reach fs p) + 5 * T + 3 \<le> qavail m" using res by simp
    ultimately have "?S + 5 * T \<le> qavail m3" using rr(4) r(3) m1(2) by linarith
    then show ?thesis by (simp add: td)
  qed
  note go = static.pool_runs [OF rr(2) sh(1) refl sh(2) fits T assms(4) cnt mem]
  have fin: "sum_results (st_results st) 0 = ok ?tot"
    if "static.pool_done fs T (int (todo (occurrences fs pat) mw)) (mset (map snd []) + todo (\<lambda>p. {#}) mw) 0 st" for st
    using that unfolding static.pool_done_def by (simp add: static_code_def td)
  show "parallel_search_static fs pat p (int T) pc sched m \<in> {None, ok ?tot}"
    using go(1) [of sched] fin unfolding run by auto
  assume "fair fs p T sched"
  moreover have "todo (\<lambda>p. length (reach fs p)) mw \<le> length (reach fs p)" using size(1) by (simp add: td)
  ultimately have "turns_given T (todo (\<lambda>p. length (reach fs p)) mw) sched"
    unfolding fair_def by (rule turns_given_mono)
  from go(2) [OF this] fin show "parallel_search_static fs pat p (int T) pc sched m = ok ?tot"
    unfolding run by auto
qed

section \<open>Properties of the parallel search\<close>

lemma static_count_directory:
  "fs_lstat fs p = Some Directory \<Longrightarrow> length p < MAX_LENGTH \<Longrightarrow>
   sum_list (map (occurrences fs pat) (children fs p)) = occurrences fs pat p"
  by (simp add: occurrences_step path_count_def)

text \<open>
  C8: for a root that is a directory, with paths and pattern that fit their arrays, enough memory,
  at most 4096 entries of the root per thread and no failing \<open>pthread_create\<close>, the static parallel
  search returns what the serial search returns, under every schedule that gives the main thread
  and the workers enough turns, however these are interleaved.
\<close>

theorem static_equals_serial:
  assumes "fs_lstat fs p = Some Directory" "fs_opendir fs p \<noteq> None" "static_resources fs pat p T m"
    and "\<forall>i<T. pthread_create i" "fair fs p T sched"
  shows "\<exists>n m'. parallel_search_static fs pat p (int T) pthread_create sched m = ok n \<and>
    serial_search fs pat p m = ok (m', n) \<and> n = int (occurrences fs pat p)"
proof -
  have len: "length p < MAX_LENGTH" using assms(3) paths_fit_length unfolding static_resources_def by blast
  have l1: "fs_lstat fs p \<noteq> None" using assms(1) by simp
  have mem: "3 \<le> qavail m" using assms(3) unfolding static_resources_def by linarith
  have "\<exists>m'. serial_search fs pat p m = ok (m', int (occurrences fs pat p))"
    using serial_search_result [of m fs pat p] mem len assms(3)
    by (auto simp: search_result_def static_resources_def)
  moreover have "parallel_search_static fs pat p (int T) pthread_create sched m = ok (int (occurrences fs pat p))"
    using parallel_search_static_result(2) [OF l1 _ assms(3,4,5)] assms(2) static_count_directory [OF assms(1) len] by simp
  ultimately show ?thesis by blast
qed

lemma demo_root: "fs_lstat demo_fs ''r'' = Some Directory" "fs_opendir demo_fs ''r'' \<noteq> None"
  by (simp_all add: demo_fs_def)

lemma demo_occurrences: "occurrences demo_fs ''cat'' ''r'' = 3"
  unfolding occurrences_def by (rule demo_sum)

lemma demo_resources: "static_resources demo_fs ''cat'' ''r'' 2 (demo_heap 30)"
  by (simp add: static_resources_def paths_fit_def demo_reach demo_children demo_occurrences MAX_LENGTH_def
      INT_MAX_def demo_heap_def SEARCH_STRING_SIZE_def MAX_ELEMENTS_Q_def)

lemmas demo_static = demo_root demo_occurrences demo_resources

text \<open>The two workers take turns, one running ahead of the creation of the other.\<close>

definition demo_sched :: "actor list" where
  "demo_sched = [Main, Worker 0, Worker 0, Worker 1, Main] @ concat (replicate 7 [Worker 1, Worker 0])"

lemma demo_fair: "fair demo_fs ''r'' 2 demo_sched"
proof -
  have "demo_sched = [Main, Worker 0, Worker 0, Worker 1, Main] @ concat (replicate 7 [Worker 1, Worker 0])"
    by (rule demo_sched_def)
  moreover have "length (reach demo_fs ''r'') + 2 \<le> count_list (concat (replicate 7 [Worker 1, Worker 0])) (Worker i)"
    if "i < 2" for i
    using that by (cases "i = 0"; cases "i = 1") (simp_all add: demo_reach numeral_eq_Suc)
  ultimately show ?thesis
    unfolding fair_def turns_given_def by (intro exI [of _ "[Main, Worker 0, Worker 0, Worker 1, Main]"]
        exI [of _ "concat (replicate 7 [Worker 1, Worker 0])"] conjI) simp_all
qed

lemma static_equals_serial_witness:
  "parallel_search_static demo_fs ''cat'' ''r'' 2 (\<lambda>i. True) demo_sched (demo_heap 30) = ok 3"
  using static_equals_serial [OF demo_static(1,2,4) _ demo_fair, of "\<lambda>i. True"] by (simp add: demo_static(3))

text \<open>
  C30: under the same conditions no schedule at all makes the parallel search fail or return
  another count: whatever the main thread and the workers have done, the main thread is still
  waiting for them or returns the number of occurrences.
\<close>

theorem static_any_schedule:
  assumes "fs_lstat fs p = Some Directory" "fs_opendir fs p \<noteq> None" "static_resources fs pat p T m"
    and "\<forall>i<T. pthread_create i"
  shows "parallel_search_static fs pat p (int T) pthread_create sched m \<in> {None, ok (int (occurrences fs pat p))}"
proof -
  have "length p < MAX_LENGTH" using assms(3) paths_fit_length unfolding static_resources_def by blast
  from static_count_directory [OF assms(1) this] show ?thesis
    using parallel_search_static_result(1) [of fs p, OF _ _ assms(3,4)] assms(1,2) by simp
qed

lemma static_any_schedule_witness:
  "parallel_search_static demo_fs ''cat'' ''r'' 2 (\<lambda>i. True) [Worker 1, Main, Worker 0] (demo_heap 30) \<in> {None, ok 3}"
  using static_any_schedule [OF demo_static(1,2,4), of "\<lambda>i. True" "[Worker 1, Main, Worker 0]"]
  by (simp add: demo_static(3))

text \<open>
  When the root is not a directory the parallel search returns 0 (on a fair schedule), also
  for a regular file that contains the pattern and in which the serial search finds it: nobody
  searches the root itself.
\<close>

theorem static_ignores_file_root:
  assumes "fs_lstat fs p = Some Regular" "static_resources fs pat p T m"
    and "\<forall>i<T. pthread_create i" "fair fs p T sched"
  shows "parallel_search_static fs pat p (int T) pthread_create sched m = ok 0 \<and>
    (\<exists>m'. serial_search fs pat p m = ok (m', int (path_count fs pat p)))"
proof -
  have len: "length p < MAX_LENGTH" using assms(2) paths_fit_length unfolding static_resources_def by blast
  have ch: "children fs p = []" using assms(1) by (simp add: children_def)
  then have occ: "occurrences fs pat p = path_count fs pat p" using len by (simp add: occurrences_step)
  have mem: "3 \<le> qavail m" using assms(2) unfolding static_resources_def by linarith
  have "\<exists>m'. serial_search fs pat p m = ok (m', int (path_count fs pat p))"
    using serial_search_result [of m fs pat p] mem len assms(2) occ
    by (auto simp: search_result_def static_resources_def)
  moreover have "parallel_search_static fs pat p (int T) pthread_create sched m = ok 0"
    using parallel_search_static_result(2) [of fs p, OF _ _ assms(2,3,4)] assms(1) ch by simp
  ultimately show ?thesis by blast
qed

lemma static_ignores_file_root_witness:
  "parallel_search_static demo_fs ''cat'' ''r/a'' 1 (\<lambda>i. True) (Main # replicate 3 (Worker 0)) (demo_heap 30) = ok 0 \<and>
    (\<exists>m'. serial_search demo_fs ''cat'' ''r/a'' (demo_heap 30) = ok (m', 2))"
proof -
  have reach: "reach demo_fs ''r/a'' = [''r/a'']"
    by (simp add: reach.simps [of demo_fs "''r/a''"] demo_children MAX_LENGTH_def)
  have res: "static_resources demo_fs ''cat'' ''r/a'' 1 (demo_heap 30)"
    by (simp add: static_resources_def paths_fit_def reach demo_children occurrences_def demo_counts MAX_LENGTH_def
        INT_MAX_def demo_heap_def SEARCH_STRING_SIZE_def)
  have fair: "fair demo_fs ''r/a'' 1 (Main # replicate 3 (Worker 0))"
    unfolding fair_def turns_given_def by (intro exI [of _ "[Main]"] exI [of _ "replicate 3 (Worker 0)"])
      (simp add: reach numeral_eq_Suc)
  have regular: "fs_lstat demo_fs ''r/a'' = Some Regular" by (simp add: demo_fs_def)
  from static_ignores_file_root [OF regular res _ fair, of "\<lambda>i. True"] show ?thesis by (simp add: demo_counts)
qed

text \<open>
  \<open>round_up\<close> is the division rounded up as long as the sum of its arguments fits 32 bits, and
  divides by zero for zero threads; so many elements per thread cover all elements, and no smaller
  number does.
\<close>

theorem round_up_ceiling:
  assumes "unat dividend + unat divisor \<le> 2 ^ 32" "divisor \<noteq> 0"
  shows "round_up dividend 0 = err Div_By_Zero \<and>
    (\<exists>r. round_up dividend divisor = ok r \<and> unat dividend \<le> unat divisor * unat r \<and>
    (\<forall>k. unat dividend \<le> unat divisor * k \<longleftrightarrow> unat r \<le> k))"
proof -
  obtain r where r: "round_up dividend divisor = ok r" "unat r = (unat dividend + unat divisor - 1) div unat divisor"
    using round_up_nat [OF assms(2,1)] by blast
  have d: "0 < unat divisor" using assms(2) by (simp add: unat_gt_0)
  have "unat dividend \<le> unat divisor * unat r" unfolding r(2) by (rule ceiling_covers [OF d])
  moreover have "unat r \<le> k" if "unat dividend \<le> unat divisor * k" for k
  proof -
    have "unat dividend + unat divisor - 1 < Suc k * unat divisor" using that d by (simp add: algebra_simps)
    then have "unat r < Suc k" unfolding r(2) using div_less_iff_less_mult [OF d] by blast
    then show ?thesis by simp
  qed
  moreover have "unat dividend \<le> unat divisor * k" if "unat r \<le> k" for k
    using calculation(1) mult_le_mono2 [OF that, of "unat divisor"] by linarith
  ultimately show ?thesis using r(1) by (auto simp: round_up_def)
qed

lemma round_up_ceiling_witness:
  "\<exists>r. round_up 7 3 = ok r \<and> 7 \<le> 3 * unat r \<and> (\<forall>k. 7 \<le> 3 * k \<longleftrightarrow> unat r \<le> k)"
  using round_up_ceiling [of 7 3] by simp

lemma static_root_fails:
  assumes "0 < num_threads" "length p < MAX_LENGTH" "4 \<le> qavail m" "root_error fs p = Some e"
  shows "parallel_search_static fs pat p num_threads pc sched m = err e"
proof -
  define m1 where "m1 = m\<lparr>qbrk := Suc (qbrk m), qavail := qavail m - 1\<rparr>"
  have m1: "qmalloc m = (m1, Some (qbrk m))" using assms(3) by (simp add: qmalloc_def m1_def)
  obtain en m2 q a where r: "insert_root p m1 = ok (Some en, m2, q)" "qinv m2 q [(a, p)]"
    using insert_root_result [of m1 p] assms by (auto simp: m1_def split: if_splits)
  show ?thesis
    using assms(1) by (simp add: parallel_search_static_def m1 r(1) read_root_fails [OF r(2) assms(4)])
qed

text \<open>
  Three ways the parallel search fails before it searches: for zero or fewer threads; when the
  root cannot be examined, it prints a message and goes on to read the file status it did not get;
  when the root directory cannot be opened, it prints a message and reads the null directory.
\<close>

theorem static_root_errors:
  assumes "length p < MAX_LENGTH" "4 \<le> qavail m"
  shows "(num_threads \<le> 0 \<longrightarrow> parallel_search_static fs pat p num_threads pc sched m = err Out_Of_Bounds) \<and>
    (0 < num_threads \<longrightarrow> fs_lstat fs p = None \<longrightarrow>
      parallel_search_static fs pat p num_threads pc sched m = err Uninit_Read) \<and>
    (0 < num_threads \<longrightarrow> fs_lstat fs p = Some Directory \<longrightarrow> fs_opendir fs p = None \<longrightarrow>
      parallel_search_static fs pat p num_threads pc sched m = err Null_Deref)"
  using static_root_fails [OF _ assms, of num_threads fs Uninit_Read] static_root_fails [OF _ assms, of num_threads fs Null_Deref]
  by (auto simp: root_error_def parallel_search_static_def)

lemma static_root_errors_witness:
  "parallel_search_static demo_fs ''cat'' ''r'' 0 (\<lambda>i. True) [] (demo_heap 4) = err Out_Of_Bounds \<and>
   parallel_search_static demo_fs ''cat'' ''gone'' 2 (\<lambda>i. True) [] (demo_heap 4) = err Uninit_Read"
  using static_root_errors [of "''r''" "demo_heap 4" 0 demo_fs "''cat''" "\<lambda>i. True" "[]"]
    static_root_errors [of "''gone''" "demo_heap 4" 2 demo_fs "''cat''" "\<lambda>i. True" "[]"]
  by (simp add: demo_heap_def MAX_LENGTH_def) (simp add: demo_fs_def)

end
