(* ===== verification/DynamicGrep.thy ===== *)
theory DynamicGrep
  imports StaticGrep
begin

text \<open>
  The parallel search with dynamic load balancing (\<open>pp_2/mini_grep.c\<close>, \<open>SHARED_init\<close>,
  \<open>SHARED_insert_file_element\<close>, \<open>parallel_search_dynamic_files_thread\<close>,
  \<open>parallel_search_dynamic_search_thread\<close>, \<open>parallel_search_dynamic\<close>). A first pool of threads
  walks the directories and puts the regular files into a shared queue; when it has finished, a
  second pool searches the files of that queue.
\<close>

section \<open>The code\<close>

definition SHARED_init :: "qheap \<Rightarrow> qheap \<times> queue option" where
  "SHARED_init m = create_queue m"

text \<open>
  The insertion runs under \<open>mutex_shared\<close>, which makes it one action. What else a turn does is on
  elements of the thread's own.
\<close>

definition SHARED_insert_file_element :: "qheap \<Rightarrow> queue option \<Rightarrow> qaddr option \<Rightarrow> (qheap \<times> queue option) res" where
  "SHARED_insert_file_element m shared el =
     (case shared of
        None \<Rightarrow> err Null_Deref
      | Some queue_files \<Rightarrow> rbind (insert_element m queue_files el) (\<lambda>(m1, q). ok (m1, Some q)))"

text \<open>One turn of \<open>parallel_search_dynamic_files_thread\<close>: directories are listed, files are shared.\<close>

definition files_turn :: "filesys \<Rightarrow> string \<Rightarrow> qaddr option \<Rightarrow> qheap \<Rightarrow> queue \<Rightarrow> queue option \<Rightarrow> int \<Rightarrow>
    (qheap \<times> queue \<times> queue option \<times> int) res" where
  "files_turn fs pat entry m queue shared n =
     rbind (remove_element m queue) (\<lambda>(element, queue1).
     rbind (qload m element) (\<lambda>e.
     (case fs_lstat fs (path_name e) of
        None \<Rightarrow> rbind (qfree m element) (\<lambda>m1. ok (m1, queue1, shared, n))
      | Some Symlink \<Rightarrow> rbind (qfree m element) (\<lambda>m1. ok (m1, queue1, shared, n))
      | Some Directory \<Rightarrow>
          (case fs_opendir fs (path_name e) of
             None \<Rightarrow> ok (m, queue1, shared, n)
           | Some (ds, bad) \<Rightarrow>
               rbind (read_entries entry (path_name e) ds m queue1) (\<lambda>(m1, queue2).
               rbind (qfree m1 element) (\<lambda>m2. ok (m2, queue2, shared, n))))
      | Some Regular \<Rightarrow>
          (case qmalloc_element m of
             (m1, None) \<Rightarrow> err (Exit_Call 1)
           | (m1, Some new_element) \<Rightarrow>
               rbind (set_path m1 (Some new_element) (path_name e)) (\<lambda>m2.
               rbind (SHARED_insert_file_element m2 shared (Some new_element)) (\<lambda>(m3, shared1).
               rbind (qfree m3 element) (\<lambda>m4. ok (m4, queue1, shared1, n)))))
      | Some OtherType \<Rightarrow> rbind (qfree m element) (\<lambda>m1. ok (m1, queue1, shared, n)))))"

text \<open>\<open>parallel_search_dynamic_search_thread\<close>: it lists no directories, and needs no entry buffer.\<close>

definition search_start :: "qheap \<Rightarrow> thread_args \<Rightarrow> (qheap \<times> worker) res" where
  "search_start m args =
     (case create_queue m of
        (m1, None) \<Rightarrow> err Null_Deref
      | (m1, Some q) \<Rightarrow>
          rbind (insert_inputs m1 q (elements args)) (\<lambda>(m2, q1).
          ok (m2, Searching (threadID args) (search_string args) None q1 0)))"

definition search_turn :: "filesys \<Rightarrow> string \<Rightarrow> qaddr option \<Rightarrow> qheap \<Rightarrow> queue \<Rightarrow> queue option \<Rightarrow> int \<Rightarrow>
    (qheap \<times> queue \<times> queue option \<times> int) res" where
  "search_turn fs pat entry m queue shared num_occurrences =
     rbind (remove_element m queue) (\<lambda>(element, queue1).
     rbind (qload m element) (\<lambda>e.
     if fs_lstat fs (path_name e) = Some Regular then
       (case fs_fopen fs (path_name e) of
          None \<Rightarrow> ok (m, queue1, shared, num_occurrences)
        | Some file_to_search \<Rightarrow>
            rbind (search_lines pat file_to_search num_occurrences) (\<lambda>n.
            rbind (qfree m element) (\<lambda>m1. ok (m1, queue1, shared, n))))
     else rbind (qfree m element) (\<lambda>m1. ok (m1, queue1, shared, num_occurrences))))"

definition files_code :: "filesys \<Rightarrow> thread_code" where
  "files_code fs =
     \<lparr>tc_start = thread_start, tc_turn = files_turn fs, tc_writes = False, tc_size = 256, tc_early = True\<rparr>"

definition search_code :: "filesys \<Rightarrow> thread_code" where
  "search_code fs =
     \<lparr>tc_start = search_start, tc_turn = search_turn fs, tc_writes = True, tc_size = SEARCH_STRING_SIZE,
      tc_early = False\<rparr>"

text \<open>
  The second part of the search: the files of the shared queue go to the searching threads. The
  main thread takes them out of the queue, and nobody shares it any longer.
\<close>

definition search_phase :: "filesys \<Rightarrow> string \<Rightarrow> (nat \<Rightarrow> bool) \<Rightarrow> actor list \<Rightarrow> int \<Rightarrow> pool_state \<Rightarrow> int res" where
  "search_phase fs pat pthread_create sched num_threads st =
     (case st_shared st of
        None \<Rightarrow> err Null_Deref
      | Some queue_files \<Rightarrow>
          rbind (run_workers (search_code fs) pat pthread_create sched num_threads (st_heap st) queue_files
              (st_results st) None) (\<lambda>st2.
          sum_results (st_results st2) 0))"

text \<open>The two pools have a schedule each, \<open>sched1\<close> and \<open>sched2\<close>, and a \<open>pthread_create\<close> each.\<close>

definition parallel_search_dynamic ::
  "filesys \<Rightarrow> string \<Rightarrow> string \<Rightarrow> int \<Rightarrow> (nat \<Rightarrow> bool) \<Rightarrow> (nat \<Rightarrow> bool) \<Rightarrow> actor list \<Rightarrow> actor list \<Rightarrow> qheap \<Rightarrow> int res" where
  "parallel_search_dynamic fs pat path num_threads pthread_create1 pthread_create2 sched1 sched2 m =
     (if num_threads \<le> 0 then err Out_Of_Bounds
      else
        (case qmalloc m of (m1, results) \<Rightarrow>
        rbind (alloc_root m1) (\<lambda>(entry, queue, element, m2).
        case SHARED_init m2 of (m3, shared) \<Rightarrow>
        rbind (place_root path queue element m3) (\<lambda>(m4, queue1).
        rbind (read_root fs entry m4 queue1) (\<lambda>(m5, queue2).
        rbind (run_workers (files_code fs) pat pthread_create1 sched1 num_threads m5 queue2
            (if results = None then [] else replicate (nat num_threads) None) shared) (\<lambda>st.
        search_phase fs pat pthread_create2 sched2 num_threads st))))))"

section \<open>The threads that look for files\<close>

definition regulars :: "filesys \<Rightarrow> string list \<Rightarrow> string list" where
  "regulars fs ps = filter (\<lambda>q. fs_lstat fs q = Some Regular) ps"

lemma files_turn_visit:
  assumes "qinv m q ((a, p) # ps)" "fs_lstat fs p \<noteq> Some Regular"
  shows "files_turn fs pat entry m q sq n = rbind (visit fs pat entry m q n) (\<lambda>(m1, q1, n1). ok (m1, q1, sq, n1))"
proof -
  from assms(1) obtain q1 where q1: "remove_element m q = ok (Some a, q1)"
    using remove_qrep by (fastforce simp: qinv_def)
  from assms(1) qrep_path [of m q "(a, p) # ps" a p] obtain e where e: "cells m a = Some e" "path_name e = p"
    by (auto simp: qinv_def path_at_def)
  have load: "qload m (Some a) = ok e" using e by (simp add: qload_def)
  show ?thesis
    unfolding files_turn_def visit_def q1 rbind_ok prod.case load e(2) using assms(2)
    by (auto split: option.split ftype.split simp: rbind_assoc intro!: arg_cong [where f = "rbind _"] ext)
qed

lemma files_turn_file:
  assumes "qinv m q ((a, p) # ps)" "shared_rep m (Some sq) sh" "insert a (fst ` set ps) \<inter> fst ` set sh = {}"
    and "fs_lstat fs p = Some Regular" "length p < MAX_LENGTH" "0 < qavail m"
  shows "\<exists>m' q' sq' newsh. files_turn fs pat entry m q (Some sq) n = ok (m', q', Some sq', n) \<and>
    turn_post m a [] [p] ps sh m' q' (Some sq') [] newsh"
proof -
  from assms(1) obtain q1 where q1: "remove_element m q = ok (Some a, q1)" "qrep m q1 ps"
    using remove_qrep by (fastforce simp: qinv_def)
  from assms(1) qrep_path [of m q "(a, p) # ps" a p] obtain e where e: "cells m a = Some e" "path_name e = p"
    by (auto simp: qinv_def path_at_def)
  have load: "qload m (Some a) = ok e" using e by (simp add: qload_def)
  have a: "a \<notin> fst ` set ps" "a < qbrk m" "a \<notin> fst ` set sh" "fst ` set sh \<inter> fst ` set ps = {}"
    and inv: "qinv m q1 ps" using assms(1,3) q1(2) by (auto simp: qinv_def qrep_def)
  obtain m1 where m1: "qmalloc_element m = (m1, Some (qbrk m))"
    using assms(6) by (simp add: qmalloc_element_def qmalloc_def)
  have shq: "qinv m sq sh" using assms(2) by (simp add: shared_rep_def)
  from insert_new [OF shq m1 assms(5)] obtain m2 m3 sq' where
    i: "set_path m1 (Some (qbrk m)) p = ok m2" "insert_element m2 sq (Some (qbrk m)) = ok (m3, sq')"
      "qinv m3 sq' (sh @ [(qbrk m, p)])" "qbrk m3 = Suc (qbrk m)" "Suc (qavail m3) = qavail m"
      "grows (fst ` set sh) m m3" by blast
  have inv3: "qinv m3 q1 ps" by (rule qinv_frame [OF inv i(6) a(4)])
  have "cells m3 a \<noteq> None" using growsD [OF i(6) a(2,3)] e(1) by simp
  from qfree_rep [OF inv3 a(1) this] obtain m4 where
    f: "qfree m3 (Some a) = ok m4" "qinv m4 q1 ps" "grows {a} m3 m4" "qavail m4 = qavail m3" by blast
  have s4: "qinv m4 sq' (sh @ [(qbrk m, p)])"
    by (rule qinv_frame [OF i(3) f(3)]) (use a in auto)
  have "grows (insert a (fst ` set ps \<union> fst ` set sh)) m m3" using i(6) by (simp add: grows_def)
  from grows_trans [OF this f(3)] have "grows (insert a (fst ` set ps \<union> fst ` set sh)) m m4" by simp
  then have "turn_post m a [] [p] ps sh m4 q1 (Some sq') [] [(qbrk m, p)]"
    using f(2,4) s4 i(5) by (simp add: turn_post_def shared_rep_def)
  moreover have "files_turn fs pat entry m q (Some sq) n = ok (m4, q1, Some sq', n)"
    unfolding files_turn_def q1(1) rbind_ok prod.case load e(2)
    by (simp add: assms(4) m1 i(1,2) SHARED_insert_file_element_def f(1))
  ultimately show ?thesis by blast
qed

lemma files_turn_rep:
  assumes "qinv m q ((a, p) # ps)" "shared_rep m sq sh" "sq \<noteq> None"
    and "insert a (fst ` set ps) \<inter> fst ` set sh = {}" "entry \<noteq> None" "paths_fit fs p" "0 \<le> n" "n \<le> INT_MAX"
    and "length (children fs p) + length (regulars fs [p]) \<le> qavail m"
  shows "\<exists>m' q' sq' new newsh. files_turn fs pat entry m q sq n = ok (m', q', sq', n) \<and>
    sq' \<noteq> None \<and> turn_post m a (children fs p) (regulars fs [p]) ps sh m' q' sq' new newsh"
proof (cases "fs_lstat fs p = Some Regular")
  case True
  obtain q2 where q2: "sq = Some q2" using assms(3) by auto
  have "0 < qavail m" using assms(9) True by (simp add: regulars_def)
  from files_turn_file [OF assms(1) assms(2)[unfolded q2] assms(4) True paths_fit_length [OF assms(6)] this, of pat entry n]
  obtain m' q' sq' newsh where "files_turn fs pat entry m q (Some q2) n = ok (m', q', Some sq', n)"
    "turn_post m a [] [p] ps sh m' q' (Some sq') [] newsh" by blast
  moreover have "children fs p = []" "regulars fs [p] = [p]" using True by (simp_all add: children_def regulars_def)
  ultimately show ?thesis unfolding q2 by (metis option.distinct(1))
next
  case False
  have pc: "path_count fs pat p = 0" "regulars fs [p] = []" using False by (simp_all add: path_count_def regulars_def)
  have "\<forall>c\<in>set (children fs p). length c < MAX_LENGTH"
    using paths_fit_children [OF assms(6)] paths_fit_length by blast
  then have nofail: "\<not> visit_fails fs pat m p n e" for e
    using assms(8,9) pc by (auto simp: visit_fails_def)
  from visit_rep [OF assms(1,5,7,8), of fs pat] nofail obtain r new where
    v: "visit fs pat entry m q n = ok r" "visit_ok fs pat m a p ps n r new" by blast
  obtain m' q' n' where r: "r = (m', q', n')" by (cases r) auto
  from v(2) r pc have ok: "n' = n" "qinv m' q' (ps @ new)" "map snd new = children fs p"
    "\<forall>b\<in>fst ` set new. qbrk m \<le> b" "grows (fst ` set ((a, p) # ps)) m m'" "qavail m' + length new = qavail m"
    by (simp_all add: visit_ok_def)
  have "shared_rep m' sq sh" by (rule shared_rep_frame [OF assms(2) ok(5)]) (use assms(4) in simp)
  moreover have "grows (insert a (fst ` set ps \<union> fst ` set sh)) m m'" using ok(5) by (simp add: grows_def)
  ultimately have "turn_post m a (children fs p) [] ps sh m' q' sq new []"
    using ok by (auto simp: turn_post_def)
  moreover have "files_turn fs pat entry m q sq n = ok (m', q', sq, n)"
    unfolding files_turn_visit [OF assms(1) False] v(1) r ok(1) by simp
  ultimately show ?thesis using assms(3) unfolding pc by blast
qed

text \<open>The regular files below a path, in no particular order: what goes into the shared queue.\<close>

definition files_below :: "filesys \<Rightarrow> string \<Rightarrow> string multiset" where
  "files_below fs p = mset (regulars fs (reach fs p))"

lemma mset_concat_map: "mset (concat (map f xs)) = sum_list (map (\<lambda>x. mset (f x)) xs)"
  by (induction xs) simp_all

lemma files_below_step:
  "paths_fit fs p \<Longrightarrow> files_below fs p = mset (regulars fs [p]) + sum_list (map (files_below fs) (children fs p))"
  using paths_fit_length [of fs p]
  by (simp add: files_below_def [abs_def] reach.simps [of fs p] regulars_def filter_concat mset_concat_map o_def
      del: mset_filter)

lemma size_files_below: "size (files_below fs p) = length (regulars fs (reach fs p))"
  unfolding files_below_def by (rule size_mset)

lemma size_sum_list: "size (sum_list ms) = sum_list (map size ms)" for ms :: "'a multiset list"
  by (induction ms) simp_all

interpretation finding: thread_pool "files_code fs" pat "children fs" "\<lambda>p. regulars fs [p]" "\<lambda>p. 0"
  "\<lambda>p. length (reach fs p)" "\<lambda>p. 0" "files_below fs" "\<lambda>p. length (reach fs p) - 1 + size (files_below fs p)" "paths_fit fs" 3
  "\<lambda>entry. entry \<noteq> None" "\<lambda>sq. sq \<noteq> None"
  for fs pat
proof unfold_locales
  fix w m i
  assume "distinct (map fst w)" "\<forall>x\<in>set w. path_at m (fst x) = Some (snd x) \<and> fst x < qbrk m" "3 \<le> qavail m"
  from thread_start_rep [OF this, of i pat]
  show "\<exists>m' entry q. tc_start (files_code fs) m \<lparr>threadID = i, elements = map (\<lambda>x. Some (fst x)) w, search_string = pat\<rparr> =
      ok (m', Searching i pat entry q 0) \<and> entry \<noteq> None \<and> qinv m' q w \<and> grows (fst ` set w) m m' \<and> qavail m' + 3 = qavail m"
    by (simp add: files_code_def)
next
  fix m q a p ps sq sh n and entry :: "qaddr option"
  assume a: "qinv m q ((a, p) # ps)" "shared_rep m sq sh" "sq \<noteq> None"
    "insert a (fst ` set ps) \<inter> fst ` set sh = {}" "entry \<noteq> None" "paths_fit fs p" "0 \<le> n"
    "n + int 0 \<le> INT_MAX" "length (children fs p) + length (regulars fs [p]) \<le> qavail m"
  from files_turn_rep [OF a(1-7) _ a(9), of pat] a(8)
  show "\<exists>m' q' sq' new newsh. tc_turn (files_code fs) pat entry m q sq n = ok (m', q', sq', n + int 0) \<and>
      sq' \<noteq> None \<and> turn_post m a (children fs p) (regulars fs [p]) ps sh m' q' sq' new newsh"
    by (simp add: files_code_def)
next
  fix p assume "paths_fit fs p"
  note fit = this
  show "length (reach fs p) = Suc (sum_list (map (\<lambda>p. length (reach fs p)) (children fs p)))"
    by (rule reach_size(1) [OF fit])
  show "files_below fs p = mset (regulars fs [p]) + sum_list (map (files_below fs) (children fs p))"
    by (rule files_below_step [OF fit])
  then have "size (files_below fs p) = length (regulars fs [p]) + sum_list (map (\<lambda>p. size (files_below fs p)) (children fs p))"
    by (simp add: size_sum_list o_def)
  with reach_size(2) [OF fit]
  show "length (reach fs p) - 1 + size (files_below fs p) = length (children fs p) + length (regulars fs [p]) +
      sum_list (map (\<lambda>p. length (reach fs p) - 1 + size (files_below fs p)) (children fs p))"
    by (simp add: sum_list_addf)
  fix c assume "c \<in> set (children fs p)"
  then show "paths_fit fs c" by (rule paths_fit_children [OF fit])
qed simp_all

section \<open>The threads that search the files\<close>

lemma search_start_rep:
  assumes "distinct (map fst w)" "\<forall>x\<in>set w. path_at m (fst x) = Some (snd x) \<and> fst x < qbrk m" "1 \<le> qavail m"
  shows "\<exists>m' entry q. search_start m \<lparr>threadID = i, elements = map (\<lambda>x. Some (fst x)) w, search_string = pat\<rparr> =
      ok (m', Searching i pat entry q 0) \<and> qinv m' q w \<and> grows (fst ` set w) m m' \<and> qavail m' + 1 = qavail m"
proof -
  define m3 where "m3 = m\<lparr>qbrk := Suc (qbrk m), qavail := qavail m - 1\<rparr>"
  have al: "create_queue m = (m3, Some \<lparr>q_head = None, q_tail = None\<rparr>)"
    using assms(3) by (simp add: create_queue_def qmalloc_def m3_def)
  have w3: "\<forall>x\<in>set w. path_at m3 (fst x) = Some (snd x) \<and> fst x < qbrk m3"
    using assms(2) by (force simp: m3_def path_at_def)
  have q3: "qinv m3 \<lparr>q_head = None, q_tail = None\<rparr> []" by (simp add: qinv_def qrep_def)
  from insert_inputs_rep [OF q3 w3] assms(1) obtain m' q' where
    r: "insert_inputs m3 \<lparr>q_head = None, q_tail = None\<rparr> (map (\<lambda>x. Some (fst x)) w) = ok (m', q')"
      "qinv m' q' w" "grows (fst ` set w) m3 m'" "qavail m' = qavail m3" by auto
  have "grows (fst ` set w) m m'" using r(3) by (auto simp: grows_def m3_def)
  then show ?thesis using al r assms(3) by (auto simp: search_start_def m3_def)
qed

lemma search_turn_rep:
  assumes "qinv m q ((a, p) # ps)" "shared_rep m sq sh" "sq = None" "0 \<le> n" "n + int (path_count fs pat p) \<le> INT_MAX"
  shows "\<exists>m' q' sq' new newsh. search_turn fs pat entry m q sq n = ok (m', q', sq', n + int (path_count fs pat p)) \<and>
    sq' = None \<and> turn_post m a [] [] ps sh m' q' sq' new newsh"
proof -
  from assms(1) obtain q1 where q1: "remove_element m q = ok (Some a, q1)" "qrep m q1 ps"
    using remove_qrep by (fastforce simp: qinv_def)
  from assms(1) qrep_path [of m q "(a, p) # ps" a p] obtain e where e: "cells m a = Some e" "path_name e = p"
    by (auto simp: qinv_def path_at_def)
  have load: "qload m (Some a) = ok e" using e by (simp add: qload_def)
  have a: "a \<notin> fst ` set ps" and inv: "qinv m q1 ps" using assms(1) q1(2) by (auto simp: qinv_def qrep_def)
  have sh: "sh = []" using assms(2,3) by (simp add: shared_rep_def)
  show ?thesis
  proof (cases "fs_lstat fs p = Some Regular")
    case False
    have pc: "path_count fs pat p = 0" using False by (simp add: path_count_def)
    have "cells m a \<noteq> None" using e by simp
    from qfree_rep [OF inv a this] obtain m' where
      f: "qfree m (Some a) = ok m'" "qinv m' q1 ps" "grows {a} m m'" "qavail m' = qavail m" by blast
    have "turn_post m a [] [] ps sh m' q1 None [] []"
      using f(2-4) by (simp add: turn_post_def shared_rep_def sh grows_def)
    moreover have "search_turn fs pat entry m q sq n = ok (m', q1, None, n + int (path_count fs pat p))"
      unfolding search_turn_def q1(1) rbind_ok prod.case load e(2) using False f(1) assms(3) by (simp add: pc)
    ultimately show ?thesis by blast
  next
    case True
    have ch: "children fs p = []" using True by (simp add: children_def)
    have same: "search_turn fs pat entry m q sq n = static_turn fs pat (Some 0) m q sq n"
      unfolding search_turn_def static_turn_def visit_def q1(1) rbind_ok prod.case load e(2)
      by (cases "fs_fopen fs p") (simp_all add: True rbind_assoc)
    have "n \<le> INT_MAX" using assms(5) by simp
    moreover have "\<not> visit_fails fs pat m p n e" for e
      using assms(5) ch by (auto simp: visit_fails_def)
    ultimately obtain r new where
      v: "visit fs pat (Some 0) m q n = ok r" "visit_ok fs pat m a p ps n r new"
      using visit_rep [OF assms(1) _ assms(4), of "Some 0" fs pat] by blast
    obtain m' q' n' where r: "r = (m', q', n')" by (cases r) auto
    have "turn_post m a [] [] ps sh m' q' None [] []"
      using v(2) r sh ch by (auto simp: turn_post_def visit_ok_def shared_rep_def)
    moreover have "search_turn fs pat entry m q sq n = ok (m', q', None, n + int (path_count fs pat p))"
      unfolding same using v r assms(3) by (simp add: static_turn_def visit_ok_def)
    ultimately show ?thesis by blast
  qed
qed

interpretation searching: thread_pool "search_code fs" pat "\<lambda>p. []" "\<lambda>p. []" "path_count fs pat"
  "\<lambda>p. 1" "path_count fs pat" "\<lambda>p. {#}" "\<lambda>p. 0" "\<lambda>p. True" 1 "\<lambda>entry. True" "\<lambda>sq. sq = None"
  for fs pat
proof unfold_locales
  fix w m i
  assume "distinct (map fst w)" "\<forall>x\<in>set w. path_at m (fst x) = Some (snd x) \<and> fst x < qbrk m" "1 \<le> qavail m"
  from search_start_rep [OF this, of i pat]
  show "\<exists>m' entry q. tc_start (search_code fs) m \<lparr>threadID = i, elements = map (\<lambda>x. Some (fst x)) w, search_string = pat\<rparr> =
      ok (m', Searching i pat entry q 0) \<and> True \<and> qinv m' q w \<and> grows (fst ` set w) m m' \<and> qavail m' + 1 = qavail m"
    by (simp add: search_code_def)
next
  fix m q a p ps sq sh n and entry :: "qaddr option"
  assume "qinv m q ((a, p) # ps)" "shared_rep m sq sh" "sq = None" "0 \<le> n" "n + int (path_count fs pat p) \<le> INT_MAX"
  from search_turn_rep [OF this, of entry]
  show "\<exists>m' q' sq' new newsh. tc_turn (search_code fs) pat entry m q sq n = ok (m', q', sq', n + int (path_count fs pat p)) \<and>
      sq' = None \<and> turn_post m a [] [] ps sh m' q' sq' new newsh"
    by (simp add: search_code_def)
qed (simp_all add: search_code_def)

section \<open>The two pools together\<close>

text \<open>What the files of a multiset of paths contain is what is below the paths.\<close>

lemma counts_files_below: "sum_mset (image_mset (path_count fs pat) (files_below fs p)) = occurrences fs pat p"
proof -
  have "sum_list (map (path_count fs pat) (regulars fs ps)) = sum_list (map (path_count fs pat) ps)" for ps
    by (induction ps) (simp_all add: regulars_def path_count_def)
  then show ?thesis
    unfolding files_below_def occurrences_def mset_map [symmetric] sum_mset_sum_list .
qed

lemma todo_mset: "todo f ps = sum_mset (image_mset f (mset (map snd ps)))"
  unfolding mset_map [symmetric] sum_mset_sum_list todo_def by (simp add: o_def)

lemma counts_todo: "sum_mset (image_mset (path_count fs pat) (todo (files_below fs) ps)) = todo (occurrences fs pat) ps"
  by (induction ps) (simp_all add: counts_files_below)

lemma size_todo: "size (todo f ps) = todo (\<lambda>p. size (f p)) ps"
  for f :: "string \<Rightarrow> 'a multiset"
  by (induction ps) simp_all

definition dynamic_resources :: "filesys \<Rightarrow> string \<Rightarrow> string \<Rightarrow> nat \<Rightarrow> qheap \<Rightarrow> bool" where
  "dynamic_resources fs pat p T m \<longleftrightarrow>
     paths_fit fs p \<and> int (occurrences fs pat p) \<le> INT_MAX \<and> length pat < SEARCH_STRING_SIZE \<and>
     0 < T \<and> int T \<le> INT_MAX \<and> length (children fs p) \<le> T * MAX_ELEMENTS_Q \<and>
     int (length (children fs p)) \<le> INT_MAX \<and> size (files_below fs p) \<le> T * MAX_ELEMENTS_Q \<and>
     int (size (files_below fs p)) \<le> INT_MAX \<and>
     length (reach fs p) + size (files_below fs p) + 8 * T + 5 \<le> qavail m"

text \<open>The second pool, on the state the first one leaves.\<close>

lemma searching_result:
  fixes sched :: "actor list"
  assumes "shared_rep (st_heap st) (st_shared st) sh" "st_shared st = Some q" "st_results st = replicate T None"
    and "0 < T" "int T \<le> INT_MAX" "length sh \<le> T * MAX_ELEMENTS_Q" "int (length sh) \<le> INT_MAX"
    and "length pat < SEARCH_STRING_SIZE" "\<forall>i<T. pc i" "int (todo (path_count fs pat) sh) \<le> INT_MAX"
    and "T * 3 \<le> qavail (st_heap st)"
  defines "r \<equiv> search_phase fs pat pc sched (int T) st"
  shows "r \<in> {None, ok (int (todo (path_count fs pat) sh))}"
    and "turns_given T (length sh) sched \<Longrightarrow> r = ok (int (todo (path_count fs pat) sh))"
proof -
  have q: "qinv (st_heap st) q sh" using assms(1,2) by (simp add: shared_rep_def)
  have none: "shared_rep (st_heap st) None []" "fst ` set sh \<inter> fst ` set [] = {}" by (simp_all add: shared_rep_def)
  have good: "\<forall>x\<in>set sh. True" by simp
  have size: "length pat < tc_size (search_code fs)" using assms(8) by (simp add: search_code_def)
  have mem: "todo (\<lambda>p. 0) sh + T * (1 + 2) + 0 \<le> qavail (st_heap st)" using assms(11) by (simp add: todo_def)
  note go = searching.pool_runs [OF q none(1) refl none(2) good assms(4-7) size assms(9,10) mem, of sched]
  have fin: "sum_results (st_results st2) 0 = ok (int (todo (path_count fs pat) sh))"
    if "searching.pool_done fs T (int (todo (path_count fs pat) sh)) (mset (map snd []) + todo (\<lambda>p. {#}) sh) 0 st2" for st2
    using that unfolding searching.pool_done_def by (simp add: search_code_def)
  have w: "todo (\<lambda>p. 1) sh = length sh" by (simp add: todo_def sum_list_triv)
  show "r \<in> {None, ok (int (todo (path_count fs pat) sh))}"
    using go(1) fin unfolding r_def search_phase_def assms(2,3) by auto
  assume "turns_given T (length sh) sched"
  with go(2) fin show "r = ok (int (todo (path_count fs pat) sh))" unfolding r_def search_phase_def assms(2,3) w by auto
qed

lemma parallel_search_dynamic_result:
  fixes sched1 sched2 :: "actor list"
  assumes "fs_lstat fs p \<noteq> None" "fs_lstat fs p = Some Directory \<longrightarrow> fs_opendir fs p \<noteq> None"
    "dynamic_resources fs pat p T m" "\<forall>i<T. pc1 i" "\<forall>i<T. pc2 i"
  defines "r \<equiv> parallel_search_dynamic fs pat p (int T) pc1 pc2 sched1 sched2 m"
    and "tot \<equiv> int (sum_list (map (occurrences fs pat) (children fs p)))"
  shows "r \<in> {None, ok tot}" and "fair fs p T sched1 \<Longrightarrow> fair fs p T sched2 \<Longrightarrow> r = ok tot"
proof -
  note res = assms(3) [unfolded dynamic_resources_def]
  have fit: "paths_fit fs p" using res by simp
  have len: "length p < MAX_LENGTH" using paths_fit_length [OF fit] .
  note size = reach_size [OF fit]
  define m1 where "m1 = m\<lparr>qbrk := Suc (qbrk m), qavail := qavail m - 1\<rparr>"
  have m1: "qmalloc m = (m1, Some (qbrk m))" "qavail m1 = qavail m - 1" using res by (simp_all add: qmalloc_def m1_def)
  define m2 where "m2 = \<lparr>cells = (cells m1)(qbrk m1 + 2 \<mapsto> \<lparr>path_name = [], qe_next = None\<rparr>), qbrk = qbrk m1 + 3,
    qavail = qavail m1 - 3\<rparr>"
  have m2: "alloc_root m1 = ok (Some (qbrk m1), Some \<lparr>q_head = None, q_tail = None\<rparr>, Some (qbrk m1 + 2), m2)"
    using alloc_root_result [of m1] res m1(2) by (auto simp: m2_def split: if_splits)
  define m3 where "m3 = m2\<lparr>qbrk := Suc (qbrk m2), qavail := qavail m2 - 1\<rparr>"
  have "0 < qavail m2" using res m1(2) by (simp add: m2_def) 
  then have m3: "SHARED_init m2 = (m3, Some \<lparr>q_head = None, q_tail = None\<rparr>)"
    by (simp add: SHARED_init_def create_queue_def qmalloc_def m3_def)
  have "cells m3 (qbrk m1 + 2) \<noteq> None" "qbrk m1 + 2 < qbrk m3" by (simp_all add: m3_def m2_def)
  from place_root_result [OF this, of p] len obtain m4 q where
    r: "place_root p (Some \<lparr>q_head = None, q_tail = None\<rparr>) (Some (qbrk m1 + 2)) m3 = ok (m4, q)"
      "qinv m4 q [(qbrk m1 + 2, p)]" "qavail m4 = qavail m3" by (auto simp: not_le [symmetric])
  have av: "qavail m4 + 5 = qavail m"
    using res r(3) m1(2) by (simp add: m3_def m2_def)
  have "length (children fs p) \<le> qavail m4" using size(2) av res by linarith
  from read_root_rep [OF r(2) assms(1,2) fit this, of "qbrk m1"] obtain m5 q1 mw where
    rr: "read_root fs (Some (qbrk m1)) m4 q = ok (m5, q1)" "qinv m5 q1 mw" "map snd mw = children fs p"
      "qavail m5 + length mw = qavail m4" by blast
  have lmw: "length mw = length (children fs p)" by (metis rr(3) length_map)
  note td = todo_paths [OF rr(3)]
  let ?run = "run_workers (files_code fs) pat pc1 sched1 (int T) m5 q1 (replicate T None) (Some \<lparr>q_head = None, q_tail = None\<rparr>)"
  define search where "search = search_phase fs pat pc2 sched2 (int T)"
  have run: "r = rbind ?run search"
    unfolding search_def r_def parallel_search_dynamic_def m1(1) prod.case m2 rbind_ok m3 r(1) rr(1) using res by simp
  have sh: "shared_rep m5 (Some \<lparr>q_head = None, q_tail = None\<rparr>) []" "fst ` set mw \<inter> fst ` set [] = {}"
    "Some \<lparr>q_head = None, q_tail = None\<rparr> \<noteq> None"
    by (simp_all add: shared_rep_def qinv_def qrep_def)
  have "\<forall>c\<in>set (children fs p). paths_fit fs c" using paths_fit_children [OF fit] by blast
  then have fits: "\<forall>x\<in>set mw. paths_fit fs (snd x)" unfolding rr(3) [symmetric] by simp
  have T: "0 < T" "int T \<le> INT_MAX" "length mw \<le> T * MAX_ELEMENTS_Q" "int (length mw) \<le> INT_MAX"
    "length pat < tc_size (files_code fs)" using res lmw by (simp_all add: files_code_def SEARCH_STRING_SIZE_def)
  have files: "todo (\<lambda>p. size (files_below fs p)) mw \<le> size (files_below fs p)"
    using arg_cong [OF files_below_step [OF fit], of size] by (simp add: td size_sum_list o_def)
  have mem: "todo (\<lambda>p. length (reach fs p) - 1 + size (files_below fs p)) mw + T * (3 + 2) + T * 3 \<le> qavail m5"
  proof -
    let ?S = "sum_list (map (\<lambda>p. length (reach fs p) - 1) (children fs p))"
    have "?S + length mw + 1 = length (reach fs p)" using size lmw by simp
    moreover have "length (reach fs p) + size (files_below fs p) + 8 * T + 5 \<le> qavail m" using res by simp
    moreover have "todo (\<lambda>p. length (reach fs p) - 1 + size (files_below fs p)) mw = ?S + todo (\<lambda>p. size (files_below fs p)) mw"
      by (simp add: td sum_list_addf)
    ultimately have "todo (\<lambda>p. length (reach fs p) - 1 + size (files_below fs p)) mw + 8 * T \<le> qavail m5"
      using files rr(4) av by linarith
    then show ?thesis by (simp add: algebra_simps)
  qed
  have z: "int (todo (\<lambda>p. 0) mw) \<le> INT_MAX" by (simp add: td INT_MAX_def)
  note go = finding.pool_runs [OF rr(2) sh(1,3,2) fits T assms(4) z mem, of sched1]
  have tot: "tot \<le> INT_MAX" using res occurrences_step [OF len, of fs pat] by (simp add: tot_def)
  let ?done = "finding.pool_done fs T (int (todo (\<lambda>p. 0) mw))
    (mset (map snd ([] :: (qaddr \<times> string) list)) + todo (files_below fs) mw) (T * 3)"
  have second: "search st \<in> {None, ok tot}" "fair fs p T sched2 \<Longrightarrow> search st = ok tot"
    if d: "?done st" for st
  proof -
    from d obtain shf q2 where s: "shared_rep (st_heap st) (st_shared st) shf" "mset (map snd shf) = todo (files_below fs) mw"
      "st_shared st = Some q2" "st_results st = replicate T None" "T * 3 \<le> qavail (st_heap st)"
      unfolding finding.pool_done_def by (auto simp: files_code_def simp del: mset_map)
    have "todo (path_count fs pat) shf = todo (occurrences fs pat) mw"
      unfolding todo_mset [of _ shf] s(2) counts_todo ..
    then have cnt: "int (todo (path_count fs pat) shf) = tot" by (simp add: tot_def td)
    have lsh: "length shf \<le> size (files_below fs p)"
    proof -
      have "length shf = size (mset (map snd shf))" by simp
      then show ?thesis unfolding s(2) size_todo using files by simp
    qed
    have b: "length shf \<le> T * MAX_ELEMENTS_Q" "int (length shf) \<le> INT_MAX" "length pat < SEARCH_STRING_SIZE"
      "int (todo (path_count fs pat) shf) \<le> INT_MAX"
      using res lsh cnt tot by linarith+
    note sr = searching_result [OF s(1,3,4) T(1,2) b(1-3) assms(5) b(4) s(5), of sched2]
    show "search st \<in> {None, ok tot}" using sr(1) unfolding search_def cnt by simp
    assume "fair fs p T sched2"
    moreover have "size (files_below fs p) \<le> length (reach fs p)"
      by (simp add: size_files_below regulars_def)
    ultimately have "turns_given T (length shf) sched2"
      unfolding fair_def using lsh by (auto intro: turns_given_mono)
    from sr(2) [OF this] show "search st = ok tot" unfolding search_def cnt by simp
  qed
  show "r \<in> {None, ok tot}"
  proof (rule disjE [OF go(1)])
    assume "\<exists>st. ?run = ok st \<and> ?done st"
    then show ?thesis
    proof (elim exE conjE)
      fix st assume st: "?run = ok st" "?done st"
      show ?thesis unfolding run st(1) rbind_ok by (rule second(1) [OF st(2)])
    qed
  qed (simp add: run)
  assume f: "fair fs p T sched1" "fair fs p T sched2"
  have "todo (\<lambda>p. length (reach fs p)) mw \<le> length (reach fs p)" using size(1) by (simp add: td)
  then have "turns_given T (todo (\<lambda>p. length (reach fs p)) mw) sched1"
    by (rule turns_given_mono [OF f(1) [unfolded fair_def]])
  from go(2) [OF this] show "r = ok tot"
  proof (elim exE conjE)
    fix st assume st: "?run = ok st" "?done st"
    show ?thesis unfolding run st(1) rbind_ok by (rule second(2) [OF st(2) f(2)])
  qed
qed

lemma dynamic_root_fails:
  assumes "0 < num_threads" "length p < MAX_LENGTH" "5 \<le> qavail m" "root_error fs p = Some e"
  shows "parallel_search_dynamic fs pat p num_threads pc1 pc2 sched1 sched2 m = err e"
proof -
  define m1 where "m1 = m\<lparr>qbrk := Suc (qbrk m), qavail := qavail m - 1\<rparr>"
  have m1: "qmalloc m = (m1, Some (qbrk m))" using assms(3) by (simp add: qmalloc_def m1_def)
  let ?new = "Some \<lparr>q_head = None, q_tail = None\<rparr>"
  obtain en a m2 where m2: "alloc_root m1 = ok (en, ?new, Some a, m2)" "cells m2 a \<noteq> None" "a < qbrk m2" "0 < qavail m2"
    using alloc_root_result [of m1] assms(3) by (auto simp: m1_def split: if_splits)
  obtain m3 where m3: "SHARED_init m2 = (m3, ?new)" "cells m3 a \<noteq> None" "a < qbrk m3"
    using m2(2-4) by (auto simp: SHARED_init_def create_queue_def qmalloc_def)
  obtain m4 q where r: "place_root p ?new (Some a) m3 = ok (m4, q)" "qinv m4 q [(a, p)]"
    using place_root_result [OF m3(2,3), of p] assms(2) by (auto simp: not_le [symmetric])
  show ?thesis
    using assms(1) by (simp add: parallel_search_dynamic_def m1 m2(1) m3(1) r(1) read_root_fails [OF r(2) assms(4)])
qed

section \<open>Properties of the dynamic search\<close>

lemma demo_files_below: "files_below demo_fs ''r'' = {#''r/a'', ''r/d/b''#}"
  by (simp add: files_below_def regulars_def demo_reach) (simp add: demo_fs_def)

lemma demo_dynamic_resources: "dynamic_resources demo_fs ''cat'' ''r'' 2 (demo_heap 40)"
  by (simp add: dynamic_resources_def paths_fit_def demo_reach demo_children demo_occurrences demo_files_below
      MAX_LENGTH_def INT_MAX_def demo_heap_def SEARCH_STRING_SIZE_def MAX_ELEMENTS_Q_def)

text \<open>
  C6: for a root that is a directory, with names, pattern and counts that fit, enough memory, and as
  many entries and files per thread as the argument array holds, the dynamic parallel search
  returns what the serial search returns, under every pair of schedules that give the threads of
  the two pools enough turns. It counts no file twice and misses none, although all threads of the
  first pool put files into one queue.
\<close>

theorem dynamic_equals_serial:
  assumes "fs_lstat fs p = Some Directory" "fs_opendir fs p \<noteq> None" "dynamic_resources fs pat p T m"
    and "\<forall>i<T. create1 i \<and> create2 i" "fair fs p T sched1" "fair fs p T sched2"
  shows "\<exists>n m'. parallel_search_dynamic fs pat p (int T) create1 create2 sched1 sched2 m = ok n \<and>
    serial_search fs pat p m = ok (m', n) \<and> n = int (occurrences fs pat p)"
proof -
  note res = assms(3) [unfolded dynamic_resources_def]
  have fit: "paths_fit fs p" using res by simp
  have len: "length p < MAX_LENGTH" using paths_fit_length [OF fit] .
  have "length (reach fs p) + 2 \<le> qavail m" using res by linarith
  from serial_search_counts [OF fit this, of pat] res
  have "\<exists>m'. serial_search fs pat p m = ok (m', int (occurrences fs pat p))" by (simp add: occurrences_def)
  moreover have "parallel_search_dynamic fs pat p (int T) create1 create2 sched1 sched2 m = ok (int (occurrences fs pat p))"
    using parallel_search_dynamic_result(2) [of fs p, OF _ _ assms(3) _ _ assms(5,6)] assms(1,2,4)
      static_count_directory [OF assms(1) len] by simp
  ultimately show ?thesis by blast
qed

lemma dynamic_equals_serial_witness:
  "parallel_search_dynamic demo_fs ''cat'' ''r'' 2 (\<lambda>i. True) (\<lambda>i. True) demo_sched demo_sched (demo_heap 40) = ok 3"
  using dynamic_equals_serial [OF demo_static(1,2) demo_dynamic_resources _ demo_fair demo_fair, of "\<lambda>i. True" "\<lambda>i. True"]
  by (simp add: demo_static(3))

text \<open>
  C29: under the same conditions no pair of schedules makes the dynamic search fail or return another
  count: whatever the threads have done, the main thread is still waiting for them or returns the
  number of occurrences. For a root that is a regular file it returns 0 at most, as nobody searches
  the root itself.
\<close>

theorem dynamic_any_schedule:
  assumes "fs_lstat fs p = Some Directory \<and> fs_opendir fs p \<noteq> None \<or> fs_lstat fs p = Some Regular"
    and "dynamic_resources fs pat p T m" "\<forall>i<T. create1 i \<and> create2 i"
  shows "parallel_search_dynamic fs pat p (int T) create1 create2 sched1 sched2 m \<in>
    {None, ok (if fs_lstat fs p = Some Regular then 0 else int (occurrences fs pat p))}"
proof -
  have len: "length p < MAX_LENGTH" using assms(2) paths_fit_length unfolding dynamic_resources_def by blast
  show ?thesis
  proof (cases "fs_lstat fs p = Some Regular")
    case True
    then have "children fs p = []" by (simp add: children_def)
    with parallel_search_dynamic_result(1) [of fs p, OF _ _ assms(2), of create1 create2 sched1 sched2] assms(3) True
    show ?thesis by simp
  next
    case False
    with assms(1) have d: "fs_lstat fs p = Some Directory" "fs_opendir fs p \<noteq> None" by auto
    with parallel_search_dynamic_result(1) [of fs p, OF _ _ assms(2), of create1 create2 sched1 sched2] assms(3)
      static_count_directory [OF d(1) len]
    show ?thesis by simp
  qed
qed

lemma dynamic_any_schedule_witness:
  "parallel_search_dynamic demo_fs ''cat'' ''r'' 2 (\<lambda>i. True) (\<lambda>i. True) [Worker 1, Main, Worker 0] [Main] (demo_heap 40)
    \<in> {None, ok 3}"
  using dynamic_any_schedule [of demo_fs "''r''" "''cat''" 2 "demo_heap 40" "\<lambda>i. True" "\<lambda>i. True"
    "[Worker 1, Main, Worker 0]" "[Main]"] demo_static(1,2) demo_dynamic_resources
  by (simp add: demo_static(3))

end
