(* ===== verification/GrepMain.thy ===== *)
theory GrepMain
  imports DynamicGrep
begin

text \<open>
  The main function of mini_grep (\<open>pp_2/mini_grep.c\<close>, \<open>main\<close>): its arguments, the serial search, and
  one of the two parallel searches, on the memory the serial search leaves.
\<close>

section \<open>The code\<close>

text \<open>\<open>VERBOSE\<close> is true unless the sixth argument is \<open>false\<close>.\<close>

definition set_verbose :: "string list \<Rightarrow> bool" where
  "set_verbose argv =
     (if length argv = 6 then
        (if argv ! 5 = ''true'' then True else if argv ! 5 = ''false'' then False else True)
      else True)"

text \<open>
  \<open>argc\<close> is the length of \<open>argv\<close>. \<open>mutex_init\<close> says whether the first and the second call of
  \<open>pthread_mutex_init\<close> succeed. The result is \<open>VERBOSE\<close> and the two counts that are printed.
\<close>

definition grep_main :: "filesys \<Rightarrow> string list \<Rightarrow> (nat \<Rightarrow> bool) \<Rightarrow> (nat \<Rightarrow> bool) \<Rightarrow> (nat \<Rightarrow> bool) \<Rightarrow>
    actor list \<Rightarrow> actor list \<Rightarrow> qheap \<Rightarrow> (bool \<times> int \<times> int) res" where
  "grep_main fs argv mutex_init create1 create2 sched1 sched2 m =
     (if length argv < 5 then err (Exit_Call 1)
      else if \<not> mutex_init 0 then err (Exit_Call 1)
      else if \<not> mutex_init 1 then err (Exit_Call 1)
      else
        rbind (serial_search fs (argv ! 1) (argv ! 2) m) (\<lambda>(m1, num_serial).
        rbind
          (if argv ! 4 = ''static'' then
             rbind (c_atoi (argv ! 3)) (\<lambda>k. parallel_search_static fs (argv ! 1) (argv ! 2) k create1 sched1 m1)
           else if argv ! 4 = ''dynamic'' then
             rbind (c_atoi (argv ! 3)) (\<lambda>k.
               parallel_search_dynamic fs (argv ! 1) (argv ! 2) k create1 create2 sched1 sched2 m1)
           else
             rbind (c_atoi (argv ! 3)) (\<lambda>k. parallel_search_static fs (argv ! 1) (argv ! 2) k create1 sched1 m1))
          (\<lambda>num_occurrences. ok (set_verbose argv, num_serial, num_occurrences))))"

section \<open>Properties of the program\<close>

text \<open>What the program needs: the memory of the serial search comes on top.\<close>

definition grep_resources :: "filesys \<Rightarrow> string \<Rightarrow> string \<Rightarrow> nat \<Rightarrow> qheap \<Rightarrow> bool" where
  "grep_resources fs pat p T m \<longleftrightarrow>
     length (reach fs p) + 2 \<le> qavail m \<and>
     dynamic_resources fs pat p T (m\<lparr>qavail := qavail m - (length (reach fs p) + 2)\<rparr>)"

lemma grep_resources_after:
  assumes "grep_resources fs pat p T m" "qavail m1 + length (reach fs p) + 2 = qavail m"
  shows "dynamic_resources fs pat p T m1" "static_resources fs pat p T m1"
proof -
  have q: "qavail m - (length (reach fs p) + 2) = qavail m1" using assms(2) by linarith
  have "dynamic_resources fs pat p T (m\<lparr>qavail := qavail m1\<rparr>)"
    using assms(1) unfolding grep_resources_def q by simp
  then show "dynamic_resources fs pat p T m1" by (simp add: dynamic_resources_def)
  then show "static_resources fs pat p T m1"
    unfolding dynamic_resources_def static_resources_def by linarith
qed

lemma grep_main_result:
  assumes "argv = [prog, pat, p, dec_nat T, mode] @ extra" "mutex_init 0" "mutex_init 1"
    and "fs_lstat fs p \<noteq> None" "fs_lstat fs p = Some Directory \<longrightarrow> fs_opendir fs p \<noteq> None"
    and "grep_resources fs pat p T m" "\<forall>i<T. create1 i \<and> create2 i" "fair fs p T sched1" "fair fs p T sched2"
  shows "grep_main fs argv mutex_init create1 create2 sched1 sched2 m =
    ok (set_verbose argv, int (occurrences fs pat p), int (sum_list (map (occurrences fs pat) (children fs p))))"
proof -
  have res: "paths_fit fs p" "length (reach fs p) + 2 \<le> qavail m" "int (occurrences fs pat p) \<le> INT_MAX" "int T \<le> INT_MAX"
    using assms(6) by (simp_all add: grep_resources_def dynamic_resources_def)
  from serial_search_ok [OF res(1-3)] obtain m1 where
    s: "serial_search fs pat p m = ok (m1, int (occurrences fs pat p))" "qavail m1 + length (reach fs p) + 2 = qavail m"
    by blast
  note r = grep_resources_after [OF assms(6) s(2)]
  have c: "\<forall>i<T. create1 i" "\<forall>i<T. create2 i" using assms(7) by simp_all
  note st = parallel_search_static_result(2) [OF assms(4,5) r(2) c(1) assms(8)]
  note dy = parallel_search_dynamic_result(2) [OF assms(4,5) r(1) c assms(8,9)]
  have a: "c_atoi (argv ! 3) = ok (int T)" using atoi_dec_nat [OF res(4)] by (simp add: assms(1))
  have n: "argv ! 1 = pat" "argv ! 2 = p" "5 \<le> length argv" by (simp_all add: assms(1))
  show ?thesis
    unfolding grep_main_def n(1,2) s(1) a rbind_ok prod.case st dy using n(3) assms(2,3) by simp
qed

text \<open>
  C3: the two counts the program prints are equal, and are the number of matching words below the
  root, whatever the mode and the schedules of the threads: for a root that can be opened as a
  directory, a number of threads that fits, enough memory and enough turns for every thread.
\<close>

theorem grep_main_counts_agree:
  assumes "argv = [prog, pat, p, dec_nat T, mode] @ extra" "mutex_init 0" "mutex_init 1"
    and "fs_lstat fs p = Some Directory" "fs_opendir fs p \<noteq> None"
    and "grep_resources fs pat p T m" "\<forall>i<T. create1 i \<and> create2 i" "fair fs p T sched1" "fair fs p T sched2"
  shows "grep_main fs argv mutex_init create1 create2 sched1 sched2 m =
    ok (set_verbose argv, int (occurrences fs pat p), int (occurrences fs pat p))"
proof -
  have "length p < MAX_LENGTH"
    using assms(6) paths_fit_length unfolding grep_resources_def dynamic_resources_def by blast
  from grep_main_result [OF assms(1-3) _ _ assms(6-9)] assms(4,5) static_count_directory [OF assms(4) this]
  show ?thesis by simp
qed

lemma demo_grep_resources: "grep_resources demo_fs ''cat'' ''r'' 2 (demo_heap 50)"
  unfolding grep_resources_def dynamic_resources_def
  by (simp add: paths_fit_def demo_reach demo_children demo_occurrences demo_files_below MAX_LENGTH_def
      INT_MAX_def demo_heap_def SEARCH_STRING_SIZE_def MAX_ELEMENTS_Q_def)

lemma dec_nat_2: "dec_nat 2 = ''2''"
  by code_simp

lemma grep_main_counts_agree_witness:
  "grep_main demo_fs [''mini_grep'', ''cat'', ''r'', ''2'', ''dynamic'', ''false''] (\<lambda>i. True) (\<lambda>i. True) (\<lambda>i. True)
     demo_sched demo_sched (demo_heap 50) = ok (False, 3, 3)"
  using grep_main_counts_agree [OF _ _ _ demo_static(1,2) demo_grep_resources _ demo_fair demo_fair,
      of "[''mini_grep'', ''cat'', ''r'', ''2'', ''dynamic'', ''false'']" "''mini_grep''" "''dynamic''" "[''false'']"
      "\<lambda>i. True" "\<lambda>i. True" "\<lambda>i. True"]
  by (simp add: dec_nat_2 demo_static(3) set_verbose_def)

text \<open>
  Given the name of a regular file, the program prints two different counts: the words the serial
  search finds in it, and 0, in every mode.
\<close>

theorem grep_main_file_root:
  assumes "argv = [prog, pat, p, dec_nat T, mode] @ extra" "mutex_init 0" "mutex_init 1"
    and "fs_lstat fs p = Some Regular"
    and "grep_resources fs pat p T m" "\<forall>i<T. create1 i \<and> create2 i" "fair fs p T sched1" "fair fs p T sched2"
  shows "grep_main fs argv mutex_init create1 create2 sched1 sched2 m =
    ok (set_verbose argv, int (path_count fs pat p), 0)"
proof -
  have len: "length p < MAX_LENGTH"
    using assms(5) paths_fit_length unfolding grep_resources_def dynamic_resources_def by blast
  have "children fs p = []" using assms(4) by (simp add: children_def)
  with grep_main_result [OF assms(1-3) _ _ assms(5-8)] assms(4) occurrences_step [OF len, of fs pat]
  show ?thesis by simp
qed

lemma grep_main_file_root_witness:
  "grep_main demo_fs [''mini_grep'', ''cat'', ''r/a'', ''2'', ''static''] (\<lambda>i. True) (\<lambda>i. True) (\<lambda>i. True)
     demo_sched demo_sched (demo_heap 50) = ok (True, 2, 0)"
proof -
  have reach: "reach demo_fs ''r/a'' = [''r/a'']"
    by (simp add: reach.simps [of demo_fs "''r/a''"] demo_children MAX_LENGTH_def)
  have reg: "fs_lstat demo_fs ''r/a'' = Some Regular" by (simp add: demo_fs_def)
  have res: "grep_resources demo_fs ''cat'' ''r/a'' 2 (demo_heap 50)"
    unfolding grep_resources_def dynamic_resources_def
    by (simp add: paths_fit_def reach demo_children occurrences_def demo_counts files_below_def regulars_def reg
        MAX_LENGTH_def INT_MAX_def demo_heap_def SEARCH_STRING_SIZE_def MAX_ELEMENTS_Q_def)
  have fair: "fair demo_fs ''r/a'' 2 demo_sched"
    using demo_fair unfolding fair_def by (rule turns_given_mono) (simp add: reach demo_reach)
  show ?thesis
    using grep_main_file_root [OF _ _ _ reg res _ fair fair,
      of "[''mini_grep'', ''cat'', ''r/a'', ''2'', ''static'']" "''mini_grep''" "''static''" "[]"
      "\<lambda>i. True" "\<lambda>i. True" "\<lambda>i. True"]
    by (simp add: dec_nat_2 demo_counts set_verbose_def)
qed

lemma grep_main_root_fails:
  assumes "argv = [prog, pat, p, dec_nat T, mode] @ extra" "mutex_init 0" "mutex_init 1" "length p < MAX_LENGTH"
    and "8 \<le> qavail m" "0 < T" "int T \<le> INT_MAX" "root_error fs p = Some e"
  shows "grep_main fs argv mutex_init create1 create2 sched1 sched2 m = err e"
proof -
  have ch: "children fs p = []" and pc: "path_count fs pat p = 0"
    using assms(8) by (auto simp: root_error_def children_def path_count_def split: if_splits)
  have reach: "reach fs p = [p]" by (simp add: reach.simps [of fs p] ch)
  have fit: "paths_fit fs p" using assms(4) by (simp add: paths_fit_def reach)
  have occ: "occurrences fs pat p = 0" by (simp add: occurrences_def reach pc)
  obtain m1 where s: "serial_search fs pat p m = ok (m1, 0)" "qavail m1 + 3 = qavail m"
    using serial_search_ok [OF fit, of m pat] assms(5) by (auto simp: reach occ INT_MAX_def)
  have mem: "5 \<le> qavail m1" using s(2) assms(5) by linarith
  have a: "c_atoi (argv ! 3) = ok (int T)" using atoi_dec_nat [OF assms(7)] by (simp add: assms(1))
  have n: "argv ! 1 = pat" "argv ! 2 = p" "5 \<le> length argv" by (simp_all add: assms(1))
  have T: "0 < int T" using assms(6) by simp
  note st = static_root_fails [OF T assms(4) _ assms(8)] and dy = dynamic_root_fails [OF T assms(4) mem assms(8)]
  show ?thesis
    unfolding grep_main_def n(1,2) s(1) a rbind_ok prod.case dy using st mem n(3) assms(2,3) by simp
qed

text \<open>
  With fewer than four arguments, or when a mutex cannot be created, the program exits with
  status 1 before it searches. With a root it cannot examine it prints a serial count of 0, and then
  reads a file status it never got; with a directory it cannot open it reads a null directory stream.
\<close>

theorem grep_main_errors:
  "(length argv < 5 \<or> \<not> mutex_init 0 \<or> \<not> mutex_init 1 \<longrightarrow>
      grep_main fs argv mutex_init create1 create2 sched1 sched2 m = err (Exit_Call 1)) \<and>
   (argv = [prog, pat, p, dec_nat T, mode] @ extra \<longrightarrow> mutex_init 0 \<longrightarrow> mutex_init 1 \<longrightarrow>
      length p < MAX_LENGTH \<longrightarrow> 8 \<le> qavail m \<longrightarrow> 0 < T \<longrightarrow> int T \<le> INT_MAX \<longrightarrow>
      (fs_lstat fs p = None \<longrightarrow> grep_main fs argv mutex_init create1 create2 sched1 sched2 m = err Uninit_Read) \<and>
      (fs_lstat fs p = Some Directory \<longrightarrow> fs_opendir fs p = None \<longrightarrow>
        grep_main fs argv mutex_init create1 create2 sched1 sched2 m = err Null_Deref))"
  using grep_main_root_fails [of argv prog pat p T mode extra mutex_init m fs _ create1 create2 sched1 sched2]
  by (auto simp: grep_main_def root_error_def)

lemma grep_main_errors_witness:
  "grep_main demo_fs [''mini_grep''] (\<lambda>i. True) (\<lambda>i. True) (\<lambda>i. True) [] [] (demo_heap 8) = err (Exit_Call 1) \<and>
   grep_main demo_fs [''mini_grep'', ''cat'', ''gone'', ''2'', ''dynamic''] (\<lambda>i. True) (\<lambda>i. True) (\<lambda>i. True)
     [] [] (demo_heap 8) = err Uninit_Read"
proof -
  have gone: "fs_lstat demo_fs ''gone'' = None" by (simp add: demo_fs_def)
  show ?thesis
    using grep_main_errors [of "[''mini_grep'']" "\<lambda>i. True" demo_fs "\<lambda>i. True" "\<lambda>i. True" "[]" "[]" "demo_heap 8"]
      grep_main_errors [of "[''mini_grep'', ''cat'', ''gone'', ''2'', ''dynamic'']" "\<lambda>i. True" demo_fs "\<lambda>i. True"
        "\<lambda>i. True" "[]" "[]" "demo_heap 8" "''mini_grep''" "''cat''" "''gone''" 2 "''dynamic''" "[]"] gone
    by (simp add: dec_nat_2 MAX_LENGTH_def INT_MAX_def demo_heap_def)
qed

end
