(* ===== verification/QueueTest.thy ===== *)
theory QueueTest
  imports MiniGrep
begin

text \<open>
  The test program of the work queue (\<open>pp_2/test.c\<close>): it inserts 256 elements named by their
  numbers and prints how many elements the queue has.
\<close>

text \<open>
  The loop from \<open>i\<close> on. Neither \<open>create_queue\<close> nor \<open>malloc\<close> is checked: a missing element is
  dereferenced by \<open>strcpy\<close>, a missing queue by \<open>insert_element\<close>.
\<close>

partial_function (option) test_fill :: "int \<Rightarrow> qheap \<Rightarrow> queue option \<Rightarrow> (qheap \<times> queue option) res" where
  "test_fill i m q =
     (if i < 256
      then (case qmalloc_element m of (m1, q_el) \<Rightarrow>
        rbind (set_path m1 q_el (dec_int i)) (\<lambda>m2.
        (case q of
           None \<Rightarrow> err Null_Deref
         | Some qu \<Rightarrow>
             rbind (insert_element m2 qu q_el) (\<lambda>(m3, qu').
             test_fill (i + 1) m3 (Some qu')))))
      else ok (m, q))"

text \<open>The number that is printed at the end.\<close>

definition queue_test_main :: "qheap \<Rightarrow> (qheap \<times> queue \<times> int) res" where
  "queue_test_main m =
     (case create_queue m of (m1, q) \<Rightarrow>
      rbind (test_fill 0 m1 q) (\<lambda>(m2, q2).
      (case q2 of
         None \<Rightarrow> err Null_Deref
       | Some qu \<Rightarrow> rbind (num_elements m2 qu) (\<lambda>n. ok (m2, qu, n)))))"

lemma number_fits: "length (dec_int (int i)) < MAX_LENGTH" if "i < 256"
proof -
  have "i < 10 ^ Suc 2" using that by simp
  from dec_nat_length [OF this] show ?thesis by (simp add: dec_int_def MAX_LENGTH_def)
qed

lemma test_fill_from:
  assumes "qinv m q ps" "i \<le> 256"
  shows "if 256 - i \<le> qavail m
    then \<exists>m' q' new. test_fill (int i) m (Some q) = ok (m', Some q') \<and> qinv m' q' (ps @ new) \<and>
      map snd new = map (\<lambda>k. dec_int (int k)) [i..<256]
    else test_fill (int i) m (Some q) = err Null_Deref"
  using assms
proof (induction "256 - i" arbitrary: i m q ps)
  case 0
  then show ?case by (subst (1 2) test_fill.simps) (intro if_bool_eq_conj [THEN iffD2] conjI impI; fastforce)
next
  case (Suc n)
  then have i: "i < 256" by simp
  have fits: "length (dec_int (int i)) < MAX_LENGTH" by (rule number_fits [OF i])
  show ?case
  proof (cases "qavail m = 0")
    case True
    then have "qmalloc_element m = (m, None)" by (simp add: qmalloc_element_def qmalloc_def)
    then have "test_fill (int i) m (Some q) = err Null_Deref"
      using i fits by (subst test_fill.simps) (simp add: set_path_def qstore_def)
    with True i show ?thesis by simp
  next
    case False
    then obtain m1 a where a: "qmalloc_element m = (m1, Some a)"
      by (auto simp: qmalloc_element_def qmalloc_def)
    from insert_new [OF Suc.prems(1) a fits] obtain m2 m3 q' where
      1: "set_path m1 (Some a) (dec_int (int i)) = ok m2" "insert_element m2 q (Some a) = ok (m3, q')"
        "qinv m3 q' (ps @ [(a, dec_int (int i))])" "Suc (qavail m3) = qavail m" by blast
    have step: "test_fill (int i) m (Some q) = test_fill (int (Suc i)) m3 (Some q')"
      using i 1 a by (subst test_fill.simps) (simp add: add.commute)
    have "n = 256 - Suc i" "Suc i \<le> 256" using Suc.hyps(2) i by simp_all
    from Suc.hyps(1) [OF this(1) 1(3) this(2)] have IH:
      "if 256 - Suc i \<le> qavail m3
       then \<exists>m' q'' new. test_fill (int (Suc i)) m3 (Some q') = ok (m', Some q'') \<and>
         qinv m' q'' ((ps @ [(a, dec_int (int i))]) @ new) \<and> map snd new = map (\<lambda>k. dec_int (int k)) [Suc i..<256]
       else test_fill (int (Suc i)) m3 (Some q') = err Null_Deref" .
    have le: "256 - i \<le> qavail m \<longleftrightarrow> 256 - Suc i \<le> qavail m3" using 1(4) i by linarith
    have up: "[i..<256] = i # [Suc i..<256]" using i by (rule upt_conv_Cons)
    show ?thesis
    proof (cases "256 - i \<le> qavail m")
      case True
      with IH le obtain m' q'' new where 2: "test_fill (int (Suc i)) m3 (Some q') = ok (m', Some q'')"
        "qinv m' q'' ((ps @ [(a, dec_int (int i))]) @ new)" "map snd new = map (\<lambda>k. dec_int (int k)) [Suc i..<256]" by auto
      have "qinv m' q'' (ps @ ((a, dec_int (int i)) # new))" using 2(2) by simp
      moreover have "map snd ((a, dec_int (int i)) # new) = map (\<lambda>k. dec_int (int k)) [i..<256]"
        unfolding up using 2(3) by simp
      ultimately show ?thesis using True 2(1) unfolding step by (simp only: if_True) blast
    next
      case False
      with IH le show ?thesis unfolding step by simp
    qed
  qed
qed

text \<open>
  With memory for the queue and 256 elements the program ends, prints 256, and the queue holds
  the numbers in the order they were inserted; with less memory it follows a null pointer.
\<close>

theorem queue_test_result:
  "if 257 \<le> qavail m
   then \<exists>m' q. queue_test_main m = ok (m', q, 256) \<and>
     print_queue m' q = ok (map (\<lambda>k. dec_int (int k)) [0..<256] @ [''NULL''])
   else queue_test_main m = err Null_Deref"
proof (cases "qavail m = 0")
  case True
  have "length (dec_int 0) < MAX_LENGTH" using number_fits [of 0] by simp
  with True show ?thesis
    by (simp add: queue_test_main_def create_queue_def qmalloc_def test_fill.simps [of 0] qmalloc_element_def set_path_def qstore_def)
next
  case False
  let ?q = "\<lparr>q_head = None, q_tail = None\<rparr>" and ?m = "m\<lparr>qbrk := Suc (qbrk m), qavail := qavail m - 1\<rparr>"
  have c: "create_queue m = (?m, Some ?q)" using False by (simp add: create_queue_def qmalloc_def)
  have "qinv ?m ?q []" by (simp add: qinv_def qrep_def)
  from test_fill_from [OF this, of 0] have f: "if 256 \<le> qavail ?m
    then \<exists>m' q' new. test_fill 0 ?m (Some ?q) = ok (m', Some q') \<and> qinv m' q' new \<and>
      map snd new = map (\<lambda>k. dec_int (int k)) [0..<256]
    else test_fill 0 ?m (Some ?q) = err Null_Deref" by (simp only: append.simps of_nat_0 minus_nat.diff_0 le0 True_implies_equals)
  show ?thesis
  proof (cases "257 \<le> qavail m")
    case True
    then have "256 \<le> qavail ?m" by simp
    from f [unfolded if_P [OF this]] obtain m' q' new where 1: "test_fill 0 ?m (Some ?q) = ok (m', Some q')" "qinv m' q' new"
      "map snd new = map (\<lambda>k. dec_int (int k)) [0..<256]" by blast
    have "length new = length (map snd new)" by simp
    then have len: "length new = 256" unfolding 1(3) by simp
    have rep: "qrep m' q' new" using 1(2) by (simp add: qinv_def)
    have "num_elements m' q' = ok 256" using num_elements_rep [OF rep] by (simp add: len INT_MAX_def)
    moreover have "print_queue m' q' = ok (map (\<lambda>k. dec_int (int k)) [0..<256] @ [''NULL''])"
      using print_loop_chain [of m' "q_head q'" new "[]"] rep 1(3) by (simp only: print_queue_def qrep_def append.simps)
    ultimately show ?thesis using True 1(1) c by (simp add: queue_test_main_def del: upt_rec_numeral)
  next
    case False
    then have "\<not> 256 \<le> qavail ?m" by simp
    from f [unfolded if_not_P [OF this]] have "test_fill 0 ?m (Some ?q) = err Null_Deref" .
    with False c show ?thesis by (simp add: queue_test_main_def)
  qed
qed

end
