(* ===== verification/ProdCons.thy ===== *)
theory ProdCons
  imports Prelude "HOL-Library.Multiset"
begin

text \<open>
  The producer and the consumers of \<open>pe_3\<close> (\<open>producer.c\<close>, \<open>consumer.c\<close>, \<open>buffer.h\<close>): processes
  that share a buffer of 25 work items and three semaphores. Each process is a program counter
  over its \<open>main\<close>; a step of the system is a step of one process, so a run is an interleaving.
\<close>

section \<open>State\<close>

definition BUF_SIZE :: int where "BUF_SIZE = 25"
definition MAX_NUM_CONSUMERS :: nat where "MAX_NUM_CONSUMERS = 100"

text \<open>
  Where the producer is, with the values of \<open>i\<close> and \<open>item\<close> it still needs. Everything between
  \<open>lock_shared_mem\<close> and \<open>unlock_shared_mem\<close> that only touches the buffer is one step; each
  semaphore operation is a step of its own. Rests do nothing: other processes may move at any
  point anyway. No handler is installed, so \<open>flag_int\<close> stays false and is left out.
\<close>

datatype producer_pc =
    P_Lock_Init | P_Init | P_Unlock_Init
  | P_For int                  \<comment> \<open>test of the loop, and producing the item\<close>
  | P_Lock int int
  | P_Check int int            \<comment> \<open>is the buffer full?\<close>
  | P_Full_Unlock int int
  | P_Wait int int             \<comment> \<open>wait_for_consumer\<close>
  | P_Relock int int
  | P_Put int int
  | P_Signal int               \<comment> \<open>signal_consumer\<close>
  | P_Unlock int
  | P_While
  | P_Lock_End
  | P_Test_End
  | P_Post_End nat             \<comment> \<open>posts left for the consumers\<close>
  | P_Unlock_End
  | P_Unlink
  | P_Exit

datatype consumer_pc =
    C_While
  | C_Lock0 | C_Read | C_Unlock0
  | C_Wait                     \<comment> \<open>wait_for_producer\<close>
  | C_Lock1
  | C_Take
  | C_Signal                   \<comment> \<open>signal_producer\<close>
  | C_Unlock1
  | C_Exit

record consumer =
  c_pc :: consumer_pc
  c_finished :: bool           \<comment> \<open>the local \<open>finished\<close>\<close>
  num_items_consumed :: int

record system =
  work :: "int list"
  b_in :: int
  b_out :: int
  is_full :: bool
  is_finished :: bool
  sem_1 :: nat
  sem_2 :: nat
  sem_3 :: nat
  p_pc :: producer_pc
  p_finished :: bool           \<comment> \<open>the local \<open>finished\<close> of the producer\<close>
  consumers :: "consumer list"
  made :: "int list"           \<comment> \<open>the items put into the buffer so far\<close>
  eaten :: "int list"          \<comment> \<open>the items taken out of it so far\<close>

section \<open>Semaphores\<close>

text \<open>\<open>sem_wait\<close> does not return as long as the value is 0.\<close>

definition sem_wait :: "nat \<Rightarrow> nat res" where
  "sem_wait n = (case n of 0 \<Rightarrow> None | Suc k \<Rightarrow> ok k)"

definition sem_post :: "nat \<Rightarrow> nat" where
  "sem_post n = Suc n"

definition lock_shared_mem :: "system \<Rightarrow> system res" where
  "lock_shared_mem s = rbind (sem_wait (sem_3 s)) (\<lambda>v. ok (s\<lparr>sem_3 := v\<rparr>))"

definition unlock_shared_mem :: "system \<Rightarrow> system" where
  "unlock_shared_mem s = s\<lparr>sem_3 := sem_post (sem_3 s)\<rparr>"

definition wait_for_consumer :: "system \<Rightarrow> system res" where
  "wait_for_consumer s = rbind (sem_wait (sem_1 s)) (\<lambda>v. ok (s\<lparr>sem_1 := v\<rparr>))"

definition signal_consumer :: "system \<Rightarrow> system" where
  "signal_consumer s = s\<lparr>sem_2 := sem_post (sem_2 s)\<rparr>"

definition wait_for_producer :: "system \<Rightarrow> system res" where
  "wait_for_producer s = rbind (sem_wait (sem_2 s)) (\<lambda>v. ok (s\<lparr>sem_2 := v\<rparr>))"

definition signal_producer :: "system \<Rightarrow> system" where
  "signal_producer s = s\<lparr>sem_1 := sem_post (sem_1 s)\<rparr>"

section \<open>The producer\<close>

definition initialize_buffer :: "system \<Rightarrow> system" where
  "initialize_buffer s = s\<lparr>b_in := 0, b_out := 0, is_finished := False, is_full := False\<rparr>"

text \<open>Storing an item at the top, which becomes the item to consume next.\<close>

definition put_item :: "int \<Rightarrow> system \<Rightarrow> system res" where
  "put_item item s =
     (if 0 \<le> b_in s \<and> b_in s < int (length (work s))
      then ok (s\<lparr>work := (work s)[nat (b_in s) := item], b_out := b_in s, b_in := b_in s + 1,
                 made := made s @ [item]\<rparr>)
      else err Out_Of_Bounds)"

text \<open>
  A step of the producer with \<open>num_items\<close> items to produce; \<open>work_item\<close> is what
  \<open>produce_work_item\<close> returns, if it is called in this step. No value of \<open>None\<close> means that the
  producer ended; it means that it cannot move now.
\<close>

definition producer_step :: "int \<Rightarrow> int \<Rightarrow> system \<Rightarrow> system res" where
  "producer_step num_items work_item s =
     (case p_pc s of
        P_Lock_Init \<Rightarrow> rbind (lock_shared_mem s) (\<lambda>s1. ok (s1\<lparr>p_pc := P_Init\<rparr>))
      | P_Init \<Rightarrow> ok ((initialize_buffer s)\<lparr>p_pc := P_Unlock_Init\<rparr>)
      | P_Unlock_Init \<Rightarrow> ok ((unlock_shared_mem s)\<lparr>p_pc := P_For 0\<rparr>)
      | P_For i \<Rightarrow> ok (s\<lparr>p_pc := if i < num_items then P_Lock i work_item else P_While\<rparr>)
      | P_Lock i item \<Rightarrow> rbind (lock_shared_mem s) (\<lambda>s1. ok (s1\<lparr>p_pc := P_Check i item\<rparr>))
      | P_Check i item \<Rightarrow>
          if b_in s = BUF_SIZE then ok (s\<lparr>is_full := True, p_pc := P_Full_Unlock i item\<rparr>)
          else ok (s\<lparr>p_pc := P_Put i item\<rparr>)
      | P_Full_Unlock i item \<Rightarrow> ok ((unlock_shared_mem s)\<lparr>p_pc := P_Wait i item\<rparr>)
      | P_Wait i item \<Rightarrow> rbind (wait_for_consumer s) (\<lambda>s1. ok (s1\<lparr>p_pc := P_Relock i item\<rparr>))
      | P_Relock i item \<Rightarrow> rbind (lock_shared_mem s) (\<lambda>s1. ok (s1\<lparr>p_pc := P_Put i item\<rparr>))
      | P_Put i item \<Rightarrow> rbind (put_item item s) (\<lambda>s1. ok (s1\<lparr>p_pc := P_Signal i\<rparr>))
      | P_Signal i \<Rightarrow> ok ((signal_consumer s)\<lparr>p_pc := P_Unlock i\<rparr>)
      | P_Unlock i \<Rightarrow> ok ((unlock_shared_mem s)\<lparr>p_pc := P_For (i + 1)\<rparr>)
      | P_While \<Rightarrow> ok (s\<lparr>p_pc := if p_finished s then P_Unlink else P_Lock_End\<rparr>)
      | P_Lock_End \<Rightarrow> rbind (lock_shared_mem s) (\<lambda>s1. ok (s1\<lparr>p_pc := P_Test_End\<rparr>))
      | P_Test_End \<Rightarrow>
          if b_in s = 0 then ok (s\<lparr>is_finished := True, p_finished := True, p_pc := P_Post_End MAX_NUM_CONSUMERS\<rparr>)
          else ok (s\<lparr>p_pc := P_Unlock_End\<rparr>)
      | P_Post_End n \<Rightarrow>
          (case n of 0 \<Rightarrow> ok (s\<lparr>p_pc := P_Unlock_End\<rparr>)
           | Suc k \<Rightarrow> ok ((signal_consumer s)\<lparr>p_pc := P_Post_End k\<rparr>))
      | P_Unlock_End \<Rightarrow> ok ((unlock_shared_mem s)\<lparr>p_pc := P_While\<rparr>)
      | P_Unlink \<Rightarrow> ok (s\<lparr>p_pc := P_Exit\<rparr>)
      | P_Exit \<Rightarrow> None)"

section \<open>The consumers\<close>

text \<open>Taking the item at the top, and noting that the buffer is not full any more.\<close>

definition take_item :: "system \<Rightarrow> (bool \<times> system) res" where
  "take_item s =
     (if 0 \<le> b_out s \<and> b_out s < int (length (work s))
      then ok (is_full s,
        s\<lparr>b_out := b_out s - 1, b_in := b_in s - 1, is_full := False,
          eaten := eaten s @ [work s ! nat (b_out s)]\<rparr>)
      else err Out_Of_Bounds)"

definition goto :: "nat \<Rightarrow> consumer_pc \<Rightarrow> system \<Rightarrow> system" where
  "goto i pc s = s\<lparr>consumers := (consumers s)[i := (consumers s ! i)\<lparr>c_pc := pc\<rparr>]\<rparr>"

definition consumer_step :: "nat \<Rightarrow> system \<Rightarrow> system res" where
  "consumer_step i s =
     (let c = consumers s ! i in
      case c_pc c of
        C_While \<Rightarrow> ok (goto i (if c_finished c then C_Exit else C_Lock0) s)
      | C_Lock0 \<Rightarrow> rbind (lock_shared_mem s) (\<lambda>s1. ok (goto i C_Read s1))
      | C_Read \<Rightarrow>
          ok (s\<lparr>consumers := (consumers s)[i := c\<lparr>c_finished := is_finished s, c_pc := C_Unlock0\<rparr>]\<rparr>)
      | C_Unlock0 \<Rightarrow> ok (goto i (if c_finished c then C_Exit else C_Wait) (unlock_shared_mem s))
      | C_Wait \<Rightarrow> rbind (wait_for_producer s) (\<lambda>s1. ok (goto i C_Lock1 s1))
      | C_Lock1 \<Rightarrow> rbind (lock_shared_mem s) (\<lambda>s1. ok (goto i C_Take s1))
      | C_Take \<Rightarrow>
          rbind (take_item s) (\<lambda>(full, s1).
          ok (s1\<lparr>consumers := (consumers s)[i := c\<lparr>num_items_consumed := num_items_consumed c + 1,
                c_pc := if full then C_Signal else C_Unlock1\<rparr>]\<rparr>))
      | C_Signal \<Rightarrow> ok (goto i C_Unlock1 (signal_producer s))
      | C_Unlock1 \<Rightarrow> ok (goto i C_While (unlock_shared_mem s))
      | C_Exit \<Rightarrow> None)"

section \<open>Runs\<close>

inductive pc_step :: "int \<Rightarrow> system \<Rightarrow> system \<Rightarrow> bool" for num_items where
  producer: "producer_step num_items item s = ok s' \<Longrightarrow> pc_step num_items s s'"
| consumer: "i < length (consumers s) \<Longrightarrow> consumer_step i s = ok s' \<Longrightarrow> pc_step num_items s s'"

inductive_cases pc_stepE: "pc_step num_items s s'"

text \<open>
  The memory and the semaphores as the producer creates them, with \<open>n\<close> consumers started. The
  local variables \<open>finished\<close> are not initialised; the theorems say which values they assume.
\<close>

definition start :: "bool \<Rightarrow> bool list \<Rightarrow> system" where
  "start pf cf =
     \<lparr>work = replicate 25 0, b_in = 0, b_out = 0, is_full = False, is_finished = False,
      sem_1 = 0, sem_2 = 0, sem_3 = 1, p_pc = P_Lock_Init, p_finished = pf,
      consumers = map (\<lambda>f. \<lparr>c_pc = C_While, c_finished = f, num_items_consumed = 0\<rparr>) cf,
      made = [], eaten = []\<rparr>"

inductive reachable :: "int \<Rightarrow> system \<Rightarrow> system \<Rightarrow> bool" for num_items s0 where
  init: "reachable num_items s0 s0"
| step: "reachable num_items s0 s \<Longrightarrow> pc_step num_items s s' \<Longrightarrow> reachable num_items s0 s'"

section \<open>Starting and ending\<close>

text \<open>
  Which calls of the operating system succeed: \<open>shm_open\<close>, \<open>mmap\<close>, and \<open>sem_open\<close>,
  \<open>sem_unlink\<close> for each of the three names, and \<open>shm_unlink\<close>.
\<close>

record os_calls =
  os_shm_open :: bool
  os_mmap :: bool
  os_sem_open :: "nat \<Rightarrow> bool"
  os_sem_unlink :: "nat \<Rightarrow> bool"
  os_shm_unlink :: bool

definition initialize_sems :: "os_calls \<Rightarrow> unit res" where
  "initialize_sems os =
     (if \<not> os_sem_open os 1 then err (Exit_Call 1)
      else if \<not> os_sem_open os 2 then err (Exit_Call 1)
      else if \<not> os_sem_open os 3 then err (Exit_Call 1) else ok ())"

text \<open>
  Whether the memory is mapped. A failing \<open>mmap\<close> returns \<open>MAP_FAILED\<close>, which is not null, so
  the test in the code does not see it.
\<close>

definition initialize_shared_mem :: "os_calls \<Rightarrow> bool res" where
  "initialize_shared_mem os = (if os_shm_open os then ok (os_mmap os) else err (Exit_Call 1))"

text \<open>The producer up to its loop, when it starts with \<open>argc\<close> arguments; it ends at the first write to the memory it did not get.\<close>

definition producer_start :: "os_calls \<Rightarrow> int \<Rightarrow> bool \<Rightarrow> bool list \<Rightarrow> system res" where
  "producer_start os argc pf cf =
     (if argc \<noteq> 2 then err (Exit_Call 1)
      else
        rbind (initialize_shared_mem os) (\<lambda>mapped.
        rbind (initialize_sems os) (\<lambda>_.
        if mapped then ok (start pf cf) else err Bad_Deref)))"

text \<open>A consumer up to its loop, with its local \<open>finished\<close> as it happens to be.\<close>

definition consumer_start :: "os_calls \<Rightarrow> bool \<Rightarrow> consumer res" where
  "consumer_start os f =
     (if \<not> os_shm_open os then err (Exit_Call 1)
      else
        rbind (initialize_sems os) (\<lambda>_.
        if os_mmap os then ok \<lparr>c_pc = C_While, c_finished = f, num_items_consumed = 0\<rparr>
        else if f then err (Exit_Call 0) else err Bad_Deref))"

definition unlink_all :: "os_calls \<Rightarrow> unit res" where
  "unlink_all os =
     (if \<not> os_sem_unlink os 1 then err (Exit_Call 1)
      else if \<not> os_sem_unlink os 2 then err (Exit_Call 1)
      else if \<not> os_sem_unlink os 3 then err (Exit_Call 1)
      else if \<not> os_shm_unlink os then err (Exit_Call 1)
      else ok ())"

section \<open>Mutual exclusion\<close>

definition cnt :: "(consumer \<Rightarrow> bool) \<Rightarrow> consumer list \<Rightarrow> nat" where
  "cnt P cs = sum_list (map (\<lambda>c. if P c then 1 else 0) cs)"

lemma cnt_upd:
  "i < length cs \<Longrightarrow> cnt P (cs[i := c]) + (if P (cs ! i) then 1 else 0) = cnt P cs + (if P c then 1 else 0)"
proof (induction cs arbitrary: i)
  case (Cons x cs)
  then show ?case by (cases i) (auto simp: cnt_def)
qed simp

lemma cnt_pos: "i < length cs \<Longrightarrow> P (cs ! i) \<Longrightarrow> 0 < cnt P cs"
  using cnt_upd [of i cs P "cs ! i"] by (induction cs arbitrary: i) (auto simp: cnt_def nth_Cons split: nat.splits if_splits)

lemma cnt_ge2:
  assumes "i < length cs" "j < length cs" "i \<noteq> j" "P (cs ! i)" "P (cs ! j)"
  shows "2 \<le> cnt P cs"
  using assms
proof (induction cs arbitrary: i j)
  case (Cons x cs)
  show ?case
  proof (cases i)
    case 0
    with Cons.prems obtain j' where "j = Suc j'" by (cases j) auto
    with 0 Cons.prems cnt_pos [of j' cs P] show ?thesis by (simp add: cnt_def)
  next
    case (Suc i')
    show ?thesis
    proof (cases j)
      case 0
      with Suc Cons.prems cnt_pos [of i' cs P] show ?thesis by (simp add: cnt_def)
    next
      case (Suc j')
      with \<open>i = Suc i'\<close> Cons.prems Cons.IH [of i' j'] show ?thesis by (simp add: cnt_def)
    qed
  qed
qed simp

text \<open>The processes between a lock and the matching unlock.\<close>

definition c_critical :: "consumer \<Rightarrow> bool" where
  "c_critical c \<longleftrightarrow> c_pc c \<in> {C_Read, C_Unlock0, C_Take, C_Signal, C_Unlock1}"

definition p_critical :: "producer_pc \<Rightarrow> bool" where
  "p_critical pc \<longleftrightarrow> (case pc of P_Init \<Rightarrow> True | P_Unlock_Init \<Rightarrow> True | P_Check _ _ \<Rightarrow> True | P_Full_Unlock _ _ \<Rightarrow> True
     | P_Put _ _ \<Rightarrow> True | P_Signal _ \<Rightarrow> True | P_Unlock _ \<Rightarrow> True | P_Test_End \<Rightarrow> True | P_Post_End _ \<Rightarrow> True
     | P_Unlock_End \<Rightarrow> True | _ \<Rightarrow> False)"

definition mutex :: "system \<Rightarrow> bool" where
  "mutex s \<longleftrightarrow> sem_3 s + (if p_critical (p_pc s) then 1 else 0) + cnt c_critical (consumers s) = 1"

lemmas sem_defs = lock_shared_mem_def unlock_shared_mem_def wait_for_consumer_def signal_consumer_def
  wait_for_producer_def signal_producer_def sem_wait_def sem_post_def rbind_eq_ok

lemma producer_mutex: "producer_step n item s = ok s' \<Longrightarrow> mutex s \<Longrightarrow> mutex s'"
  by (cases "p_pc s") (auto simp: producer_step_def mutex_def p_critical_def sem_defs initialize_buffer_def put_item_def
      split: if_splits nat.splits)

lemma consumer_stepE [consumes 1, case_names While Lock0 Read Unlock0 Wait Lock1 Take Signal Unlock1]:
  assumes "consumer_step i s = ok s'"
  obtains "c_pc (consumers s ! i) = C_While"
      "s' = goto i (if c_finished (consumers s ! i) then C_Exit else C_Lock0) s"
    | k where "c_pc (consumers s ! i) = C_Lock0" "sem_3 s = Suc k" "s' = goto i C_Read (s\<lparr>sem_3 := k\<rparr>)"
    | "c_pc (consumers s ! i) = C_Read"
      "s' = s\<lparr>consumers := (consumers s)[i := (consumers s ! i)\<lparr>c_finished := is_finished s, c_pc := C_Unlock0\<rparr>]\<rparr>"
    | "c_pc (consumers s ! i) = C_Unlock0"
      "s' = goto i (if c_finished (consumers s ! i) then C_Exit else C_Wait) (s\<lparr>sem_3 := Suc (sem_3 s)\<rparr>)"
    | k where "c_pc (consumers s ! i) = C_Wait" "sem_2 s = Suc k" "s' = goto i C_Lock1 (s\<lparr>sem_2 := k\<rparr>)"
    | k where "c_pc (consumers s ! i) = C_Lock1" "sem_3 s = Suc k" "s' = goto i C_Take (s\<lparr>sem_3 := k\<rparr>)"
    | "c_pc (consumers s ! i) = C_Take" "0 \<le> b_out s" "b_out s < int (length (work s))"
      "s' = s\<lparr>b_out := b_out s - 1, b_in := b_in s - 1, is_full := False,
          eaten := eaten s @ [work s ! nat (b_out s)],
          consumers := (consumers s)[i := (consumers s ! i)\<lparr>num_items_consumed := num_items_consumed (consumers s ! i) + 1,
                c_pc := if is_full s then C_Signal else C_Unlock1\<rparr>]\<rparr>"
    | "c_pc (consumers s ! i) = C_Signal" "s' = goto i C_Unlock1 (s\<lparr>sem_1 := Suc (sem_1 s)\<rparr>)"
    | "c_pc (consumers s ! i) = C_Unlock1" "s' = goto i C_While (s\<lparr>sem_3 := Suc (sem_3 s)\<rparr>)"
proof (cases "c_pc (consumers s ! i)")
  case C_Take
  with assms have "0 \<le> b_out s \<and> b_out s < int (length (work s))"
    by (simp add: consumer_step_def Let_def take_item_def split: if_split_asm)
  with assms C_Take that(7) show thesis by (simp add: consumer_step_def Let_def take_item_def)
next
  case C_Lock0
  with assms that(2) show thesis by (auto simp: consumer_step_def Let_def sem_defs split: nat.split_asm)
next
  case C_Wait
  with assms that(5) show thesis by (auto simp: consumer_step_def Let_def sem_defs split: nat.split_asm)
next
  case C_Lock1
  with assms that(6) show thesis by (auto simp: consumer_step_def Let_def sem_defs split: nat.split_asm)
next
  case C_While
  with assms that(1) show thesis by (simp add: consumer_step_def Let_def)
next
  case C_Read
  with assms that(3) show thesis by (simp add: consumer_step_def Let_def)
next
  case C_Unlock0
  with assms that(4) show thesis by (simp add: consumer_step_def Let_def sem_defs)
next
  case C_Signal
  with assms that(8) show thesis by (simp add: consumer_step_def Let_def sem_defs)
next
  case C_Unlock1
  with assms that(9) show thesis by (simp add: consumer_step_def Let_def sem_defs)
next
  case C_Exit
  with assms show thesis by (simp add: consumer_step_def Let_def)
qed

lemma consumer_step_frame:
  "consumer_step i s = ok s' \<Longrightarrow> p_pc s' = p_pc s \<and> p_finished s' = p_finished s \<and>
     is_finished s' = is_finished s \<and> made s' = made s \<and> length (consumers s') = length (consumers s)"
  by (erule consumer_stepE) (simp_all add: goto_def)

lemma consumer_cnt:
  assumes "consumer_step i s = ok s'" "i < length (consumers s)"
  shows "cnt P (consumers s') + (if P (consumers s ! i) then 1 else 0) =
    cnt P (consumers s) + (if P (consumers s' ! i) then 1 else 0)"
proof -
  have "consumers s' = (consumers s)[i := consumers s' ! i]"
    using assms by (cases rule: consumer_stepE) (simp_all add: goto_def)
  then have "cnt P (consumers s') = cnt P ((consumers s)[i := consumers s' ! i])" by (rule arg_cong)
  with cnt_upd [OF assms(2), of P "consumers s' ! i"] show ?thesis by linarith
qed

lemma consumer_sem_3:
  assumes "consumer_step i s = ok s'" "i < length (consumers s)"
  shows "sem_3 s' + (if c_critical (consumers s' ! i) then 1 else 0) =
    sem_3 s + (if c_critical (consumers s ! i) then 1 else 0)"
  using assms by (cases rule: consumer_stepE) (simp_all add: goto_def c_critical_def)

lemma consumer_mutex:
  assumes "consumer_step i s = ok s'" "i < length (consumers s)" "mutex s"
  shows "mutex s'"
proof -
  have pc: "p_pc s' = p_pc s" using consumer_step_frame [OF assms(1)] by simp
  from consumer_cnt [OF assms(1,2), of c_critical] consumer_sem_3 [OF assms(1,2)] assms(3)
  show ?thesis unfolding mutex_def pc by linarith
qed

lemma step_mutex: "pc_step n s s' \<Longrightarrow> mutex s \<Longrightarrow> mutex s'"
  by (erule pc_stepE) (auto intro: producer_mutex consumer_mutex)

lemma cnt_start: "(\<And>c. c \<in> set cs \<Longrightarrow> \<not> P c) \<Longrightarrow> cnt P cs = 0"
  by (induction cs) (auto simp: cnt_def)

lemma reachable_mutex: "reachable n (start pf cf) s \<Longrightarrow> mutex s"
proof (induction rule: reachable.induct)
  case init
  have "cnt c_critical (consumers (start pf cf)) = 0" by (rule cnt_start) (auto simp: start_def c_critical_def)
  then show ?case by (simp add: mutex_def start_def p_critical_def)
qed (rule step_mutex)

section \<open>The invariant of the buffer\<close>

text \<open>
  What holds until the producer declares the end: the number of items is the value of \<open>sem_2\<close>
  and the consumers that have been let through, the buffer is a stack whose top is \<open>out\<close>, nothing
  is lost, and \<open>sem_1\<close> is posted once for every time the producer finds the buffer full.
\<close>

definition pending :: "consumer \<Rightarrow> bool" where
  "pending c \<longleftrightarrow> c_pc c \<in> {C_Lock1, C_Take}"

definition signalling :: "consumer \<Rightarrow> bool" where
  "signalling c \<longleftrightarrow> c_pc c = C_Signal"

definition p_waiting :: "producer_pc \<Rightarrow> bool" where
  "p_waiting pc \<longleftrightarrow> (case pc of P_Full_Unlock _ _ \<Rightarrow> True | P_Wait _ _ \<Rightarrow> True | _ \<Rightarrow> False)"

definition p_putting :: "producer_pc \<Rightarrow> bool" where
  "p_putting pc \<longleftrightarrow> (case pc of P_Relock _ _ \<Rightarrow> True | P_Put _ _ \<Rightarrow> True | _ \<Rightarrow> False)"

definition p_signal :: "producer_pc \<Rightarrow> bool" where
  "p_signal pc \<longleftrightarrow> (case pc of P_Signal _ \<Rightarrow> True | _ \<Rightarrow> False)"

definition buffer_ok :: "system \<Rightarrow> bool" where
  "buffer_ok s \<longleftrightarrow> length (work s) = 25 \<and> 0 \<le> b_in s \<and> b_in s \<le> 25 \<and>
     (b_out s = b_in s - 1 \<or> made s = [] \<and> b_out s = 0 \<and> b_in s = 0) \<and>
     mset (made s) = mset (eaten s) + mset (take (nat (b_in s)) (work s))"

definition items_ok :: "system \<Rightarrow> bool" where
  "items_ok s \<longleftrightarrow> b_in s = int (sem_2 s) + int (cnt pending (consumers s)) + (if p_signal (p_pc s) then 1 else 0)"

definition full_ok :: "system \<Rightarrow> bool" where
  "full_ok s \<longleftrightarrow> (is_full s \<longrightarrow> b_in s = 25) \<and>
     (if is_full s then 1 else 0) + sem_1 s + cnt signalling (consumers s) = (if p_waiting (p_pc s) then 1 else 0) \<and>
     (p_waiting (p_pc s) \<and> \<not> is_full s \<or> p_putting (p_pc s) \<longrightarrow> b_in s < 25)"

definition consumers_ok :: "system \<Rightarrow> bool" where
  "consumers_ok s \<longleftrightarrow> (\<forall>c\<in>set (consumers s). \<not> c_finished c \<and> c_pc c \<noteq> C_Exit)"

text \<open>How many items have been made, by where the producer is.\<close>

definition made_ok :: "int \<Rightarrow> system \<Rightarrow> bool" where
  "made_ok n s \<longleftrightarrow>
     (case p_pc s of
        P_Lock_Init \<Rightarrow> made s = [] | P_Init \<Rightarrow> made s = [] | P_Unlock_Init \<Rightarrow> made s = []
      | P_For i \<Rightarrow> int (length (made s)) = i \<and> i \<le> max 0 n
      | P_Lock i _ \<Rightarrow> int (length (made s)) = i \<and> i < n
      | P_Check i _ \<Rightarrow> int (length (made s)) = i \<and> i < n
      | P_Full_Unlock i _ \<Rightarrow> int (length (made s)) = i \<and> i < n
      | P_Wait i _ \<Rightarrow> int (length (made s)) = i \<and> i < n
      | P_Relock i _ \<Rightarrow> int (length (made s)) = i \<and> i < n
      | P_Put i _ \<Rightarrow> int (length (made s)) = i \<and> i < n
      | P_Signal i \<Rightarrow> int (length (made s)) = i + 1 \<and> i < n
      | P_Unlock i \<Rightarrow> int (length (made s)) = i + 1 \<and> i < n
      | _ \<Rightarrow> int (length (made s)) = max 0 n)"

definition end_pc :: "producer_pc \<Rightarrow> bool" where
  "end_pc pc \<longleftrightarrow> (case pc of P_While \<Rightarrow> True | P_Post_End _ \<Rightarrow> True | P_Unlock_End \<Rightarrow> True | P_Unlink \<Rightarrow> True
     | P_Exit \<Rightarrow> True | _ \<Rightarrow> False)"

definition pc_inv :: "int \<Rightarrow> system \<Rightarrow> bool" where
  "pc_inv n s \<longleftrightarrow> made_ok n s \<and> p_finished s = is_finished s \<and>
     (if is_finished s
      then end_pc (p_pc s) \<and> (made s \<noteq> [] \<longrightarrow> b_out s < 0 \<and> mset (made s) = mset (eaten s))
      else buffer_ok s \<and> items_ok s \<and> full_ok s \<and> consumers_ok s \<and>
        (case p_pc s of P_Post_End _ \<Rightarrow> False | P_Unlink \<Rightarrow> False | P_Exit \<Rightarrow> False | _ \<Rightarrow> True))"

lemma mset_take_pop:
  "0 < k \<Longrightarrow> k \<le> length xs \<Longrightarrow> mset (take (k - 1) xs) + {# xs ! (k - 1) #} = mset (take k xs)"
  by (cases k) (simp_all add: take_Suc_conv_app_nth)

text \<open>Every step of a consumer keeps the invariant, part by part.\<close>

lemma consumer_buffer_ok:
  assumes "consumer_step i s = ok s'" "i < length (consumers s)" "buffer_ok s" "items_ok s"
  shows "buffer_ok s'"
  using assms(1)
proof (cases rule: consumer_stepE)
  case Take
  have "0 < cnt pending (consumers s)" by (rule cnt_pos [OF assms(2)]) (simp add: pending_def Take)
  then have pos: "0 < b_in s" using assms(4) by (simp add: items_ok_def)
  then have out: "b_out s = b_in s - 1" using assms(3) by (auto simp: buffer_ok_def)
  have k: "nat (b_in s - 1) = nat (b_in s) - 1" using pos by simp
  have "mset (take (nat (b_in s) - 1) (work s)) + {# work s ! (nat (b_in s) - 1) #} = mset (take (nat (b_in s)) (work s))"
  proof (rule mset_take_pop)
    have "b_in s \<le> 25" "length (work s) = 25" using assms(3) by (simp_all add: buffer_ok_def)
    then show "nat (b_in s) \<le> length (work s)" by simp
    show "0 < nat (b_in s)" using pos by simp
  qed
  with assms(3) pos show ?thesis
    by (simp add: Take buffer_ok_def out k)
qed (use assms(3) in \<open>simp_all add: buffer_ok_def goto_def\<close>)

lemma consumer_items_ok:
  assumes "consumer_step i s = ok s'" "i < length (consumers s)" "items_ok s"
  shows "items_ok s'"
proof -
  have "b_in s' - int (sem_2 s') + (if pending (consumers s ! i) then 1 else 0) =
      b_in s - int (sem_2 s) + (if pending (consumers s' ! i) then 1 else 0)"
    using assms(1) by (cases rule: consumer_stepE) (use assms(2) in \<open>simp_all add: goto_def pending_def\<close>)
  moreover have pc: "p_pc s' = p_pc s" using consumer_step_frame [OF assms(1)] by simp
  moreover note consumer_cnt [OF assms(1,2), of pending]
  ultimately show ?thesis using assms(3) unfolding items_ok_def pc by (simp split: if_split_asm)
qed

lemma consumer_full_ok:
  assumes "consumer_step i s = ok s'" "i < length (consumers s)" "full_ok s"
  shows "full_ok s'"
proof -
  have pc: "p_pc s' = p_pc s" using consumer_step_frame [OF assms(1)] by simp
  have bal: "(if is_full s' then 1 else 0) + sem_1 s' + (if signalling (consumers s' ! i) then 1 else 0) =
      (if is_full s then 1 else 0) + sem_1 s + (if signalling (consumers s ! i) then 1 else 0)"
    using assms(1) by (cases rule: consumer_stepE) (use assms(2) in \<open>simp_all add: goto_def signalling_def\<close>)
  have shrink: "b_in s' \<le> b_in s \<and> (is_full s' \<longrightarrow> is_full s \<and> b_in s' = b_in s) \<and>
      (is_full s \<and> \<not> is_full s' \<longrightarrow> b_in s' < b_in s)"
    using assms(1) by (cases rule: consumer_stepE) (simp_all add: goto_def)
  have bal': "(if is_full s' then 1 else 0) + sem_1 s' + cnt signalling (consumers s') = (if p_waiting (p_pc s') then 1 else 0)"
    using bal consumer_cnt [OF assms(1,2), of signalling] assms(3) unfolding full_ok_def pc by linarith
  show ?thesis using assms(3) shrink bal' unfolding full_ok_def pc by auto
qed

lemma consumer_consumers_ok:
  assumes "consumer_step i s = ok s'" "i < length (consumers s)" "consumers_ok s" "\<not> is_finished s"
  shows "consumers_ok s'"
proof -
  have ci: "\<not> c_finished (consumers s ! i)" "c_pc (consumers s ! i) \<noteq> C_Exit"
    using assms(2,3) by (simp_all add: consumers_ok_def)
  have "\<not> c_finished (consumers s' ! i) \<and> c_pc (consumers s' ! i) \<noteq> C_Exit \<and>
      consumers s' = (consumers s)[i := consumers s' ! i]"
    using assms(1) by (cases rule: consumer_stepE) (use assms(2,4) ci in \<open>simp_all add: goto_def\<close>)
  then show ?thesis using assms(3) set_update_subset_insert [of "consumers s" i "consumers s' ! i"]
    unfolding consumers_ok_def by (metis insertE subsetD)
qed

lemma consumer_made_ok: "consumer_step i s = ok s' \<Longrightarrow> made_ok n s \<Longrightarrow> made_ok n s'"
  unfolding made_ok_def using consumer_step_frame [of i s s'] by presburger

text \<open>After the end a consumer that still gets hold of the buffer finds nothing below its bottom.\<close>

lemma consumer_after_end:
  assumes "consumer_step i s = ok s'" "made s \<noteq> []" "b_out s < 0" "mset (made s) = mset (eaten s)"
  shows "b_out s' < 0 \<and> mset (made s') = mset (eaten s')"
  using assms(1) by (cases rule: consumer_stepE) (use assms(2-4) in \<open>simp_all add: goto_def\<close>)

lemma consumer_pc_inv:
  assumes "consumer_step i s = ok s'" "i < length (consumers s)" "pc_inv n s"
  shows "pc_inv n s'"
proof -
  note frame = consumer_step_frame [OF assms(1)]
  show ?thesis
  proof (cases "is_finished s")
    case True
    with assms(3) frame consumer_made_ok [OF assms(1), of n] consumer_after_end [OF assms(1)] show ?thesis
      unfolding pc_inv_def by auto
  next
    case False
    with assms(3) have inv: "buffer_ok s" "items_ok s" "full_ok s" "consumers_ok s" "made_ok n s"
      by (simp_all add: pc_inv_def)
    note keep = consumer_buffer_ok [OF assms(1,2) inv(1,2)] consumer_items_ok [OF assms(1,2) inv(2)]
      consumer_full_ok [OF assms(1,2) inv(3)] consumer_consumers_ok [OF assms(1,2) inv(4) False]
      consumer_made_ok [OF assms(1) inv(5)]
    from assms(3) False frame keep show ?thesis by (simp add: pc_inv_def)
  qed
qed

text \<open>The producer.\<close>

lemmas pc_defs = p_waiting_def p_putting_def p_signal_def end_pc_def made_ok_def

lemmas part_defs = pc_inv_def pc_defs buffer_ok_def items_ok_def full_ok_def consumers_ok_def

lemma put_buffer_ok:
  assumes "put_item item s = ok s'" "buffer_ok s" "b_in s < 25"
  shows "buffer_ok s'"
proof -
  have k: "0 \<le> b_in s" "length (work s) = 25" using assms(2) by (simp_all add: buffer_ok_def)
  then have lt: "nat (b_in s) < length (work s)" using assms(3) by simp
  have n: "nat (b_in s + 1) = Suc (nat (b_in s))" using k by simp
  have "take (nat (b_in s + 1)) ((work s)[nat (b_in s) := item]) = take (nat (b_in s)) (work s) @ [item]"
    unfolding n using lt by (simp add: take_Suc_conv_app_nth)
  with assms k show ?thesis by (auto simp: put_item_def buffer_ok_def split: if_split_asm)
qed

lemma put_effect:
  assumes "put_item item s = ok s'"
  shows "b_in s' = b_in s + 1 \<and> made s' = made s @ [item] \<and> sem_1 s' = sem_1 s \<and> sem_2 s' = sem_2 s \<and>
    is_full s' = is_full s \<and> is_finished s' = is_finished s \<and> p_finished s' = p_finished s \<and> consumers s' = consumers s"
  using assms by (auto simp: put_item_def split: if_split_asm)

lemma producer_pc_inv:
  assumes "producer_step n item s = ok s'" "pc_inv n s"
  shows "pc_inv n s'"
proof (cases "is_finished s")
  case True
  with assms show ?thesis
    by (cases "p_pc s") (auto simp: producer_step_def pc_inv_def pc_defs sem_defs split: nat.split_asm)
next
  case False
  with assms(2) have inv: "buffer_ok s" "items_ok s" "full_ok s" "consumers_ok s" "made_ok n s" "\<not> p_finished s"
    by (simp_all add: pc_inv_def)
  show ?thesis
  proof (cases "p_pc s")
    case P_Init
    then have "made s = []" using inv(5) by (simp add: made_ok_def)
    then have z: "b_in s = 0" "eaten s = []" using inv(1) by (auto simp: buffer_ok_def)
    have "\<not> is_full s" using z inv(3) by (auto simp: full_ok_def)
    with P_Init z assms(1) inv False show ?thesis
      by (auto simp: producer_step_def pc_inv_def pc_defs initialize_buffer_def buffer_ok_def items_ok_def full_ok_def consumers_ok_def)
  next
    case (P_Put i it)
    then obtain s1 where s1: "put_item it s = ok s1" "s' = s1\<lparr>p_pc := P_Signal i\<rparr>"
      using assms(1) by (auto simp: producer_step_def rbind_eq_ok)
    have lt: "b_in s < 25" using inv(3) P_Put by (simp add: full_ok_def p_putting_def)
    have "\<not> is_full s" using lt inv(3) by (auto simp: full_ok_def)
    with s1 put_buffer_ok [OF s1(1) inv(1) lt] put_effect [OF s1(1)] P_Put inv False show ?thesis
      by (simp add: pc_inv_def pc_defs buffer_ok_def items_ok_def full_ok_def consumers_ok_def)
  next
    case P_Test_End
    have e: "b_in s = 0 \<Longrightarrow> made s \<noteq> [] \<Longrightarrow> b_out s < 0 \<and> mset (made s) = mset (eaten s)"
      using inv(1) by (auto simp: buffer_ok_def)
    show ?thesis
    proof (cases "b_in s = 0")
      case True
      with P_Test_End assms(1) have "s' = s\<lparr>is_finished := True, p_finished := True, p_pc := P_Post_End MAX_NUM_CONSUMERS\<rparr>"
        by (simp add: producer_step_def)
      with e [OF True] P_Test_End inv(5) show ?thesis
        by (simp add: pc_inv_def pc_defs)
    next
      case False
      with P_Test_End assms(1) have "s' = s\<lparr>p_pc := P_Unlock_End\<rparr>" by (simp add: producer_step_def)
      with P_Test_End inv \<open>\<not> is_finished s\<close> show ?thesis
        by (simp add: pc_inv_def pc_defs buffer_ok_def items_ok_def full_ok_def consumers_ok_def)
    qed
  next
    case P_Lock_Init
    with assms(1) obtain k where "s' = s\<lparr>sem_3 := k, p_pc := P_Init\<rparr>"
      by (auto simp: producer_step_def sem_defs split: nat.split_asm)
    with P_Lock_Init inv False show ?thesis by (simp add: part_defs)
  next
    case P_Unlock_Init
    with assms(1) inv(6) have "s' = s\<lparr>sem_3 := Suc (sem_3 s), p_pc := P_For 0\<rparr>" by (simp add: producer_step_def sem_defs)
    with P_Unlock_Init inv False show ?thesis by (simp add: part_defs)
  next
    case (P_For i)
    with assms(1) inv(6) have "s' = s\<lparr>p_pc := if i < n then P_Lock i item else P_While\<rparr>" by (simp add: producer_step_def sem_defs)
    with P_For inv False show ?thesis by (cases "i < n") (auto simp: part_defs max_def split: if_split_asm)
  next
    case (P_Lock i it)
    with assms(1) obtain k where "s' = s\<lparr>sem_3 := k, p_pc := P_Check i it\<rparr>"
      by (auto simp: producer_step_def sem_defs split: nat.split_asm)
    with P_Lock inv False show ?thesis by (simp add: part_defs)
  next
    case (P_Full_Unlock i it)
    with assms(1) inv(6) have "s' = s\<lparr>sem_3 := Suc (sem_3 s), p_pc := P_Wait i it\<rparr>" by (simp add: producer_step_def sem_defs)
    with P_Full_Unlock inv False show ?thesis by (simp add: part_defs)
  next
    case (P_Relock i it)
    with assms(1) obtain k where "s' = s\<lparr>sem_3 := k, p_pc := P_Put i it\<rparr>"
      by (auto simp: producer_step_def sem_defs split: nat.split_asm)
    with P_Relock inv False show ?thesis by (simp add: part_defs)
  next
    case (P_Signal i)
    with assms(1) inv(6) have "s' = s\<lparr>sem_2 := Suc (sem_2 s), p_pc := P_Unlock i\<rparr>" by (simp add: producer_step_def sem_defs)
    with P_Signal inv False show ?thesis by (simp add: part_defs)
  next
    case (P_Unlock i)
    with assms(1) inv(6) have "s' = s\<lparr>sem_3 := Suc (sem_3 s), p_pc := P_For (i + 1)\<rparr>" by (simp add: producer_step_def sem_defs)
    with P_Unlock inv False show ?thesis by (simp add: part_defs)
  next
    case P_While
    with assms(1) inv(6) have "s' = s\<lparr>p_pc := P_Lock_End\<rparr>" by (simp add: producer_step_def sem_defs)
    with P_While inv False show ?thesis by (simp add: part_defs)
  next
    case P_Lock_End
    with assms(1) obtain k where "s' = s\<lparr>sem_3 := k, p_pc := P_Test_End\<rparr>"
      by (auto simp: producer_step_def sem_defs split: nat.split_asm)
    with P_Lock_End inv False show ?thesis by (simp add: part_defs)
  next
    case P_Unlock_End
    with assms(1) inv(6) have "s' = s\<lparr>sem_3 := Suc (sem_3 s), p_pc := P_While\<rparr>" by (simp add: producer_step_def sem_defs)
    with P_Unlock_End inv False show ?thesis by (simp add: part_defs)
  next
    case (P_Check i it)
    show ?thesis
    proof (cases "b_in s = BUF_SIZE")
      case True
      with P_Check assms(1) have "s' = s\<lparr>is_full := True, p_pc := P_Full_Unlock i it\<rparr>" by (simp add: producer_step_def)
      with P_Check inv True \<open>\<not> is_finished s\<close> show ?thesis
        by (simp add: part_defs BUF_SIZE_def split: if_split_asm)
    next
      case False
      with P_Check assms(1) have "s' = s\<lparr>p_pc := P_Put i it\<rparr>" by (simp add: producer_step_def)
      with P_Check inv False \<open>\<not> is_finished s\<close> show ?thesis by (simp add: part_defs BUF_SIZE_def)
    qed
  next
    case (P_Wait i it)
    with assms(1) obtain k where k: "sem_1 s = Suc k" "s' = s\<lparr>sem_1 := k, p_pc := P_Relock i it\<rparr>"
      by (auto simp: producer_step_def sem_defs split: nat.split_asm)
    with P_Wait inv(3) have "\<not> is_full s" by (auto simp: full_ok_def p_waiting_def)
    with k P_Wait inv False show ?thesis by (simp add: part_defs)
  qed (use assms(2) False in \<open>simp_all add: pc_inv_def\<close>)
qed

lemma step_pc_inv: "pc_step n s s' \<Longrightarrow> pc_inv n s \<Longrightarrow> pc_inv n s'"
  by (erule pc_stepE) (blast intro: producer_pc_inv consumer_pc_inv)+

text \<open>The start with all local variables \<open>finished\<close> false, as the code expects them.\<close>

abbreviation clean_start :: "nat \<Rightarrow> system" where
  "clean_start k \<equiv> start False (replicate k False)"

lemma reachable_pc_inv: "reachable n (clean_start k) s \<Longrightarrow> pc_inv n s"
proof (induction rule: reachable.induct)
  case init
  have "cnt pending (consumers (clean_start k)) = 0" "cnt signalling (consumers (clean_start k)) = 0"
    by (rule cnt_start; auto simp: start_def pending_def signalling_def)+
  then show ?case
    by (simp add: pc_inv_def buffer_ok_def items_ok_def full_ok_def consumers_ok_def made_ok_def p_signal_def
        p_waiting_def p_putting_def) (simp add: start_def)
qed (rule step_pc_inv)

lemma cnt_zero: "cnt P cs = 0 \<longleftrightarrow> (\<forall>i<length cs. \<not> P (cs ! i))"
proof
  assume "cnt P cs = 0"
  then show "\<forall>i<length cs. \<not> P (cs ! i)" using cnt_pos [of _ cs P] by fastforce
next
  assume a: "\<forall>i<length cs. \<not> P (cs ! i)"
  show "cnt P cs = 0" by (rule cnt_start) (use a in \<open>auto simp: in_set_conv_nth\<close>)
qed

text \<open>Until the end, a step fails or blocks only on a semaphore.\<close>

lemma consumer_no_error:
  assumes "pc_inv n s" "\<not> is_finished s" "i < length (consumers s)"
  shows "consumer_step i s \<noteq> err e"
    and "c_critical (consumers s ! i) \<Longrightarrow> \<exists>s'. consumer_step i s = ok s'"
    and "0 < sem_3 s \<Longrightarrow> c_pc (consumers s ! i) \<noteq> C_Wait \<or> 0 < sem_2 s \<Longrightarrow> \<exists>s'. consumer_step i s = ok s'"
proof -
  have inv: "buffer_ok s" "items_ok s" "consumers_ok s" using assms(1,2) by (simp_all add: pc_inv_def)
  have live: "c_pc (consumers s ! i) \<noteq> C_Exit" using inv(3) assms(3) by (simp add: consumers_ok_def)
  have take: "0 \<le> b_out s \<and> b_out s < int (length (work s))" if "c_pc (consumers s ! i) = C_Take"
  proof -
    have "0 < cnt pending (consumers s)" by (rule cnt_pos [OF assms(3)]) (simp add: pending_def that)
    then show ?thesis using inv(1,2) by (auto simp: items_ok_def buffer_ok_def)
  qed
  show "consumer_step i s \<noteq> err e"
    using take live by (cases "c_pc (consumers s ! i)")
      (auto simp: consumer_step_def Let_def sem_defs rbind_eq_err take_item_def split: nat.split)
  show "c_critical (consumers s ! i) \<Longrightarrow> \<exists>s'. consumer_step i s = ok s'"
    using take live by (cases "c_pc (consumers s ! i)")
      (auto simp: consumer_step_def Let_def sem_defs take_item_def c_critical_def)
  show "0 < sem_3 s \<Longrightarrow> c_pc (consumers s ! i) \<noteq> C_Wait \<or> 0 < sem_2 s \<Longrightarrow> \<exists>s'. consumer_step i s = ok s'"
    using take live by (cases "c_pc (consumers s ! i)")
      (auto simp: consumer_step_def Let_def sem_defs take_item_def split: nat.split)
qed

lemma producer_no_error:
  assumes "pc_inv n s" "\<not> is_finished s"
  shows "producer_step n item s \<noteq> err e"
    and "p_critical (p_pc s) \<Longrightarrow> \<exists>s'. producer_step n item s = ok s'"
    and "0 < sem_3 s \<Longrightarrow> (\<forall>i it. p_pc s = P_Wait i it \<longrightarrow> 0 < sem_1 s) \<Longrightarrow> \<exists>s'. producer_step n item s = ok s'"
proof -
  have inv: "buffer_ok s" "full_ok s" using assms by (simp_all add: pc_inv_def)
  have put: "0 \<le> b_in s \<and> b_in s < int (length (work s))" if "p_pc s = P_Put i it" for i it
    using inv that by (simp add: buffer_ok_def full_ok_def p_putting_def)
  have live: "p_pc s \<noteq> P_Exit" using assms by (auto simp: pc_inv_def)
  show "producer_step n item s \<noteq> err e"
    using put by (cases "p_pc s")
      (auto simp: producer_step_def sem_defs rbind_eq_err put_item_def split: nat.split)
  show "p_critical (p_pc s) \<Longrightarrow> \<exists>s'. producer_step n item s = ok s'"
    using put by (cases "p_pc s")
      (auto simp: producer_step_def sem_defs put_item_def p_critical_def split: nat.split)
  show "0 < sem_3 s \<Longrightarrow> (\<forall>i it. p_pc s = P_Wait i it \<longrightarrow> 0 < sem_1 s) \<Longrightarrow> \<exists>s'. producer_step n item s = ok s'"
    using put live by (cases "p_pc s")
      (auto simp: producer_step_def sem_defs put_item_def split: nat.split)
qed

section \<open>Runs on a schedule\<close>

text \<open>Whose turn it is, and what the producer produces if it does so in this turn.\<close>

datatype turn = Turn_P int | Turn_C nat

fun pc_run :: "int \<Rightarrow> system \<Rightarrow> turn list \<Rightarrow> system res" where
  "pc_run n s [] = ok s"
| "pc_run n s (Turn_P item # ts) = rbind (producer_step n item s) (\<lambda>s1. pc_run n s1 ts)"
| "pc_run n s (Turn_C i # ts) =
     (if i < length (consumers s) then rbind (consumer_step i s) (\<lambda>s1. pc_run n s1 ts) else None)"

lemma pc_run_reachable: "reachable n s0 s \<Longrightarrow> pc_run n s ts = ok s' \<Longrightarrow> reachable n s0 s'"
proof (induction n s ts rule: pc_run.induct)
  case (2 n s item ts)
  then obtain s1 where "producer_step n item s = ok s1" "pc_run n s1 ts = ok s'" by (auto simp: rbind_eq_ok)
  with 2 show ?case by (blast intro: reachable.step pc_step.producer)
next
  case (3 n s i ts)
  then obtain s1 where "i < length (consumers s)" "consumer_step i s = ok s1" "pc_run n s1 ts = ok s'"
    by (auto simp: rbind_eq_ok split: if_split_asm)
  with 3 show ?case by (blast intro: reachable.step pc_step.consumer)
qed simp

definition run_ends :: "int \<Rightarrow> nat \<Rightarrow> turn list \<Rightarrow> (system \<Rightarrow> bool) \<Rightarrow> bool" where
  "run_ends n k ts P = (case pc_run n (clean_start k) ts of Some (Inr s) \<Rightarrow> P s | _ \<Rightarrow> False)"

lemma run_endsD: "run_ends n k ts P \<Longrightarrow> \<exists>s. reachable n (clean_start k) s \<and> P s"
  using pc_run_reachable [OF reachable.init, of n "clean_start k" ts]
  by (force simp: run_ends_def ok_def split: option.split_asm sum.split_asm)

definition one_item :: "turn list" where
  "one_item = replicate 9 (Turn_P 4) @ replicate 8 (Turn_C 0) @ replicate 4 (Turn_C 1)"

definition one_item_end :: "turn list" where
  "one_item_end = one_item @ replicate 106 (Turn_P 4) @ replicate 2 (Turn_C 1)"

lemma one_item_run:
  "run_ends 1 2 one_item (\<lambda>s. \<not> is_finished s \<and> consumers s \<noteq> [] \<and> made s = [4] \<and> eaten s = [4])"
  by code_simp

lemma one_item_end_run:
  "run_ends 1 2 one_item_end (\<lambda>s. is_finished s \<and> 1 < length (consumers s) \<and> c_pc (consumers s ! 1) = C_Take)"
  by code_simp

section \<open>Properties of producer and consumers\<close>

text \<open>
  C28: mutual exclusion. In every reachable state, whatever the uninitialised variables held and
  whatever was posted at the end, at most one of the producer and the consumers is between
  \<open>lock_shared_mem\<close> and \<open>unlock_shared_mem\<close>, and \<open>sem_3\<close> is then 0.
\<close>

theorem pc_mutual_exclusion:
  assumes "reachable n (start pf cf) s" "i < length (consumers s)" "c_critical (consumers s ! i)"
  shows "sem_3 s = 0 \<and> \<not> p_critical (p_pc s) \<and>
    (\<forall>j<length (consumers s). c_critical (consumers s ! j) \<longrightarrow> j = i)"
proof -
  have m: "mutex s" using reachable_mutex [OF assms(1)] .
  have pos: "0 < cnt c_critical (consumers s)" by (rule cnt_pos [where i = i]) (fact assms)+
  have "j = i" if "j < length (consumers s)" "c_critical (consumers s ! j)" for j
  proof (rule ccontr)
    assume "j \<noteq> i"
    with cnt_ge2 [OF that(1) assms(2) _ that(2) assms(3)] have "2 \<le> cnt c_critical (consumers s)" by simp
    with m show False by (simp add: mutex_def)
  qed
  with m pos show ?thesis by (auto simp: mutex_def split: if_split_asm)
qed

lemma pc_mutual_exclusion_witness:
  "\<exists>s. reachable 1 (start False [False, False]) s \<and> c_pc (consumers s ! 1) = C_Take \<and> sem_3 s = 0"
proof -
  from run_endsD [OF one_item_end_run] obtain s where
    s: "reachable 1 (clean_start 2) s" "1 < length (consumers s)" "c_pc (consumers s ! 1) = C_Take" by blast
  have two: "replicate 2 False = [False, False]" by (simp add: numeral_2_eq_2)
  have "c_critical (consumers s ! 1)" by (simp only: c_critical_def s) simp
  from pc_mutual_exclusion [OF s(1,2) this] s show ?thesis unfolding two by blast
qed

text \<open>
  C7: when the uninitialised \<open>finished\<close> of every process starts as false, then until the producer
  declares the end no work item is lost or duplicated: the items put into
  the buffer are those taken out and those in it; the buffer holds at most 25, never more than the
  producer was asked for are made, and no process reads or writes outside the buffer.
\<close>

theorem pc_no_item_lost:
  assumes "reachable n (clean_start k) s" "\<not> is_finished s"
  shows "mset (made s) = mset (eaten s) + mset (take (nat (b_in s)) (work s)) \<and>
    0 \<le> b_in s \<and> b_in s \<le> BUF_SIZE \<and> int (length (made s)) \<le> max 0 n \<and>
    (\<forall>item e. producer_step n item s \<noteq> err e) \<and>
    (\<forall>i<length (consumers s). \<forall>e. consumer_step i s \<noteq> err e)"
proof -
  have inv: "pc_inv n s" using reachable_pc_inv [OF assms(1)] .
  then have "buffer_ok s" "made_ok n s" using assms(2) by (simp_all add: pc_inv_def)
  moreover have "int (length (made s)) \<le> max 0 n"
    using \<open>made_ok n s\<close> by (cases "p_pc s") (auto simp: made_ok_def)
  ultimately show ?thesis
    using producer_no_error(1) [OF inv assms(2)] consumer_no_error(1) [OF inv assms(2)]
    by (simp add: buffer_ok_def BUF_SIZE_def)
qed

lemma pc_no_item_lost_witness:
  "\<exists>s. reachable 1 (clean_start 2) s \<and> made s = [4] \<and> b_in s \<le> BUF_SIZE \<and>
    mset [4] = mset (eaten s) + mset (take (nat (b_in s)) (work s))"
proof -
  from run_endsD [OF one_item_run] obtain s where
    s: "reachable 1 (clean_start 2) s" "\<not> is_finished s" "made s = [4]" by blast
  from pc_no_item_lost [OF s(1,2)] s show ?thesis by auto
qed

lemma pc_inv_end:
  assumes "pc_inv n s" "is_finished s"
  shows "int (length (made s)) = max 0 n \<and> (0 < n \<longrightarrow> mset (eaten s) = mset (made s))"
proof -
  have "end_pc (p_pc s)" "made_ok n s" "made s \<noteq> [] \<longrightarrow> mset (made s) = mset (eaten s)"
    using assms by (simp_all add: pc_inv_def)
  moreover from this(1,2) have "int (length (made s)) = max 0 n"
    by (cases "p_pc s") (simp_all add: end_pc_def made_ok_def)
  ultimately show ?thesis by (cases "made s") auto
qed

text \<open>
  C26: the producer declares the end only when all the items it was asked for have been made and
  every one of them has been consumed.
\<close>

theorem pc_end_all_consumed:
  assumes "reachable n (clean_start k) s" "is_finished s"
  shows "int (length (made s)) = max 0 n \<and> (0 < n \<longrightarrow> mset (eaten s) = mset (made s))"
  by (rule pc_inv_end [OF reachable_pc_inv [OF assms(1)] assms(2)])

lemma pc_end_all_consumed_witness:
  "\<exists>s. reachable 1 (clean_start 2) s \<and> is_finished s \<and> mset (eaten s) = mset (made s) \<and> length (made s) = 1"
proof -
  from run_endsD [OF one_item_end_run] obtain s where s: "reachable 1 (clean_start 2) s" "is_finished s" by blast
  from pc_end_all_consumed [OF s] s show ?thesis by auto
qed

text \<open>
  C27: with at least one consumer, and when the local variables \<open>finished\<close>, which both programs read
  before they write them, happen to start as false, the system is never deadlocked before the
  producer has declared the end: some process can take a step.
\<close>

theorem pc_no_deadlock:
  assumes "reachable n (clean_start k) s" "\<not> is_finished s" "consumers s \<noteq> []"
  shows "\<exists>s'. pc_step n s s'"
proof -
  have inv: "pc_inv n s" using reachable_pc_inv [OF assms(1)] .
  have "mutex s" using reachable_mutex [OF assms(1)] .
  then consider "p_critical (p_pc s)" | i where "i < length (consumers s)" "c_critical (consumers s ! i)"
    | "0 < sem_3 s" "cnt c_critical (consumers s) = 0"
    using cnt_zero [of c_critical "consumers s"] by (force simp: mutex_def split: if_split_asm)
  then show ?thesis
  proof cases
    case 1
    with producer_no_error(2) [OF inv assms(2)] show ?thesis by (blast intro: pc_step.producer)
  next
    case (2 i)
    with consumer_no_error(2) [OF inv assms(2)] show ?thesis by (blast intro: pc_step.consumer)
  next
    case 3
    show ?thesis
    proof (cases "\<forall>i it. p_pc s = P_Wait i it \<longrightarrow> 0 < sem_1 s")
      case True
      with producer_no_error(3) [OF inv assms(2) 3(1)] show ?thesis by (blast intro: pc_step.producer)
    next
      case False
      then obtain i it where w: "p_pc s = P_Wait i it" "sem_1 s = 0" by auto
      have parts: "full_ok s" "items_ok s" using inv assms(2) by (simp_all add: pc_inv_def)
      have "cnt signalling (consumers s) = 0"
        using 3(2) by (auto simp: cnt_zero c_critical_def signalling_def)
      then have "b_in s = 25" using parts(1) w by (simp add: full_ok_def p_waiting_def split: if_split_asm)
      then consider "0 < sem_2 s" | "0 < cnt pending (consumers s)"
        using parts(2) w by (force simp: items_ok_def p_signal_def)
      then obtain j where j: "j < length (consumers s)" "c_pc (consumers s ! j) \<noteq> C_Wait \<or> 0 < sem_2 s"
      proof cases
        case 1
        with that [of 0] assms(3) show thesis by simp
      next
        case 2
        with cnt_zero [of pending "consumers s"] obtain j where "j < length (consumers s)" "pending (consumers s ! j)" by auto
        with that [of j] show thesis by (auto simp: pending_def)
      qed
      with consumer_no_error(3) [OF inv assms(2) j(1) 3(1)] show ?thesis by (blast intro: pc_step.consumer)
    qed
  qed
qed

lemma pc_no_deadlock_witness:
  "\<exists>s s'. reachable 1 (clean_start 2) s \<and> eaten s = [4] \<and> pc_step 1 s s'"
proof -
  from run_endsD [OF one_item_run] obtain s where
    s: "reachable 1 (clean_start 2) s" "\<not> is_finished s" "consumers s \<noteq> []" "eaten s = [4]" by blast
  from pc_no_deadlock [OF s(1-3)] s show ?thesis by blast
qed

text \<open>
  C39: after the end every consumer that is let through by the producer's posts reads below the
  buffer: when at least one item was made and a consumer was waiting for another, its next access
  is \<open>work[out]\<close> with a negative \<open>out\<close>.
\<close>

theorem pc_take_after_end:
  assumes "reachable n (clean_start k) s" "is_finished s" "0 < n" "c_pc (consumers s ! i) = C_Take"
  shows "consumer_step i s = err Out_Of_Bounds"
proof -
  have inv: "pc_inv n s" using reachable_pc_inv [OF assms(1)] .
  then have "end_pc (p_pc s)" "made_ok n s" "made s \<noteq> [] \<longrightarrow> b_out s < 0"
    using assms(2) by (simp_all add: pc_inv_def)
  moreover from this(1,2) have "int (length (made s)) = max 0 n"
    by (cases "p_pc s") (simp_all add: end_pc_def made_ok_def)
  ultimately have "b_out s < 0" using assms(3) by auto
  with assms(4) show ?thesis by (simp add: consumer_step_def Let_def take_item_def)
qed

lemma pc_take_after_end_witness:
  "\<exists>s. reachable 1 (clean_start 2) s \<and> is_finished s \<and> consumer_step 1 s = err Out_Of_Bounds"
proof -
  from run_endsD [OF one_item_end_run] obtain s where
    s: "reachable 1 (clean_start 2) s" "is_finished s" "c_pc (consumers s ! 1) = C_Take" by blast
  from pc_take_after_end [OF s(1,2) _ s(3)] s show ?thesis by auto
qed

definition never_ends :: "system \<Rightarrow> bool" where
  "never_ends s \<longleftrightarrow> p_finished s \<and> \<not> is_finished s \<and>
     (case p_pc s of P_Lock_End \<Rightarrow> False | P_Test_End \<Rightarrow> False | P_Post_End _ \<Rightarrow> False | P_Unlock_End \<Rightarrow> False | _ \<Rightarrow> True)"

lemma never_ends_step: "pc_step n s s' \<Longrightarrow> never_ends s \<Longrightarrow> never_ends s'"
proof (erule pc_stepE)
  fix item assume "producer_step n item s = ok s'" "never_ends s"
  then show "never_ends s'"
    by (cases "p_pc s") (auto simp: producer_step_def never_ends_def sem_defs initialize_buffer_def put_item_def
        split: if_split_asm nat.split_asm)
next
  fix i assume "consumer_step i s = ok s'" "never_ends s"
  then show "never_ends s'" using consumer_step_frame [of i s s'] by (simp add: never_ends_def)
qed

text \<open>
  The variables \<open>finished\<close> are read before they are written. A producer in which it happens
  to be true never declares the end (so waiting consumers are never let go), and a consumer in
  which it happens to be true exits without consuming anything.
\<close>

theorem pc_uninitialised_finished:
  assumes "reachable n (start True cf) s" "i < length cf" "cf ! i"
  shows "\<not> is_finished s \<and> consumer_step i (start pf cf) = ok (goto i C_Exit (start pf cf))"
proof -
  from assms(1) have "never_ends s"
  proof (induction rule: reachable.induct)
    case init
    show ?case by (simp add: never_ends_def start_def)
  qed (rule never_ends_step)
  with assms(2,3) show ?thesis by (simp add: never_ends_def consumer_step_def start_def)
qed

lemma pc_uninitialised_finished_witness:
  "\<not> is_finished (start True [False, True]) \<and>
   consumer_step 1 (start False [False, True]) = ok (goto 1 C_Exit (start False [False, True]))"
  using pc_uninitialised_finished [OF reachable.init, of 1 "[False, True]"] by simp

text \<open>
  The programs start and get the state the other theorems begin with exactly when every call
  succeeds; a failing \<open>shm_open\<close> or \<open>sem_open\<close> ends them, but a failing \<open>mmap\<close> goes unnoticed
  and the first access to the memory is invalid.
\<close>

theorem pc_start:
  "(producer_start os 2 pf cf = ok s \<longleftrightarrow>
      os_shm_open os \<and> os_mmap os \<and> os_sem_open os 1 \<and> os_sem_open os 2 \<and> os_sem_open os 3 \<and> s = start pf cf) \<and>
   (producer_start os 2 pf cf = err Bad_Deref \<longleftrightarrow>
      os_shm_open os \<and> \<not> os_mmap os \<and> os_sem_open os 1 \<and> os_sem_open os 2 \<and> os_sem_open os 3) \<and>
   (consumer_start os False = err Bad_Deref \<longleftrightarrow>
      os_shm_open os \<and> \<not> os_mmap os \<and> os_sem_open os 1 \<and> os_sem_open os 2 \<and> os_sem_open os 3)"
  by (auto simp: producer_start_def consumer_start_def initialize_shared_mem_def initialize_sems_def)

end
