(* ===== verification/NamedSems.thy ===== *)
theory NamedSems
  imports ProdCons
begin

text \<open>
  Named semaphores and shared memory: how the producer and the consumers of \<open>pe_3\<close> find each other
  (\<open>producer.c\<close>, \<open>consumer.c\<close> up to their loops), and the two programs \<open>test_2/produce.c\<close> and
  \<open>test_2/consume.c\<close>. Names refer to objects; removing a name leaves the object to the processes
  that have it open, and creating the name again makes a new object. ProdCons takes up where the
  starts end.
\<close>

section \<open>Names and objects\<close>

record shm_buffer =
  bf_work :: "int list"
  bf_in :: int
  bf_out :: int
  bf_full :: bool
  bf_finished :: bool

text \<open>A memory object is \<open>None\<close> as long as it has size 0.\<close>

record ipc =
  sem_names :: "string \<rightharpoonup> nat"
  sem_values :: "nat list"
  shm_names :: "string \<rightharpoonup> nat"
  shm_objects :: "shm_buffer option list"

definition sem_1_name :: string where "sem_1_name = ''wja35_pc_sem_1''"
definition sem_2_name :: string where "sem_2_name = ''wja35_pc_sem_2''"
definition sem_3_name :: string where "sem_3_name = ''wja35_pc_sem_3''"
definition SHARED_OBJECT_PATH :: string where "SHARED_OBJECT_PATH = ''/wja35_buff_shm''"

lemmas name_defs = sem_1_name_def sem_2_name_def sem_3_name_def SHARED_OBJECT_PATH_def

lemma names_distinct [simp]:
  "sem_1_name \<noteq> sem_2_name" "sem_2_name \<noteq> sem_1_name" "sem_1_name \<noteq> sem_3_name" "sem_3_name \<noteq> sem_1_name"
  "sem_2_name \<noteq> sem_3_name" "sem_3_name \<noteq> sem_2_name"
  by (simp_all add: name_defs)

definition zero_buffer :: shm_buffer where
  "zero_buffer = \<lparr>bf_work = replicate (nat BUF_SIZE) 0, bf_in = 0, bf_out = 0, bf_full = False, bf_finished = False\<rparr>"

text \<open>
  \<open>sem_open\<close> with \<open>O_CREAT\<close> opens what has the name, whatever its value, and otherwise creates it;
  without it fails when nothing has the name. \<open>shm_open\<close> with \<open>O_CREAT | O_TRUNC\<close> empties what is there.
\<close>

definition sem_creat :: "string \<Rightarrow> nat \<Rightarrow> ipc \<Rightarrow> nat \<times> ipc" where
  "sem_creat n v k =
     (case sem_names k n of
        Some i \<Rightarrow> (i, k)
      | None \<Rightarrow> (length (sem_values k),
          k\<lparr>sem_names := (sem_names k)(n \<mapsto> length (sem_values k)), sem_values := sem_values k @ [v]\<rparr>))"

definition shm_creat_trunc :: "string \<Rightarrow> ipc \<Rightarrow> nat \<times> ipc" where
  "shm_creat_trunc n k =
     (case shm_names k n of
        Some i \<Rightarrow> (i, k\<lparr>shm_objects := (shm_objects k)[i := None]\<rparr>)
      | None \<Rightarrow> (length (shm_objects k),
          k\<lparr>shm_names := (shm_names k)(n \<mapsto> length (shm_objects k)), shm_objects := shm_objects k @ [None]\<rparr>))"

text \<open>\<open>ftruncate\<close> to the size of the buffer fills with zeros.\<close>

definition shm_extend :: "nat \<Rightarrow> ipc \<Rightarrow> ipc" where
  "shm_extend i k = (if shm_objects k ! i = None then k\<lparr>shm_objects := (shm_objects k)[i := Some zero_buffer]\<rparr> else k)"

text \<open>The files under \<open>/dev/shm\<close> that hold semaphores and memory; \<open>remove\<close> of another file changes nothing here.\<close>

definition remove_file :: "string \<Rightarrow> ipc \<Rightarrow> ipc" where
  "remove_file path k =
     (if take 13 path = ''/dev/shm/sem.'' then k\<lparr>sem_names := (sem_names k)(drop 13 path := None)\<rparr>
      else if take 8 path = ''/dev/shm'' then k\<lparr>shm_names := (shm_names k)(drop 8 path := None)\<rparr>
      else k)"

section \<open>Starting\<close>

datatype boot_pc =
    B_Remove "string list"      \<comment> \<open>the files still to remove\<close>
  | B_Args | B_Shm | B_Trunc | B_Map | B_Sem1 | B_Sem2 | B_Sem3 | B_Test
  | B_Ready                     \<comment> \<open>at the first statement after \<open>initialize_sems\<close>\<close>
  | B_Exited int

text \<open>A process that starts: where it is, whether its memory is mapped, and what it has opened.\<close>

record boot =
  bt_pc :: boot_pc
  bt_mapped :: bool
  bt_shm :: "nat option"
  bt_sem1 :: "nat option"
  bt_sem2 :: "nat option"
  bt_sem3 :: "nat option"

definition stale_files :: "string list" where
  "stale_files = [''/dev/shm/sem.wja35_pc_sem_1'', ''/dev/shm/sem.wja35_pc_sem_2'',
     ''/dev/shm/sem.wja35_pc_sem_3'', ''/dev/shm/wja35_buff_shm'']"

definition sem_creat_if :: "bool \<Rightarrow> string \<Rightarrow> nat \<Rightarrow> ipc \<Rightarrow> nat option \<times> ipc" where
  "sem_creat_if allowed n v k = (if allowed then (let (i, k') = sem_creat n v k in (Some i, k')) else (None, k))"

text \<open>
  A step of the producer up to its loop, with \<open>argc\<close> arguments. \<open>None\<close>: there is no step left. The
  three semaphores are opened before the results are tested.
\<close>

definition producer_boot_step :: "os_calls \<Rightarrow> int \<Rightarrow> boot \<times> ipc \<Rightarrow> (boot \<times> ipc) option" where
  "producer_boot_step os argc = (\<lambda>(b, k).
     (case bt_pc b of
        B_Remove [] \<Rightarrow> Some (b\<lparr>bt_pc := B_Args\<rparr>, k)
      | B_Remove (p # ps) \<Rightarrow> Some (b\<lparr>bt_pc := B_Remove ps\<rparr>, remove_file p k)
      | B_Args \<Rightarrow> Some (b\<lparr>bt_pc := if argc = 2 then B_Shm else B_Exited 1\<rparr>, k)
      | B_Shm \<Rightarrow>
          if os_shm_open os
          then (let (i, k') = shm_creat_trunc SHARED_OBJECT_PATH k in Some (b\<lparr>bt_shm := Some i, bt_pc := B_Trunc\<rparr>, k'))
          else Some (b\<lparr>bt_pc := B_Exited 1\<rparr>, k)
      | B_Trunc \<Rightarrow> Some (b\<lparr>bt_pc := B_Map\<rparr>, shm_extend (the (bt_shm b)) k)
      | B_Map \<Rightarrow> Some (b\<lparr>bt_mapped := os_mmap os, bt_pc := B_Sem1\<rparr>, k)
      | B_Sem1 \<Rightarrow> (let (h, k') = sem_creat_if (os_sem_open os 1) sem_1_name 0 k in Some (b\<lparr>bt_sem1 := h, bt_pc := B_Sem2\<rparr>, k'))
      | B_Sem2 \<Rightarrow> (let (h, k') = sem_creat_if (os_sem_open os 2) sem_2_name 0 k in Some (b\<lparr>bt_sem2 := h, bt_pc := B_Sem3\<rparr>, k'))
      | B_Sem3 \<Rightarrow> (let (h, k') = sem_creat_if (os_sem_open os 3) sem_3_name 1 k in Some (b\<lparr>bt_sem3 := h, bt_pc := B_Test\<rparr>, k'))
      | B_Test \<Rightarrow>
          Some (b\<lparr>bt_pc := if bt_sem1 b = None then B_Exited 1 else if bt_sem2 b = None then B_Exited 1
                  else if bt_sem3 b = None then B_Exited 1 else B_Ready\<rparr>, k)
      | B_Ready \<Rightarrow> None
      | B_Exited c \<Rightarrow> None))"

text \<open>A consumer opens what is there and gives up at the first name it does not find.\<close>

definition sem_open_if :: "bool \<Rightarrow> string \<Rightarrow> ipc \<Rightarrow> nat option" where
  "sem_open_if allowed n k = (if allowed then sem_names k n else None)"

definition consumer_boot_step :: "os_calls \<Rightarrow> boot \<times> ipc \<Rightarrow> boot option" where
  "consumer_boot_step os = (\<lambda>(b, k).
     (case bt_pc b of
        B_Shm \<Rightarrow>
          (case (if os_shm_open os then shm_names k SHARED_OBJECT_PATH else None) of
             None \<Rightarrow> Some (b\<lparr>bt_pc := B_Exited 1\<rparr>)
           | Some i \<Rightarrow> Some (b\<lparr>bt_shm := Some i, bt_pc := B_Map\<rparr>))
      | B_Map \<Rightarrow> Some (b\<lparr>bt_mapped := os_mmap os, bt_pc := B_Sem1\<rparr>)
      | B_Sem1 \<Rightarrow>
          (case sem_open_if (os_sem_open os 1) sem_1_name k of
             None \<Rightarrow> Some (b\<lparr>bt_pc := B_Exited 1\<rparr>)
           | Some i \<Rightarrow> Some (b\<lparr>bt_sem1 := Some i, bt_pc := B_Sem2\<rparr>))
      | B_Sem2 \<Rightarrow>
          (case sem_open_if (os_sem_open os 2) sem_2_name k of
             None \<Rightarrow> Some (b\<lparr>bt_pc := B_Exited 1\<rparr>)
           | Some i \<Rightarrow> Some (b\<lparr>bt_sem2 := Some i, bt_pc := B_Sem3\<rparr>))
      | B_Sem3 \<Rightarrow>
          (case sem_open_if (os_sem_open os 3) sem_3_name k of
             None \<Rightarrow> Some (b\<lparr>bt_pc := B_Exited 1\<rparr>)
           | Some i \<Rightarrow> Some (b\<lparr>bt_sem3 := Some i, bt_pc := B_Ready\<rparr>))
      | _ \<Rightarrow> None))"

definition boot0 :: "boot_pc \<Rightarrow> boot" where
  "boot0 pc = \<lparr>bt_pc = pc, bt_mapped = False, bt_shm = None, bt_sem1 = None, bt_sem2 = None, bt_sem3 = None\<rparr>"

text \<open>The producer and consumers that start, in any order.\<close>

record boots =
  bs_ipc :: ipc
  bs_producer :: boot
  bs_consumers :: "boot list"

inductive boot_step :: "os_calls \<Rightarrow> int \<Rightarrow> (nat \<Rightarrow> os_calls) \<Rightarrow> boots \<Rightarrow> boots \<Rightarrow> bool" for os argc osc where
  producer: "producer_boot_step os argc (bs_producer s, bs_ipc s) = Some (b, k) \<Longrightarrow>
    boot_step os argc osc s (s\<lparr>bs_producer := b, bs_ipc := k\<rparr>)"
| consumer: "i < length (bs_consumers s) \<Longrightarrow> consumer_boot_step (osc i) (bs_consumers s ! i, bs_ipc s) = Some b \<Longrightarrow>
    boot_step os argc osc s (s\<lparr>bs_consumers := (bs_consumers s)[i := b]\<rparr>)"

inductive_cases boot_stepE: "boot_step os argc osc s s'"

definition started :: "ipc \<Rightarrow> boot_pc \<Rightarrow> nat \<Rightarrow> boots" where
  "started k pc n = \<lparr>bs_ipc = k, bs_producer = boot0 pc, bs_consumers = replicate n (boot0 B_Shm)\<rparr>"

inductive booted :: "os_calls \<Rightarrow> int \<Rightarrow> (nat \<Rightarrow> os_calls) \<Rightarrow> boots \<Rightarrow> boots \<Rightarrow> bool" for os argc osc s0 where
  init: "booted os argc osc s0 s0"
| step: "booted os argc osc s0 s \<Longrightarrow> boot_step os argc osc s s' \<Longrightarrow> booted os argc osc s0 s'"

section \<open>The semaphores of a process\<close>

text \<open>
  \<open>lock_shared_mem\<close> and \<open>unlock_shared_mem\<close> of a process, on the object its \<open>sem_3\<close> refers to. A
  handle that refers to nothing makes the calls fail and the process exit.
\<close>

definition object_wait :: "nat option \<Rightarrow> ipc \<Rightarrow> ipc res" where
  "object_wait h k =
     (case h of
        None \<Rightarrow> err (Exit_Call 1)
      | Some i \<Rightarrow> rbind (sem_wait (sem_values k ! i)) (\<lambda>v. ok (k\<lparr>sem_values := (sem_values k)[i := v]\<rparr>)))"

definition SEM_VALUE_MAX :: nat where "SEM_VALUE_MAX = 2147483647"

definition object_post :: "nat option \<Rightarrow> ipc \<Rightarrow> ipc res" where
  "object_post h k =
     (case h of
        None \<Rightarrow> err (Exit_Call 1)
      | Some i \<Rightarrow>
          if sem_values k ! i < SEM_VALUE_MAX
          then ok (k\<lparr>sem_values := (sem_values k)[i := sem_post (sem_values k ! i)]\<rparr>)
          else err (Exit_Call 1))"

definition client_lock_shared_mem :: "boot \<Rightarrow> ipc \<Rightarrow> ipc res" where
  "client_lock_shared_mem b k = object_wait (bt_sem3 b) k"

definition client_unlock_shared_mem :: "boot \<Rightarrow> ipc \<Rightarrow> ipc res" where
  "client_unlock_shared_mem b k = object_post (bt_sem3 b) k"

text \<open>What the producer sees of the objects, with the loops not yet entered.\<close>

definition shared_view :: "boot \<Rightarrow> bool \<Rightarrow> bool list \<Rightarrow> ipc \<Rightarrow> system" where
  "shared_view b pf cf k =
     (let m = the (shm_objects k ! the (bt_shm b)) in
      \<lparr>work = bf_work m, b_in = bf_in m, b_out = bf_out m, is_full = bf_full m, is_finished = bf_finished m,
       sem_1 = sem_values k ! the (bt_sem1 b), sem_2 = sem_values k ! the (bt_sem2 b), sem_3 = sem_values k ! the (bt_sem3 b),
       p_pc = P_Lock_Init, p_finished = pf,
       consumers = map (\<lambda>f. \<lparr>c_pc = C_While, c_finished = f, num_items_consumed = 0\<rparr>) cf,
       made = [], eaten = []\<rparr>)"

section \<open>\<open>unlink_all\<close>\<close>

definition sem_unlink :: "bool \<Rightarrow> string \<Rightarrow> ipc \<Rightarrow> ipc option" where
  "sem_unlink allowed n k =
     (if allowed \<and> sem_names k n \<noteq> None then Some (k\<lparr>sem_names := (sem_names k)(n := None)\<rparr>) else None)"

definition shm_unlink :: "bool \<Rightarrow> string \<Rightarrow> ipc \<Rightarrow> ipc option" where
  "shm_unlink allowed n k =
     (if allowed \<and> shm_names k n \<noteq> None then Some (k\<lparr>shm_names := (shm_names k)(n := None)\<rparr>) else None)"

text \<open>The exit status if it exits, and what is left.\<close>

definition unlink_names :: "os_calls \<Rightarrow> ipc \<Rightarrow> int option \<times> ipc" where
  "unlink_names os k =
     (case sem_unlink (os_sem_unlink os 1) sem_1_name k of
        None \<Rightarrow> (Some 1, k)
      | Some k1 \<Rightarrow>
     (case sem_unlink (os_sem_unlink os 2) sem_2_name k1 of
        None \<Rightarrow> (Some 1, k1)
      | Some k2 \<Rightarrow>
     (case sem_unlink (os_sem_unlink os 3) sem_3_name k2 of
        None \<Rightarrow> (Some 1, k2)
      | Some k3 \<Rightarrow>
     (case shm_unlink (os_shm_unlink os) SHARED_OBJECT_PATH k3 of
        None \<Rightarrow> (Some 1, k3)
      | Some k4 \<Rightarrow> (None, k4)))))"

section \<open>\<open>test_2\<close>\<close>

text \<open>
  \<open>produce\<close> creates three semaphores of value 0 and waits for the third. First the opens and
  their tests, then the wait; the program then exits with status 0 and unlinks nothing.
\<close>

definition produce_open :: "os_calls \<Rightarrow> ipc \<Rightarrow> nat option \<times> ipc" where
  "produce_open os k =
     (let (h1, k1) = sem_creat_if (os_sem_open os 1) sem_1_name 0 k;
          (h2, k2) = sem_creat_if (os_sem_open os 2) sem_2_name 0 k1;
          (h3, k3) = sem_creat_if (os_sem_open os 3) sem_3_name 0 k2 in
      (if h1 = None then None else if h2 = None then None else h3, k3))"

text \<open>With \<open>None\<close> for the handle, \<open>produce\<close> has exited with status 1.\<close>

definition produce_wait :: "nat option \<Rightarrow> ipc \<Rightarrow> ipc res" where
  "produce_wait h k = object_wait h k"

text \<open>\<open>consume\<close> opens the third name twice, and posts to the second handle.\<close>

definition consume_main :: "os_calls \<Rightarrow> ipc \<Rightarrow> ipc res" where
  "consume_main os k =
     (case sem_open_if (os_sem_open os 1) sem_1_name k of
        None \<Rightarrow> err (Exit_Call 1)
      | Some h1 \<Rightarrow>
     (case sem_open_if (os_sem_open os 2) sem_3_name k of
        None \<Rightarrow> err (Exit_Call 1)
      | Some h2 \<Rightarrow>
     (case sem_open_if (os_sem_open os 3) sem_3_name k of
        None \<Rightarrow> err (Exit_Call 1)
      | Some h3 \<Rightarrow> object_post (Some h3) k)))"

section \<open>Who has opened what\<close>

text \<open>How many of the four objects a process has opened.\<close>

definition opened :: "boot \<Rightarrow> nat" where
  "opened b = (case bt_pc b of B_Remove _ \<Rightarrow> 0 | B_Args \<Rightarrow> 0 | B_Shm \<Rightarrow> 0 | B_Trunc \<Rightarrow> 1 | B_Map \<Rightarrow> 1 | B_Sem1 \<Rightarrow> 1
     | B_Sem2 \<Rightarrow> 2 | B_Sem3 \<Rightarrow> 3 | B_Test \<Rightarrow> 4 | B_Ready \<Rightarrow> 4 | B_Exited _ \<Rightarrow> 4)"

definition not_ahead :: "boot \<Rightarrow> bool" where
  "not_ahead b \<longleftrightarrow> (opened b < 1 \<longrightarrow> bt_shm b = None) \<and> (opened b < 2 \<longrightarrow> bt_sem1 b = None) \<and>
     (opened b < 3 \<longrightarrow> bt_sem2 b = None) \<and> (opened b < 4 \<longrightarrow> bt_sem3 b = None)"

definition not_behind :: "boot \<Rightarrow> bool" where
  "not_behind b \<longleftrightarrow> (case bt_pc b of B_Exited _ \<Rightarrow> True | _ \<Rightarrow>
     (1 \<le> opened b \<longrightarrow> bt_shm b \<noteq> None) \<and> (2 \<le> opened b \<longrightarrow> bt_sem1 b \<noteq> None) \<and>
     (3 \<le> opened b \<longrightarrow> bt_sem2 b \<noteq> None) \<and> (4 \<le> opened b \<longrightarrow> bt_sem3 b \<noteq> None))"

text \<open>The producer tests its semaphores only when it has opened all of them.\<close>

definition has_opened :: "boot \<Rightarrow> bool" where
  "has_opened p \<longleftrightarrow> (case bt_pc p of B_Exited _ \<Rightarrow> True | _ \<Rightarrow> 1 \<le> opened p \<longrightarrow> bt_shm p \<noteq> None) \<and>
     (bt_pc p = B_Ready \<longrightarrow> bt_sem1 p \<noteq> None \<and> bt_sem2 p \<noteq> None \<and> bt_sem3 p \<noteq> None)"

definition follows :: "boot \<Rightarrow> boot \<Rightarrow> bool" where
  "follows p c \<longleftrightarrow> bt_shm c \<in> {None, bt_shm p} \<and> bt_sem1 c \<in> {None, bt_sem1 p} \<and>
     bt_sem2 c \<in> {None, bt_sem2 p} \<and> bt_sem3 c \<in> {None, bt_sem3 p}"

text \<open>The names refer to what the producer has opened, and to nothing else.\<close>

definition names_inv :: "boot \<Rightarrow> ipc \<Rightarrow> bool" where
  "names_inv p k \<longleftrightarrow> not_ahead p \<and> shm_names k SHARED_OBJECT_PATH = bt_shm p \<and> sem_names k sem_1_name = bt_sem1 p \<and>
     sem_names k sem_2_name = bt_sem2 p \<and> sem_names k sem_3_name = bt_sem3 p"

text \<open>The objects are fresh, distinct, and have their first values.\<close>

definition objects_inv :: "boot \<Rightarrow> ipc \<Rightarrow> bool" where
  "objects_inv p k \<longleftrightarrow>
     (\<forall>i. bt_sem1 p = Some i \<longrightarrow> i < length (sem_values k) \<and> sem_values k ! i = 0) \<and>
     (\<forall>i. bt_sem2 p = Some i \<longrightarrow> i < length (sem_values k) \<and> sem_values k ! i = 0 \<and> bt_sem1 p \<noteq> Some i) \<and>
     (\<forall>i. bt_sem3 p = Some i \<longrightarrow> i < length (sem_values k) \<and> sem_values k ! i = 1 \<and> bt_sem1 p \<noteq> Some i \<and> bt_sem2 p \<noteq> Some i) \<and>
     (\<forall>i. bt_shm p = Some i \<longrightarrow> i < length (shm_objects k) \<and>
        shm_objects k ! i = (if bt_pc p = B_Trunc then None else Some zero_buffer))"

definition boot_inv :: "boots \<Rightarrow> bool" where
  "boot_inv s \<longleftrightarrow> names_inv (bs_producer s) (bs_ipc s) \<and> objects_inv (bs_producer s) (bs_ipc s) \<and>
     has_opened (bs_producer s) \<and>
     (\<forall>c \<in> set (bs_consumers s). follows (bs_producer s) c \<and> not_behind c)"

lemmas boot_defs = not_ahead_def not_behind_def opened_def

lemma remove_file_names:
  "sem_names (remove_file p k) n = None \<or> sem_names (remove_file p k) n = sem_names k n"
  "shm_names (remove_file p k) n = None \<or> shm_names (remove_file p k) n = shm_names k n"
  by (simp_all add: remove_file_def)

lemma remove_keeps_none: "sem_names k n = None \<Longrightarrow> sem_names (remove_file q k) n = None"
    "shm_names k n = None \<Longrightarrow> shm_names (remove_file q k) n = None"
  using remove_file_names [of q k n] by auto

lemmas boot_step_defs = producer_boot_step_def names_inv_def boot_defs sem_creat_if_def sem_creat_def
  shm_creat_trunc_def shm_extend_def

lemma producer_boot_names:
  assumes "producer_boot_step os argc (p, k) = Some (p', k')" "names_inv p k"
  shows "names_inv p' k'"
proof (cases "bt_pc p")
  case (B_Remove ps)
  then show ?thesis using assms
    by (cases ps) (auto simp: producer_boot_step_def names_inv_def boot_defs remove_keeps_none)
qed (use assms in \<open>auto simp: boot_step_defs split: if_splits\<close>)

lemma producer_boot_objects:
  assumes "producer_boot_step os argc (p, k) = Some (p', k')" "names_inv p k" "objects_inv p k"
  shows "objects_inv p' k'"
proof (cases "bt_pc p")
  case (B_Remove ps)
  then show ?thesis using assms
    by (cases ps) (auto simp: producer_boot_step_def names_inv_def boot_defs objects_inv_def)
qed (use assms in \<open>auto simp: boot_step_defs objects_inv_def nth_append split: if_splits\<close>)

lemma producer_boot_opened:
  assumes "producer_boot_step os argc (p, k) = Some (p', k')" "names_inv p k" "has_opened p"
  shows "has_opened p'"
proof (cases "bt_pc p")
  case (B_Remove ps)
  then show ?thesis using assms by (cases ps) (auto simp: boot_step_defs has_opened_def)
qed (use assms in \<open>auto simp: boot_step_defs has_opened_def split: if_splits\<close>)

lemma producer_boot_follows:
  assumes "producer_boot_step os argc (p, k) = Some (p', k')" "names_inv p k" "follows p c"
  shows "follows p' c"
proof (cases "bt_pc p")
  case (B_Remove ps)
  then show ?thesis using assms by (cases ps) (auto simp: boot_step_defs follows_def)
qed (use assms in \<open>auto simp: boot_step_defs follows_def split: if_splits\<close>)

lemma follows_upd:
  "follows p (c\<lparr>bt_pc := pc\<rparr>) \<longleftrightarrow> follows p c" "follows p (c\<lparr>bt_mapped := m\<rparr>) \<longleftrightarrow> follows p c"
  "follows p c \<Longrightarrow> bt_shm p = Some i \<Longrightarrow> follows p (c\<lparr>bt_shm := Some i\<rparr>)"
  "follows p c \<Longrightarrow> bt_sem1 p = Some i \<Longrightarrow> follows p (c\<lparr>bt_sem1 := Some i\<rparr>)"
  "follows p c \<Longrightarrow> bt_sem2 p = Some i \<Longrightarrow> follows p (c\<lparr>bt_sem2 := Some i\<rparr>)"
  "follows p c \<Longrightarrow> bt_sem3 p = Some i \<Longrightarrow> follows p (c\<lparr>bt_sem3 := Some i\<rparr>)"
  by (simp_all add: follows_def)

lemma consumer_boot_follows:
  assumes "consumer_boot_step os (c, k) = Some c'" "names_inv p k" "follows p c"
  shows "follows p c'"
  using assms by (cases "bt_pc c")
    (auto simp: consumer_boot_step_def names_inv_def follows_upd sem_open_if_def split: if_splits option.splits)

lemma consumer_boot_behind:
  assumes "consumer_boot_step os (c, k) = Some c'" "not_behind c"
  shows "not_behind c'"
  using assms by (cases "bt_pc c") (auto simp: consumer_boot_step_def boot_defs split: if_splits option.splits)

lemma boot_inv_step: "boot_step os argc osc s s' \<Longrightarrow> boot_inv s \<Longrightarrow> boot_inv s'"
proof (erule boot_stepE)
  fix b k
  assume "boot_inv s" "s' = s\<lparr>bs_producer := b, bs_ipc := k\<rparr>" "producer_boot_step os argc (bs_producer s, bs_ipc s) = Some (b, k)"
  then show "boot_inv s'" using producer_boot_names producer_boot_objects producer_boot_opened producer_boot_follows
    by (simp add: boot_inv_def)
next
  fix i b
  assume inv: "boot_inv s" and s': "s' = s\<lparr>bs_consumers := (bs_consumers s)[i := b]\<rparr>" and i: "i < length (bs_consumers s)"
    and c: "consumer_boot_step (osc i) (bs_consumers s ! i, bs_ipc s) = Some b"
  have "bs_consumers s ! i \<in> set (bs_consumers s)" using i by simp
  with inv consumer_boot_follows [OF c] consumer_boot_behind [OF c] have "follows (bs_producer s) b \<and> not_behind b" by (simp add: boot_inv_def)
  with inv show "boot_inv s'" by (auto simp: s' boot_inv_def dest!: set_update_subset_insert [THEN subsetD])
qed

definition unnamed :: "ipc \<Rightarrow> bool" where
  "unnamed k \<longleftrightarrow> shm_names k SHARED_OBJECT_PATH = None \<and> sem_names k sem_1_name = None \<and>
     sem_names k sem_2_name = None \<and> sem_names k sem_3_name = None"

lemma boot_inv_started:
  "unnamed k \<Longrightarrow> pc \<in> {B_Remove ps, B_Args} \<Longrightarrow> boot_inv (started k pc n)"
  by (auto simp: boot_inv_def started_def boot0_def unnamed_def names_inv_def objects_inv_def boot_defs has_opened_def follows_def)

lemma boot_inv_booted:
  "booted os argc osc s0 s \<Longrightarrow> boot_inv s0 \<Longrightarrow> boot_inv s"
  by (induction rule: booted.induct) (auto intro: boot_inv_step)

lemma booted_same_number: "booted os argc osc s0 s \<Longrightarrow> length (bs_consumers s) = length (bs_consumers s0)"
  by (induction rule: booted.induct) (auto elim!: boot_stepE)

section \<open>One process alone\<close>

fun producer_boots :: "os_calls \<Rightarrow> int \<Rightarrow> nat \<Rightarrow> boot \<times> ipc \<Rightarrow> boot \<times> ipc" where
  "producer_boots os argc 0 s = s"
| "producer_boots os argc (Suc n) s =
     (case producer_boot_step os argc s of None \<Rightarrow> s | Some s' \<Rightarrow> producer_boots os argc n s')"

fun consumer_boots :: "os_calls \<Rightarrow> nat \<Rightarrow> boot \<times> ipc \<Rightarrow> boot" where
  "consumer_boots os 0 s = fst s"
| "consumer_boots os (Suc n) s =
     (case consumer_boot_step os s of None \<Rightarrow> fst s | Some b \<Rightarrow> consumer_boots os n (b, snd s))"

lemma booted_producer:
  "booted os argc osc s0 s \<Longrightarrow>
   (case producer_boots os argc n (bs_producer s, bs_ipc s) of (b, k) \<Rightarrow> booted os argc osc s0 (s\<lparr>bs_producer := b, bs_ipc := k\<rparr>))"
proof (induction n arbitrary: s)
  case (Suc n)
  show ?case
  proof (cases "producer_boot_step os argc (bs_producer s, bs_ipc s)")
    case None
    then show ?thesis using Suc.prems by simp
  next
    case (Some bk)
    obtain b k where bk: "bk = (b, k)" by (cases bk)
    have "booted os argc osc s0 (s\<lparr>bs_producer := b, bs_ipc := k\<rparr>)"
      using Suc.prems Some by (auto simp: bk intro: booted.step boot_step.producer)
    from Suc.IH [OF this] Some show ?thesis by (simp add: bk split: prod.splits)
  qed
qed simp

lemma booted_consumer:
  "booted os argc osc s0 s \<Longrightarrow> i < length (bs_consumers s) \<Longrightarrow>
   booted os argc osc s0 (s\<lparr>bs_consumers := (bs_consumers s)[i := consumer_boots (osc i) n (bs_consumers s ! i, bs_ipc s)]\<rparr>)"
proof (induction n arbitrary: s)
  case (Suc n)
  show ?case
  proof (cases "consumer_boot_step (osc i) (bs_consumers s ! i, bs_ipc s)")
    case None
    then show ?thesis using Suc.prems by simp
  next
    case (Some b)
    have "booted os argc osc s0 (s\<lparr>bs_consumers := (bs_consumers s)[i := b]\<rparr>)"
      using Suc.prems Some by (auto intro: booted.step boot_step.consumer)
    from Suc.IH [OF this] Some Suc.prems(2) show ?thesis by simp
  qed
qed simp

text \<open>After the removals none of the names is left, whatever there was.\<close>

definition removed :: "ipc \<Rightarrow> ipc" where
  "removed k = k\<lparr>sem_names := (sem_names k)(sem_1_name := None, sem_2_name := None, sem_3_name := None),
     shm_names := (shm_names k)(SHARED_OBJECT_PATH := None)\<rparr>"

lemma fold_stale_files: "fold remove_file stale_files k = removed k"
  by (simp add: stale_files_def remove_file_def removed_def name_defs)

lemma unnamed_removed: "unnamed (removed k)"
  by (simp add: unnamed_def removed_def)

lemma producer_boots_remove:
  "producer_boots os argc (length ps + n) (b\<lparr>bt_pc := B_Remove ps\<rparr>, k) = producer_boots os argc n (b\<lparr>bt_pc := B_Remove []\<rparr>, fold remove_file ps k)"
  by (induction ps arbitrary: k) (simp_all add: producer_boot_step_def)

text \<open>The rest of the producer's start, when every call succeeds.\<close>

definition fresh_objects :: "ipc \<Rightarrow> ipc" where
  "fresh_objects k = k\<lparr>
     sem_names := (sem_names k)(sem_1_name \<mapsto> length (sem_values k), sem_2_name \<mapsto> Suc (length (sem_values k)),
        sem_3_name \<mapsto> Suc (Suc (length (sem_values k)))),
     sem_values := sem_values k @ [0, 0, 1],
     shm_names := (shm_names k)(SHARED_OBJECT_PATH \<mapsto> length (shm_objects k)),
     shm_objects := shm_objects k @ [Some zero_buffer]\<rparr>"

definition fresh_boot :: "ipc \<Rightarrow> bool \<Rightarrow> boot" where
  "fresh_boot k m = \<lparr>bt_pc = B_Ready, bt_mapped = m, bt_shm = Some (length (shm_objects k)), bt_sem1 = Some (length (sem_values k)),
     bt_sem2 = Some (Suc (length (sem_values k))), bt_sem3 = Some (Suc (Suc (length (sem_values k))))\<rparr>"

lemmas producer_unfold = producer_boot_step_def boot0_def sem_creat_if_def sem_creat_def shm_creat_trunc_def shm_extend_def

lemma producer_boots_done: "bt_pc b \<in> {B_Ready, B_Exited c} \<Longrightarrow> producer_boots os argc n (b, k) = (b, k)"
  by (cases n) (auto simp: producer_boot_step_def)

lemma producer_boots_fresh:
  assumes "unnamed k" "os_shm_open os" "os_sem_open os 1" "os_sem_open os 2" "os_sem_open os 3"
  shows "producer_boots os 2 9 (boot0 (B_Remove []), k) = (fresh_boot k (os_mmap os), fresh_objects k)"
  using assms by (simp add: producer_unfold numeral_eq_Suc unnamed_def fresh_boot_def fresh_objects_def list_update_append)

lemma boots_in_order:
  assumes "unnamed k" "os_shm_open os" "os_sem_open os 1" "os_sem_open os 2" "os_sem_open os 3"
    and "os_shm_open (osc 0)" "os_sem_open (osc 0) 1" "os_sem_open (osc 0) 2" "os_sem_open (osc 0) 3"
  shows "booted os 2 osc (started k (B_Remove []) 1)
    \<lparr>bs_ipc = fresh_objects k, bs_producer = fresh_boot k (os_mmap os), bs_consumers = [fresh_boot k (os_mmap (osc 0))]\<rparr>"
proof -
  let ?s0 = "started k (B_Remove []) 1"
  have s1: "booted os 2 osc ?s0 (?s0\<lparr>bs_producer := fresh_boot k (os_mmap os), bs_ipc := fresh_objects k\<rparr>)"
    using booted_producer [OF booted.init [of os 2 osc ?s0], of 9] producer_boots_fresh [OF assms(1-5)] by (simp add: started_def)
  have "consumer_boots (osc 0) 5 (boot0 B_Shm, fresh_objects k) = fresh_boot k (os_mmap (osc 0))"
    using assms by (simp add: consumer_boot_step_def boot0_def numeral_eq_Suc sem_open_if_def fresh_objects_def fresh_boot_def)
  with booted_consumer [OF s1, of 0 5] show ?thesis by (simp add: started_def)
qed

section \<open>Properties\<close>

lemma shared_view_start:
  assumes "shm_objects k ! the (bt_shm b) = Some zero_buffer"
    and "sem_values k ! the (bt_sem1 b) = 0" "sem_values k ! the (bt_sem2 b) = 0" "sem_values k ! the (bt_sem3 b) = 1"
  shows "shared_view b pf cf k = start pf cf"
  using assms by (simp add: shared_view_def start_def zero_buffer_def BUF_SIZE_def)

lemma object_wait_view:
  assumes "bt_sem3 b = Some i" "i < length (sem_values k)" "bt_sem1 b \<noteq> None" "bt_sem2 b \<noteq> None"
    and "bt_sem1 b \<noteq> Some i" "bt_sem2 b \<noteq> Some i"
  shows "rbind (object_wait (Some i) k) (\<lambda>k'. ok (shared_view b pf cf k')) = lock_shared_mem (shared_view b pf cf k)"
  using assms by (auto simp: object_wait_def lock_shared_mem_def shared_view_def sem_wait_def Let_def split: nat.splits)

text \<open>
  C20: the producer's start agrees with the start of the model of its loop, whatever names and objects
  earlier runs have left: it exits with status 1 in the same cases, it runs without memory in the
  same cases, and otherwise memory and semaphores are those the loop starts with.
\<close>

theorem producer_start_fresh:
  "case producer_boots os argc 13 (boot0 (B_Remove stale_files), k) of (b, k') \<Rightarrow>
     bt_pc b \<in> {B_Ready, B_Exited 1} \<and>
     producer_start os argc pf cf =
       (if bt_pc b = B_Exited 1 then err (Exit_Call 1)
        else if bt_mapped b then ok (shared_view b pf cf k') else err Bad_Deref)"
proof -
  let ?k = "removed k"
  have l: "length stale_files = 4" by (simp add: stale_files_def)
  have r: "producer_boots os argc 13 (boot0 (B_Remove stale_files), k) = producer_boots os argc 9 (boot0 (B_Remove []), ?k)"
    using producer_boots_remove [of os argc stale_files 9 "boot0 (B_Remove [])" k]
    by (simp add: boot0_def fold_stale_files l)
  consider "argc \<noteq> 2" | "argc = 2" "\<not> os_shm_open os"
    | "argc = 2" "os_shm_open os" "\<not> (os_sem_open os 1 \<and> os_sem_open os 2 \<and> os_sem_open os 3)"
    | "argc = 2" "os_shm_open os" "os_sem_open os 1" "os_sem_open os 2" "os_sem_open os 3" by blast
  then have "case producer_boots os argc 9 (boot0 (B_Remove []), ?k) of (b, k') \<Rightarrow>
     bt_pc b \<in> {B_Ready, B_Exited 1} \<and>
     producer_start os argc pf cf =
       (if bt_pc b = B_Exited 1 then err (Exit_Call 1)
        else if bt_mapped b then ok (shared_view b pf cf k') else err Bad_Deref)"
  proof cases
    case 3
    then have "bt_pc (fst (producer_boots os argc 9 (boot0 (B_Remove []), ?k))) = B_Exited 1"
      by (auto simp: producer_unfold numeral_eq_Suc removed_def)
    then show ?thesis using 3
      by (auto simp: producer_start_def initialize_shared_mem_def initialize_sems_def)
  next
    case 4
    have "shared_view (fresh_boot ?k m) pf cf (fresh_objects ?k) = start pf cf" for m
      by (rule shared_view_start) (simp_all add: fresh_boot_def fresh_objects_def nth_append)
    with 4 show ?thesis
      by (simp add: producer_boots_fresh [OF unnamed_removed] fresh_boot_def producer_start_def
          initialize_shared_mem_def initialize_sems_def)
  qed (simp_all add: producer_unfold numeral_eq_Suc producer_start_def initialize_shared_mem_def)
  then show ?thesis unfolding r .
qed

text \<open>
  Where none of the names is left, in whatever order the producer and any number of consumers
  start, a consumer that gets to its loop has the same memory and the same three semaphores as the
  producer, and if nobody has moved in the loops yet they are as the loops assume. Its lock is the
  producer's.
\<close>

theorem boots_share:
  assumes "booted os argc osc (started k (B_Remove ps) n) s" "unnamed k"
    and "bt_pc (bs_producer s) = B_Ready" "c \<in> set (bs_consumers s)" "bt_pc c = B_Ready"
  shows "bt_shm c = bt_shm (bs_producer s) \<and> bt_sem1 c = bt_sem1 (bs_producer s) \<and> bt_sem2 c = bt_sem2 (bs_producer s) \<and>
    bt_sem3 c = bt_sem3 (bs_producer s) \<and> shared_view c pf cf (bs_ipc s) = start pf cf \<and>
    rbind (client_lock_shared_mem c (bs_ipc s)) (\<lambda>k'. ok (shared_view (bs_producer s) pf cf k')) =
      lock_shared_mem (start pf cf)"
proof -
  let ?p = "bs_producer s" and ?k = "bs_ipc s"
  have "boot_inv s" by (rule boot_inv_booted [OF assms(1)]) (simp add: boot_inv_started assms(2))
  then have o: "objects_inv ?p ?k" and f: "follows ?p c" and b: "not_behind c"
    using assms(4) by (auto simp: boot_inv_def)
  from f b assms(5) obtain m i1 i2 i3 where h: "bt_shm c = Some m" "bt_sem1 c = Some i1" "bt_sem2 c = Some i2" "bt_sem3 c = Some i3"
    and p: "bt_shm ?p = Some m" "bt_sem1 ?p = Some i1" "bt_sem2 ?p = Some i2" "bt_sem3 ?p = Some i3"
    by (auto simp: follows_def boot_defs)
  from o have v: "shm_objects ?k ! m = Some zero_buffer" "sem_values ?k ! i1 = 0" "sem_values ?k ! i2 = 0"
      "sem_values ?k ! i3 = 1" "i3 < length (sem_values ?k)" "i1 \<noteq> i3" "i2 \<noteq> i3"
    using assms(3) by (auto simp: objects_inv_def p)
  have "shared_view ?p pf cf ?k = start pf cf" "shared_view c pf cf ?k = start pf cf"
    by (rule shared_view_start; simp add: h p v)+
  then show ?thesis
    using object_wait_view [of ?p i3 ?k pf cf] v by (simp add: h p client_lock_shared_mem_def)
qed

definition no_names :: ipc where
  "no_names = \<lparr>sem_names = Map.empty, sem_values = [], shm_names = Map.empty, shm_objects = []\<rparr>"

definition all_calls :: os_calls where
  "all_calls = \<lparr>os_shm_open = True, os_mmap = True, os_sem_open = (\<lambda>_. True), os_sem_unlink = (\<lambda>_. True), os_shm_unlink = True\<rparr>"

theorem boots_share_witness:
  "rbind (client_lock_shared_mem (fresh_boot no_names True) (fresh_objects no_names))
     (\<lambda>k'. ok (shared_view (fresh_boot no_names True) False [False] k')) = lock_shared_mem (start False [False])"
  using boots_share [OF boots_in_order [of no_names all_calls "\<lambda>_. all_calls"]]
  by (simp add: unnamed_def no_names_def all_calls_def fresh_boot_def)

lemma boots_meet_run:
  assumes "os_shm_open os" "os_sem_open os 1" "os_sem_open os 2" "os_sem_open os 3"
    and "os_shm_open (osc 0)" "os_sem_open (osc 0) 1" "os_sem_open (osc 0) 2" "os_sem_open (osc 0) 3" "shm_names k SHARED_OBJECT_PATH = Some m"
  shows "\<exists>s. booted os 2 osc (started k (B_Remove stale_files) 1) s \<and>
    bs_producer s = fresh_boot (removed k) (os_mmap os) \<and> bs_ipc s = fresh_objects (removed k) \<and>
    bs_consumers s = [(fresh_boot (removed k) (os_mmap (osc 0)))\<lparr>bt_shm := Some m\<rparr>]"
proof -
  let ?s0 = "started k (B_Remove stale_files) 1"
  let ?c = "(boot0 B_Map)\<lparr>bt_shm := Some m\<rparr>"
  let ?s1 = "?s0\<lparr>bs_consumers := [?c]\<rparr>"
  have "consumer_boots (osc 0) 1 (boot0 B_Shm, k) = ?c"
    using assms by (simp add: consumer_boot_step_def boot0_def)
  then have "booted os 2 osc ?s0 ?s1"
    using booted_consumer [of os 2 osc ?s0 ?s0 0 1] by (simp add: booted.init started_def)
  from booted_producer [OF this, of 13]
  have r: "case producer_boots os 2 13 (boot0 (B_Remove stale_files), k) of (b, k') \<Rightarrow>
      booted os 2 osc ?s0 (?s1\<lparr>bs_producer := b, bs_ipc := k'\<rparr>)" by (simp add: started_def)
  have "producer_boots os 2 13 (boot0 (B_Remove stale_files), k) = producer_boots os 2 9 (boot0 (B_Remove []), removed k)"
    using producer_boots_remove [of os 2 stale_files 9 "boot0 (B_Remove [])" k]
    by (simp add: boot0_def fold_stale_files [symmetric] stale_files_def)
  with producer_boots_fresh [OF unnamed_removed assms(1-4)] r
  have s2: "booted os 2 osc ?s0 (?s1\<lparr>bs_producer := fresh_boot (removed k) (os_mmap os), bs_ipc := fresh_objects (removed k)\<rparr>)"
    (is "booted _ _ _ _ ?s2") by simp
  have "consumer_boots (osc 0) 4 (?c, fresh_objects (removed k)) = (fresh_boot (removed k) (os_mmap (osc 0)))\<lparr>bt_shm := Some m\<rparr>"
    using assms by (simp add: consumer_boot_step_def boot0_def numeral_eq_Suc sem_open_if_def fresh_objects_def fresh_boot_def)
  with booted_consumer [OF s2, of 0 4] show ?thesis by (intro exI conjI) (assumption | simp add: started_def)+
qed

text \<open>
  C38: if a memory object of an earlier run is left, a consumer that looks it up before the producer
  removes the names can go on to open the new semaphores: it then takes the producer's locks and
  signals, and consumes from memory nobody writes to.
\<close>

theorem stale_memory_new_semaphores:
  assumes "shm_names k SHARED_OBJECT_PATH = Some m" "m < length (shm_objects k)"
  shows "\<exists>s. booted all_calls 2 (\<lambda>_. all_calls) (started k (B_Remove stale_files) 1) s \<and>
    bt_pc (bs_producer s) = B_Ready \<and> bt_pc (bs_consumers s ! 0) = B_Ready \<and>
    bt_sem3 (bs_consumers s ! 0) = bt_sem3 (bs_producer s) \<and>
    bt_shm (bs_consumers s ! 0) = Some m \<and> bt_shm (bs_producer s) \<noteq> Some m \<and>
    shm_objects (bs_ipc s) ! m = shm_objects k ! m"
  using boots_meet_run [of all_calls "\<lambda>_. all_calls" k m] assms
  by (auto simp: all_calls_def fresh_boot_def fresh_objects_def removed_def nth_append)

theorem stale_memory_new_semaphores_witness:
  "\<exists>s :: boots. bt_pc (bs_consumers s ! 0) = B_Ready \<and> bt_shm (bs_consumers s ! 0) = Some 0 \<and> bt_shm (bs_producer s) \<noteq> Some 0"
  using stale_memory_new_semaphores [of "no_names\<lparr>shm_names := [SHARED_OBJECT_PATH \<mapsto> 0], shm_objects := [None]\<rparr>" 0]
  by auto

text \<open>
  After the producer has unlinked the names, and likewise before it has created any, a consumer
  exits with status 1 and opens nothing; a second \<open>unlink_all\<close> exits with status 1 and changes nothing.
\<close>

theorem consumer_needs_producer:
  assumes "unlink_names os k = (None, k')"
  shows "bt_pc (consumer_boots osc (Suc n) (boot0 B_Shm, k')) = B_Exited 1 \<and>
    bt_shm (consumer_boots osc (Suc n) (boot0 B_Shm, k')) = None \<and>
    unlink_names os' k' = (Some 1, k') \<and> sem_values k' = sem_values k \<and> shm_objects k' = shm_objects k"
proof -
  have k': "unnamed k' \<and> sem_values k' = sem_values k \<and> shm_objects k' = shm_objects k"
    using assms by (auto simp: unlink_names_def sem_unlink_def shm_unlink_def unnamed_def split: if_splits)
  then have "consumer_boot_step osc (boot0 B_Shm, k') = Some (boot0 (B_Exited 1))"
    by (simp add: consumer_boot_step_def boot0_def unnamed_def)
  then have "consumer_boots osc (Suc n) (boot0 B_Shm, k') = boot0 (B_Exited 1)"
    by (cases n) (simp_all add: consumer_boot_step_def [of _] boot0_def)
  then show ?thesis using k' by (simp add: unlink_names_def sem_unlink_def unnamed_def boot0_def)
qed

theorem consumer_needs_producer_witness:
  "bt_pc (consumer_boots all_calls 6 (boot0 B_Shm, snd (unlink_names all_calls (fresh_objects no_names)))) = B_Exited 1"
  using consumer_needs_producer [of all_calls "fresh_objects no_names" "snd (unlink_names all_calls (fresh_objects no_names))" all_calls 5]
  by (simp add: unlink_names_def sem_unlink_def shm_unlink_def all_calls_def fresh_objects_def no_names_def numeral_eq_Suc)

section \<open>\<open>produce\<close> and \<open>consume\<close>\<close>

fun times_ok :: "nat \<Rightarrow> (ipc \<Rightarrow> ipc res) \<Rightarrow> ipc \<Rightarrow> ipc res" where
  "times_ok 0 f k = ok k"
| "times_ok (Suc n) f k = rbind (f k) (times_ok n f)"

lemma consume_posts:
  assumes "sem_names k sem_1_name \<noteq> None" "sem_names k sem_3_name = Some i" "sem_values k ! i < SEM_VALUE_MAX"
  shows "consume_main all_calls k = ok (k\<lparr>sem_values := (sem_values k)[i := Suc (sem_values k ! i)]\<rparr>)"
  using assms by (auto simp: consume_main_def sem_open_if_def all_calls_def object_post_def sem_post_def)

lemma consume_times:
  assumes "sem_names k sem_1_name \<noteq> None" "sem_names k sem_3_name = Some i" "i < length (sem_values k)"
    and "sem_values k ! i + n \<le> SEM_VALUE_MAX"
  shows "times_ok n (consume_main all_calls) k = ok (k\<lparr>sem_values := (sem_values k)[i := sem_values k ! i + n]\<rparr>)"
  using assms
proof (induction n arbitrary: k)
  case (Suc n)
  have "consume_main all_calls k = ok (k\<lparr>sem_values := (sem_values k)[i := Suc (sem_values k ! i)]\<rparr>)"
    by (rule consume_posts) (use Suc.prems in simp_all)
  moreover have "times_ok n (consume_main all_calls) (k\<lparr>sem_values := (sem_values k)[i := Suc (sem_values k ! i)]\<rparr>) =
      ok (k\<lparr>sem_values := (sem_values k)[i := sem_values k ! i + Suc n]\<rparr>)"
    by (subst Suc.IH) (use Suc.prems in simp_all)
  ultimately show ?case by simp
qed simp

lemma produce_waits:
  assumes "i < length (sem_values k)" "sem_values k ! i = n"
  shows "times_ok n (produce_wait (Some i)) k = ok (k\<lparr>sem_values := (sem_values k)[i := 0]\<rparr>)"
  using assms
proof (induction n arbitrary: k)
  case 0
  then show ?case by (metis ipc.surjective ipc.update_convs(2) list_update_id times_ok.simps(1))
next
  case (Suc n)
  let ?k = "k\<lparr>sem_values := (sem_values k)[i := n]\<rparr>"
  have "times_ok n (produce_wait (Some i)) ?k = ok (?k\<lparr>sem_values := (sem_values ?k)[i := 0]\<rparr>)"
    by (rule Suc.IH) (use Suc.prems in simp_all)
  moreover have "produce_wait (Some i) k = ok ?k"
    using Suc.prems by (simp add: produce_wait_def object_wait_def sem_wait_def)
  ultimately show ?case by simp
qed

text \<open>
  \<open>produce\<close>, started where none of the names is left, waits; \<open>m\<close> runs of \<open>consume\<close> let \<open>m\<close> runs of
  \<open>produce\<close> pass and the next one waits again. So a run of \<open>consume\<close> too many lets a later
  \<open>produce\<close> pass at once, since nobody removes the semaphores. Without \<open>produce\<close>, \<open>consume\<close> exits
  with status 1.
\<close>

theorem produce_waits_for_consume:
  assumes "unnamed k" "produce_open all_calls k = (h, k1)" "m \<le> SEM_VALUE_MAX"
  shows "produce_wait h k1 = None \<and> produce_open all_calls k1 = (h, k1) \<and>
    rbind (times_ok m (consume_main all_calls) k1) (times_ok m (produce_wait h)) = ok k1 \<and>
    consume_main all_calls k = err (Exit_Call 1)"
proof -
  have h: "h = Some (length (sem_values k) + 2)"
    and k1: "sem_names k1 sem_1_name = Some (length (sem_values k))" "sem_names k1 sem_2_name = Some (length (sem_values k) + 1)"
      "sem_names k1 sem_3_name = Some (length (sem_values k) + 2)" "sem_values k1 = sem_values k @ [0, 0, 0]"
    using assms(1,2) by (auto simp: produce_open_def all_calls_def sem_creat_if_def sem_creat_def unnamed_def)
  let ?i = "length (sem_values k) + 2"
  have v: "sem_values k1 ! ?i = 0" "?i < length (sem_values k1)" by (simp_all add: k1 nth_append)
  let ?k = "k1\<lparr>sem_values := (sem_values k1)[?i := m]\<rparr>"
  have "times_ok m (consume_main all_calls) k1 = ok ?k"
    using consume_times [of k1 ?i m] v assms(3) k1 by simp
  moreover have "times_ok m (produce_wait h) ?k = ok (?k\<lparr>sem_values := (sem_values ?k)[?i := 0]\<rparr>)"
    unfolding h by (rule produce_waits) (use v in simp_all)
  moreover have "?k\<lparr>sem_values := (sem_values ?k)[?i := 0]\<rparr> = k1"
    using v by (metis (no_types, lifting) ipc.select_convs(2) ipc.surjective ipc.update_convs(2) list_update_id list_update_overwrite)
  moreover have "produce_wait h k1 = None" by (simp add: h produce_wait_def object_wait_def sem_wait_def k1 nth_append)
  moreover have "produce_open all_calls k1 = (h, k1)"
    by (simp add: produce_open_def all_calls_def sem_creat_if_def sem_creat_def k1 h)
  moreover have "consume_main all_calls k = err (Exit_Call 1)"
    using assms(1) by (simp add: consume_main_def sem_open_if_def unnamed_def)
  ultimately show ?thesis by simp
qed

theorem produce_waits_for_consume_witness:
  "produce_wait (Some 2) (snd (produce_open all_calls no_names)) = None \<and>
   rbind (times_ok 3 (consume_main all_calls) (snd (produce_open all_calls no_names))) (times_ok 3 (produce_wait (Some 2))) =
     ok (snd (produce_open all_calls no_names))"
proof -
  have "produce_open all_calls no_names = (Some 2, snd (produce_open all_calls no_names))"
    by (simp add: produce_open_def all_calls_def sem_creat_if_def sem_creat_def no_names_def)
  from produce_waits_for_consume [OF _ this, of 3] show ?thesis
    by (simp add: unnamed_def no_names_def SEM_VALUE_MAX_def)
qed

end
