(* ===== verification/PcWhole.thy ===== *)
theory PcWhole
  imports NamedSems
begin

text \<open>
  The whole of \<open>pe_3\<close>: producer and consumers from the start of their programs through their loops to
  the end, in every interleaving. A process in its loop works on the objects its handles refer to,
  while other processes may still be opening theirs. NamedSems gives the starts and \<open>unlink_all\<close>,
  ProdCons the loops; the theory shows that every run is a run of the loops from their first state.
\<close>

section \<open>Processes and objects\<close>

text \<open>
  The starting processes with the objects, the local state of the loops, and the history of the
  items, as in ProdCons.
\<close>

record whole =
  wh_boots :: boots
  wh_pp :: producer_pc
  wh_pf :: bool
  wh_cons :: "consumer list"
  wh_made :: "int list"
  wh_eaten :: "int list"

definition buffer_of :: "system \<Rightarrow> shm_buffer" where
  "buffer_of s = \<lparr>bf_work = work s, bf_in = b_in s, bf_out = b_out s, bf_full = is_full s, bf_finished = is_finished s\<rparr>"

text \<open>The state of the loops as a process sees it through its handles, and a new state stored through them.\<close>

definition loop_view :: "boot \<Rightarrow> whole \<Rightarrow> system" where
  "loop_view b w =
     (let k = bs_ipc (wh_boots w); m = the (shm_objects k ! the (bt_shm b)) in
      \<lparr>work = bf_work m, b_in = bf_in m, b_out = bf_out m, is_full = bf_full m, is_finished = bf_finished m,
       sem_1 = sem_values k ! the (bt_sem1 b), sem_2 = sem_values k ! the (bt_sem2 b), sem_3 = sem_values k ! the (bt_sem3 b),
       p_pc = wh_pp w, p_finished = wh_pf w, consumers = wh_cons w, made = wh_made w, eaten = wh_eaten w\<rparr>)"

definition loop_store :: "boot \<Rightarrow> system \<Rightarrow> ipc \<Rightarrow> ipc" where
  "loop_store b s k = k\<lparr>shm_objects := (shm_objects k)[the (bt_shm b) := Some (buffer_of s)],
     sem_values := (sem_values k)[the (bt_sem1 b) := sem_1 s, the (bt_sem2 b) := sem_2 s, the (bt_sem3 b) := sem_3 s]\<rparr>"

definition with_loops :: "system \<Rightarrow> boots \<Rightarrow> whole" where
  "with_loops s bs = \<lparr>wh_boots = bs, wh_pp = p_pc s, wh_pf = p_finished s, wh_cons = consumers s,
     wh_made = made s, wh_eaten = eaten s\<rparr>"

text \<open>A process is in its loop when it is ready and has its memory.\<close>

definition looping :: "boot \<Rightarrow> bool" where
  "looping b \<longleftrightarrow> bt_pc b = B_Ready \<and> bt_mapped b"

text \<open>
  The step of the producer after its loop is \<open>unlink_all\<close>, which removes the names; the process exits
  whatever comes of it.
\<close>

definition after_producer :: "os_calls \<Rightarrow> producer_pc \<Rightarrow> ipc \<Rightarrow> ipc" where
  "after_producer os pc k = (if pc = P_Unlink then snd (unlink_names os k) else k)"

inductive whole_step :: "os_calls \<Rightarrow> int \<Rightarrow> (nat \<Rightarrow> os_calls) \<Rightarrow> int \<Rightarrow> whole \<Rightarrow> whole \<Rightarrow> bool" for os argc osc num_items where
  boot: "boot_step os argc osc (wh_boots w) bs \<Longrightarrow> whole_step os argc osc num_items w (w\<lparr>wh_boots := bs\<rparr>)"
| producer: "looping (bs_producer (wh_boots w)) \<Longrightarrow>
    producer_step num_items item (loop_view (bs_producer (wh_boots w)) w) = ok s' \<Longrightarrow>
    whole_step os argc osc num_items w (with_loops s' ((wh_boots w)\<lparr>bs_ipc :=
      after_producer os (wh_pp w) (loop_store (bs_producer (wh_boots w)) s' (bs_ipc (wh_boots w)))\<rparr>))"
| consumer: "i < length (bs_consumers (wh_boots w)) \<Longrightarrow> looping (bs_consumers (wh_boots w) ! i) \<Longrightarrow>
    consumer_step i (loop_view (bs_consumers (wh_boots w) ! i) w) = ok s' \<Longrightarrow>
    whole_step os argc osc num_items w (with_loops s' ((wh_boots w)\<lparr>bs_ipc :=
      loop_store (bs_consumers (wh_boots w) ! i) s' (bs_ipc (wh_boots w))\<rparr>))"

inductive_cases whole_stepE: "whole_step os argc osc num_items w w'"

inductive whole_run :: "os_calls \<Rightarrow> int \<Rightarrow> (nat \<Rightarrow> os_calls) \<Rightarrow> int \<Rightarrow> whole \<Rightarrow> whole \<Rightarrow> bool" for os argc osc num_items w0 where
  init: "whole_run os argc osc num_items w0 w0"
| step: "whole_run os argc osc num_items w0 w \<Longrightarrow> whole_step os argc osc num_items w w' \<Longrightarrow> whole_run os argc osc num_items w0 w'"

section \<open>The invariant\<close>

definition all_open :: "boot \<Rightarrow> bool" where
  "all_open b \<longleftrightarrow> bt_shm b \<noteq> None \<and> bt_sem1 b \<noteq> None \<and> bt_sem2 b \<noteq> None \<and> bt_sem3 b \<noteq> None"

text \<open>What the producer has opened so far holds what the loops have made of it.\<close>

definition view_ok :: "boot \<Rightarrow> ipc \<Rightarrow> system \<Rightarrow> bool" where
  "view_ok p k s \<longleftrightarrow>
     (\<forall>i. bt_sem1 p = Some i \<longrightarrow> i < length (sem_values k) \<and> sem_values k ! i = sem_1 s) \<and>
     (\<forall>i. bt_sem2 p = Some i \<longrightarrow> i < length (sem_values k) \<and> sem_values k ! i = sem_2 s \<and> bt_sem1 p \<noteq> Some i) \<and>
     (\<forall>i. bt_sem3 p = Some i \<longrightarrow> i < length (sem_values k) \<and> sem_values k ! i = sem_3 s \<and> bt_sem1 p \<noteq> Some i \<and> bt_sem2 p \<noteq> Some i) \<and>
     (\<forall>i. bt_shm p = Some i \<longrightarrow> i < length (shm_objects k) \<and>
        shm_objects k ! i = (if bt_pc p = B_Trunc then None else Some (buffer_of s)))"

lemma view_ok_start: "view_ok p k (start pf cf) \<longleftrightarrow> objects_inv p k"
  by (simp add: view_ok_def objects_inv_def start_def buffer_of_def zero_buffer_def BUF_SIZE_def)

definition names_weak :: "boot \<Rightarrow> ipc \<Rightarrow> bool" where
  "names_weak p k \<longleftrightarrow> (\<forall>i. shm_names k SHARED_OBJECT_PATH = Some i \<longrightarrow> bt_shm p = Some i) \<and>
     (\<forall>i. sem_names k sem_1_name = Some i \<longrightarrow> bt_sem1 p = Some i) \<and>
     (\<forall>i. sem_names k sem_2_name = Some i \<longrightarrow> bt_sem2 p = Some i) \<and>
     (\<forall>i. sem_names k sem_3_name = Some i \<longrightarrow> bt_sem3 p = Some i)"

definition whole_inv :: "system \<Rightarrow> system \<Rightarrow> whole \<Rightarrow> bool" where
  "whole_inv s0 s w \<longleftrightarrow> w = with_loops s (wh_boots w) \<and>
     view_ok (bs_producer (wh_boots w)) (bs_ipc (wh_boots w)) s \<and>
     not_ahead (bs_producer (wh_boots w)) \<and> has_opened (bs_producer (wh_boots w)) \<and>
     names_weak (bs_producer (wh_boots w)) (bs_ipc (wh_boots w)) \<and>
     (\<forall>c\<in>set (bs_consumers (wh_boots w)). follows (bs_producer (wh_boots w)) c \<and> not_behind c) \<and>
     (\<not> all_open (bs_producer (wh_boots w)) \<longrightarrow> s = s0) \<and>
     (bt_pc (bs_producer (wh_boots w)) \<noteq> B_Ready \<longrightarrow> names_inv (bs_producer (wh_boots w)) (bs_ipc (wh_boots w)))"

lemma whole_invD:
  assumes "whole_inv s0 s w"
  shows "w = with_loops s (wh_boots w)" "view_ok (bs_producer (wh_boots w)) (bs_ipc (wh_boots w)) s"
    "not_ahead (bs_producer (wh_boots w))" "has_opened (bs_producer (wh_boots w))"
    "names_weak (bs_producer (wh_boots w)) (bs_ipc (wh_boots w))"
    "c \<in> set (bs_consumers (wh_boots w)) \<Longrightarrow> follows (bs_producer (wh_boots w)) c \<and> not_behind c"
    "\<not> all_open (bs_producer (wh_boots w)) \<Longrightarrow> s = s0"
    "bt_pc (bs_producer (wh_boots w)) \<noteq> B_Ready \<Longrightarrow> names_inv (bs_producer (wh_boots w)) (bs_ipc (wh_boots w))"
  using assms by (auto simp: whole_inv_def)

lemma with_loops_simps [simp]:
  "wh_boots (with_loops s bs) = bs" "wh_pp (with_loops s bs) = p_pc s" "wh_pf (with_loops s bs) = p_finished s"
  "wh_cons (with_loops s bs) = consumers s" "wh_made (with_loops s bs) = made s" "wh_eaten (with_loops s bs) = eaten s"
  "(with_loops s bs)\<lparr>wh_boots := bs'\<rparr> = with_loops s bs'"
  by (simp_all add: with_loops_def)

text \<open>A process in its loop has the handles of the producer, and sees the state of the loops.\<close>

definition same_handles :: "boot \<Rightarrow> boot \<Rightarrow> bool" where
  "same_handles p b \<longleftrightarrow> bt_shm b = bt_shm p \<and> bt_sem1 b = bt_sem1 p \<and> bt_sem2 b = bt_sem2 p \<and> bt_sem3 b = bt_sem3 p"

lemma producer_handles: "whole_inv s0 s w \<Longrightarrow> looping (bs_producer (wh_boots w)) \<Longrightarrow> all_open (bs_producer (wh_boots w))"
  using whole_invD(4) [of s0 s w] by (auto simp: has_opened_def looping_def all_open_def opened_def)

lemma consumer_handles:
  assumes "whole_inv s0 s w" "c \<in> set (bs_consumers (wh_boots w))" "looping c"
  shows "same_handles (bs_producer (wh_boots w)) c" "all_open (bs_producer (wh_boots w))"
  using whole_invD(6) [OF assms(1,2)] assms(3)
  by (auto simp: follows_def not_behind_def opened_def looping_def same_handles_def all_open_def)

lemma open_not_trunc: "not_ahead p \<Longrightarrow> all_open p \<Longrightarrow> bt_pc p \<noteq> B_Trunc"
  by (auto simp: not_ahead_def all_open_def opened_def)

lemma loop_view_eq:
  assumes "whole_inv s0 s w" "same_handles (bs_producer (wh_boots w)) b" "all_open (bs_producer (wh_boots w))"
  shows "loop_view b w = s"
proof -
  let ?p = "bs_producer (wh_boots w)" and ?k = "bs_ipc (wh_boots w)"
  have v: "view_ok ?p ?k s" "bt_pc ?p \<noteq> B_Trunc" "w = with_loops s (wh_boots w)"
    using whole_invD(1-3) [OF assms(1)] open_not_trunc assms(3) by auto
  from assms(3) obtain m i1 i2 i3 where h: "bt_shm ?p = Some m" "bt_sem1 ?p = Some i1" "bt_sem2 ?p = Some i2" "bt_sem3 ?p = Some i3"
    by (auto simp: all_open_def)
  have "wh_pp w = p_pc s" "wh_pf w = p_finished s" "wh_cons w = consumers s" "wh_made w = made s" "wh_eaten w = eaten s"
    by (subst v(3), simp)+
  with assms(2) v(1,2) h show ?thesis
    by (simp add: loop_view_def same_handles_def view_ok_def buffer_of_def)
qed

lemma store_view_ok:
  assumes "whole_inv s0 s w" "same_handles (bs_producer (wh_boots w)) b" "all_open (bs_producer (wh_boots w))"
  shows "view_ok (bs_producer (wh_boots w)) (loop_store b s' (bs_ipc (wh_boots w))) s'"
proof -
  let ?p = "bs_producer (wh_boots w)" and ?k = "bs_ipc (wh_boots w)"
  have v: "view_ok ?p ?k s" "bt_pc ?p \<noteq> B_Trunc" using whole_invD(2,3) [OF assms(1)] open_not_trunc assms(3) by auto
  from assms(3) obtain m i1 i2 i3 where h: "bt_shm ?p = Some m" "bt_sem1 ?p = Some i1" "bt_sem2 ?p = Some i2" "bt_sem3 ?p = Some i3"
    by (auto simp: all_open_def)
  with assms(2) v show ?thesis by (auto simp: view_ok_def same_handles_def loop_store_def)
qed

lemma names_inv_weak: "names_inv p k \<Longrightarrow> names_weak p k"
  by (simp add: names_inv_def names_weak_def)

lemma loop_store_names [simp]:
  "sem_names (loop_store b s k) = sem_names k" "shm_names (loop_store b s k) = shm_names k"
  by (simp_all add: loop_store_def)

lemma store_names:
  "names_weak p k \<Longrightarrow> names_weak p (loop_store b s k)" "names_inv p k \<Longrightarrow> names_inv p (loop_store b s k)"
  by (simp_all add: names_weak_def names_inv_def)

lemma loop_step_inv:
  assumes inv: "whole_inv s0 s w" and "all_open (bs_producer (wh_boots w))"
    and "view_ok (bs_producer (wh_boots w)) k' s'" "names_weak (bs_producer (wh_boots w)) k'"
    and "bt_pc (bs_producer (wh_boots w)) \<noteq> B_Ready \<Longrightarrow> names_inv (bs_producer (wh_boots w)) k'"
  shows "whole_inv s0 s' (with_loops s' ((wh_boots w)\<lparr>bs_ipc := k'\<rparr>))"
  using assms whole_invD(3,4,6) [OF inv] by (simp add: whole_inv_def)

text \<open>\<open>unlink_all\<close> takes names away and leaves the objects.\<close>

lemma unlink_frame:
  "sem_values (snd (unlink_names os k)) = sem_values k" "shm_objects (snd (unlink_names os k)) = shm_objects k"
  by (auto simp: unlink_names_def sem_unlink_def shm_unlink_def split: option.splits)

lemma unlink_takes:
  "sem_names (snd (unlink_names os k)) n = Some i \<Longrightarrow> sem_names k n = Some i"
  "shm_names (snd (unlink_names os k)) n = Some i \<Longrightarrow> shm_names k n = Some i"
  by (auto simp: unlink_names_def sem_unlink_def shm_unlink_def split: option.splits if_splits)

lemma unlink_inv:
  "view_ok p k s \<Longrightarrow> view_ok p (snd (unlink_names os k)) s"
  "names_weak p k \<Longrightarrow> names_weak p (snd (unlink_names os k))"
  by (simp add: view_ok_def unlink_frame) (auto simp: names_weak_def dest: unlink_takes)

lemma producer_loop_inv:
  assumes inv: "whole_inv s0 s w" and loop: "looping (bs_producer (wh_boots w))"
  shows "whole_inv s0 s' (with_loops s' ((wh_boots w)\<lparr>bs_ipc :=
      after_producer os (wh_pp w) (loop_store (bs_producer (wh_boots w)) s' (bs_ipc (wh_boots w)))\<rparr>))"
proof (rule loop_step_inv [OF inv])
  let ?p = "bs_producer (wh_boots w)" and ?k = "bs_ipc (wh_boots w)"
  show a: "all_open ?p" by (rule producer_handles [OF inv loop])
  have v: "view_ok ?p (loop_store ?p s' ?k) s'" by (rule store_view_ok [OF inv _ a]) (simp add: same_handles_def)
  with unlink_inv(1) show "view_ok ?p (after_producer os (wh_pp w) (loop_store ?p s' ?k)) s'" by (simp add: after_producer_def)
  have "names_weak ?p (loop_store ?p s' ?k)" by (rule store_names(1) [OF whole_invD(5) [OF inv]])
  with unlink_inv(2) show "names_weak ?p (after_producer os (wh_pp w) (loop_store ?p s' ?k))" by (simp add: after_producer_def)
qed (use loop in \<open>simp add: looping_def\<close>)

lemma consumer_loop_inv:
  assumes inv: "whole_inv s0 s w" and c: "c \<in> set (bs_consumers (wh_boots w))" "looping c"
  shows "whole_inv s0 s' (with_loops s' ((wh_boots w)\<lparr>bs_ipc := loop_store c s' (bs_ipc (wh_boots w))\<rparr>))"
proof (rule loop_step_inv [OF inv])
  note h = consumer_handles [OF inv c]
  show "all_open (bs_producer (wh_boots w))" by (rule h(2))
  show "view_ok (bs_producer (wh_boots w)) (loop_store c s' (bs_ipc (wh_boots w))) s'"
    by (rule store_view_ok [OF inv h])
qed (use store_names whole_invD(5,8) [OF inv] in blast)+

lemma open_boot_step:
  assumes "producer_boot_step os argc (p, k) = Some (p', k')" "not_ahead p" "all_open p"
  shows "p' = p\<lparr>bt_pc := B_Ready\<rparr> \<and> k' = k"
  using assms
  by (cases "bt_pc p") (auto simp: producer_boot_step_def not_ahead_def all_open_def opened_def split: list.splits)

lemma producer_boot_inv:
  assumes inv: "whole_inv (start pf cf) s w" and b: "producer_boot_step os argc (bs_producer (wh_boots w), bs_ipc (wh_boots w)) = Some (p, k)"
  shows "whole_inv (start pf cf) s (w\<lparr>wh_boots := (wh_boots w)\<lparr>bs_producer := p, bs_ipc := k\<rparr>\<rparr>)"
proof -
  let ?p = "bs_producer (wh_boots w)" and ?k = "bs_ipc (wh_boots w)"
  note I = whole_invD [OF inv]
  have w: "w\<lparr>wh_boots := bs\<rparr> = with_loops s bs" for bs by (subst I(1)) simp
  have ready: "bt_pc ?p \<noteq> B_Ready" using b by (auto simp: producer_boot_step_def)
  show ?thesis
  proof (cases "all_open ?p")
    case True
    from open_boot_step [OF b I(3) True] have p: "p = ?p\<lparr>bt_pc := B_Ready\<rparr>" "k = ?k" by auto
    have o: "opened ?p = 4" using I(3) True by (cases "bt_pc ?p") (auto simp: not_ahead_def all_open_def opened_def)
    have "bt_pc ?p \<noteq> B_Trunc" by (rule open_not_trunc [OF I(3) True])
    with I(2) have "view_ok p k s" by (simp add: view_ok_def p)
    moreover have "not_ahead p" by (simp add: p not_ahead_def opened_def)
    moreover have "has_opened p" "all_open p" using True by (simp_all add: p has_opened_def all_open_def)
    moreover have "names_weak p k" using I(5) by (simp add: p names_weak_def)
    moreover have "follows p c" if "follows ?p c" for c using that by (simp add: p follows_def)
    ultimately show ?thesis using I(6) by (simp add: whole_inv_def w p)
  next
    case False
    have s: "s = start pf cf" by (rule I(7) [OF False])
    have n: "names_inv ?p ?k" by (rule I(8) [OF ready])
    have o: "objects_inv ?p ?k" using I(2) by (simp add: s view_ok_start)
    have "names_inv p k" by (rule producer_boot_names [OF b n])
    moreover have "objects_inv p k" by (rule producer_boot_objects [OF b n o])
    moreover have "has_opened p" by (rule producer_boot_opened [OF b n I(4)])
    moreover have "follows p c" if "follows ?p c" for c by (rule producer_boot_follows [OF b n that])
    ultimately show ?thesis
      using I(6) by (simp add: whole_inv_def w s view_ok_start names_inv_weak) (simp add: names_inv_def)
  qed
qed

lemma consumer_boot_weak:
  assumes "consumer_boot_step os (c, k) = Some c'" "names_weak p k" "follows p c"
  shows "follows p c'"
  using assms by (cases "bt_pc c")
    (auto simp: consumer_boot_step_def names_weak_def follows_upd sem_open_if_def split: if_splits option.splits)

lemma consumer_boot_inv:
  assumes inv: "whole_inv s0 s w" and i: "i < length (bs_consumers (wh_boots w))"
    and b: "consumer_boot_step os (bs_consumers (wh_boots w) ! i, bs_ipc (wh_boots w)) = Some c"
  shows "whole_inv s0 s (w\<lparr>wh_boots := (wh_boots w)\<lparr>bs_consumers := (bs_consumers (wh_boots w))[i := c]\<rparr>\<rparr>)"
proof -
  note I = whole_invD [OF inv]
  have w: "w\<lparr>wh_boots := bs\<rparr> = with_loops s bs" for bs by (subst I(1)) simp
  have "follows (bs_producer (wh_boots w)) c \<and> not_behind c"
    using I(6) [of "bs_consumers (wh_boots w) ! i"] i consumer_boot_weak [OF b I(5)] consumer_boot_behind [OF b] by simp
  with I(2-8) show ?thesis
    by (auto simp: whole_inv_def w dest!: set_update_subset_insert [THEN subsetD])
qed

section \<open>Runs of the whole program\<close>

definition whole_start :: "ipc \<Rightarrow> string list \<Rightarrow> bool \<Rightarrow> bool list \<Rightarrow> whole" where
  "whole_start k files pf cf = with_loops (start pf cf) (started k (B_Remove files) (length cf))"

lemma whole_inv_start: "unnamed k \<Longrightarrow> whole_inv (start pf cf) (start pf cf) (whole_start k files pf cf)"
  using boot_inv_started [of k "B_Remove files" files "length cf"]
  by (simp add: whole_inv_def whole_start_def boot_inv_def view_ok_start names_inv_weak) (simp add: names_inv_def)

lemma producer_step_consumers: "producer_step n item s = ok s' \<Longrightarrow> consumers s' = consumers s"
  by (cases "p_pc s") (auto simp: producer_step_def sem_defs initialize_buffer_def put_item_def split: if_splits nat.splits)

lemma whole_step_inv:
  assumes "whole_step os argc osc num_items w w'" "whole_inv (start pf cf) s w" "reachable num_items s0 s"
    "length (consumers s) = length (bs_consumers (wh_boots w))"
  shows "\<exists>s'. whole_inv (start pf cf) s' w' \<and> reachable num_items s0 s' \<and>
    length (consumers s') = length (bs_consumers (wh_boots w'))"
  using assms(1)
proof (rule whole_stepE)
  fix bs assume w': "w' = w\<lparr>wh_boots := bs\<rparr>" and "boot_step os argc osc (wh_boots w) bs"
  then have "whole_inv (start pf cf) s w' \<and> length (bs_consumers (wh_boots w')) = length (bs_consumers (wh_boots w))"
    using producer_boot_inv [OF assms(2)] consumer_boot_inv [OF assms(2)] unfolding w' by (elim boot_stepE) simp_all
  with assms(3,4) show ?thesis by (intro exI [of _ s]) simp
next
  fix item s'
  let ?p = "bs_producer (wh_boots w)"
  assume w': "w' = with_loops s' ((wh_boots w)\<lparr>bs_ipc := after_producer os (wh_pp w) (loop_store ?p s' (bs_ipc (wh_boots w)))\<rparr>)"
    and l: "looping ?p" and run: "producer_step num_items item (loop_view ?p w) = ok s'"
  have "loop_view ?p w = s"
    by (rule loop_view_eq [OF assms(2) _ producer_handles [OF assms(2) l]]) (simp add: same_handles_def)
  with run have st: "producer_step num_items item s = ok s'" by simp
  then have "reachable num_items s0 s'" using assms(3) reachable.step pc_step.producer by blast
  moreover have "length (consumers s') = length (consumers s)" using producer_step_consumers [OF st] by simp
  ultimately show ?thesis using producer_loop_inv [OF assms(2) l, of s' os] assms(4) by (intro exI [of _ s']) (simp add: w')
next
  fix i s'
  let ?c = "bs_consumers (wh_boots w) ! i"
  assume w': "w' = with_loops s' ((wh_boots w)\<lparr>bs_ipc := loop_store ?c s' (bs_ipc (wh_boots w))\<rparr>)"
    and i: "i < length (bs_consumers (wh_boots w))" and l: "looping ?c" and run: "consumer_step i (loop_view ?c w) = ok s'"
  have c: "?c \<in> set (bs_consumers (wh_boots w))" using i by simp
  have "loop_view ?c w = s" by (rule loop_view_eq [OF assms(2) consumer_handles [OF assms(2) c l]])
  with run have st: "consumer_step i s = ok s'" by simp
  then have "reachable num_items s0 s'" using assms(3,4) i reachable.step pc_step.consumer by metis
  moreover have "length (consumers s') = length (consumers s)" using consumer_step_frame [OF st] by simp
  ultimately show ?thesis using consumer_loop_inv [OF assms(2) c l, of s'] assms(4) by (intro exI [of _ s']) (simp add: w')
qed

lemma whole_run_inv:
  assumes "whole_run os argc osc num_items (whole_start k files pf cf) w" "unnamed k"
  shows "\<exists>s. whole_inv (start pf cf) s w \<and> reachable num_items (start pf cf) s"
proof -
  from assms(1) have "\<exists>s. whole_inv (start pf cf) s w \<and> reachable num_items (start pf cf) s \<and>
      length (consumers s) = length (bs_consumers (wh_boots w))"
  proof (induction rule: whole_run.induct)
    case init
    have "length (consumers (start pf cf)) = length (bs_consumers (wh_boots (whole_start k files pf cf)))"
      by (simp add: whole_start_def started_def start_def)
    then show ?case using whole_inv_start [OF assms(2)] reachable.init by blast
  next
    case (step w w')
    then show ?case using whole_step_inv by blast
  qed
  then show ?thesis by blast
qed

lemma looping_view:
  assumes "whole_inv s0 s w" "b \<in> insert (bs_producer (wh_boots w)) (set (bs_consumers (wh_boots w)))" "looping b"
  shows "loop_view b w = s"
proof (cases "b = bs_producer (wh_boots w)")
  case True
  with loop_view_eq [OF assms(1) _ producer_handles [OF assms(1)]] assms(3) show ?thesis by (simp add: same_handles_def)
next
  case False
  with assms(2) have "b \<in> set (bs_consumers (wh_boots w))" by simp
  from loop_view_eq [OF assms(1) consumer_handles [OF assms(1) this assms(3)]] show ?thesis .
qed

text \<open>
  C11: the whole program refines its loops. If none of the names is left over, then in every run of
  the producer and any number of consumers, starting, looping and unlinking in any order, the
  objects that a process in its loop sees through its own handles hold a state that the loops alone
  reach from their first state, and all processes in their loops see the same state.
\<close>

theorem whole_refines_loops:
  assumes "whole_run os argc osc num_items (whole_start k files pf cf) w" "unnamed k"
  shows "\<exists>s. reachable num_items (start pf cf) s \<and> w = with_loops s (wh_boots w) \<and>
    (\<forall>b\<in>insert (bs_producer (wh_boots w)) (set (bs_consumers (wh_boots w))). looping b \<longrightarrow> loop_view b w = s)"
proof -
  obtain s where s: "whole_inv (start pf cf) s w" "reachable num_items (start pf cf) s" using whole_run_inv [OF assms] by blast
  with looping_view [OF s(1)] whole_invD(1) [OF s(1)] show ?thesis by blast
qed

text \<open>
  C12: when every uninitialised \<open>finished\<close> starts as false and no names of an earlier run are left, no
  item is lost between the processes, from their starts to the end: what the producer has put
  into the buffer is what the consumers have taken out and what a process in its loop still finds in
  it, and once it finds the end declared, all items asked for have been made and consumed.
\<close>

theorem whole_no_item_lost:
  assumes "whole_run os argc osc num_items (whole_start k files False (replicate n False)) w" "unnamed k"
    and "b \<in> insert (bs_producer (wh_boots w)) (set (bs_consumers (wh_boots w)))" "looping b"
  shows "let s = loop_view b w in
    if is_finished s then int (length (wh_made w)) = max 0 num_items \<and> (0 < num_items \<longrightarrow> mset (wh_eaten w) = mset (wh_made w))
    else mset (wh_made w) = mset (wh_eaten w) + mset (take (nat (b_in s)) (work s)) \<and> 0 \<le> b_in s \<and> b_in s \<le> 25"
proof -
  obtain s where s: "whole_inv (clean_start n) s w" "reachable num_items (clean_start n) s" using whole_run_inv [OF assms(1,2)] by blast
  have v: "loop_view b w = s" by (rule looping_view [OF s(1) assms(3,4)])
  have w: "wh_made w = made s" "wh_eaten w = eaten s" by (subst whole_invD(1) [OF s(1)], simp)+
  have inv: "pc_inv num_items s" by (rule reachable_pc_inv [OF s(2)])
  show ?thesis
  proof (cases "is_finished s")
    case True
    with pc_inv_end [OF inv] show ?thesis by (simp add: v w)
  next
    case False
    with inv have "buffer_ok s" by (simp add: pc_inv_def)
    with False show ?thesis by (simp add: v w buffer_ok_def)
  qed
qed

section \<open>Examples\<close>

lemma booted_whole: "booted os argc osc bs bs' \<Longrightarrow> whole_run os argc osc num_items (with_loops s bs) (with_loops s bs')"
proof (induction rule: booted.induct)
  case (step bs bs')
  from whole_run.step [OF step.IH whole_step.boot [of os argc osc "with_loops s bs" bs']] step.hyps(2) show ?case by simp
qed (rule whole_run.init)

text \<open>A producer and a consumer have started, and the producer holds the lock.\<close>

abbreviation demo_boots :: boots where
  "demo_boots \<equiv> \<lparr>bs_ipc = fresh_objects no_names, bs_producer = fresh_boot no_names True, bs_consumers = [fresh_boot no_names True]\<rparr>"

lemma demo_whole_started: "whole_run all_calls 2 (\<lambda>_. all_calls) 3 (whole_start no_names [] False [False]) (with_loops (start False [False]) demo_boots)"
proof -
  have "unnamed no_names" by (simp add: unnamed_def no_names_def)
  from booted_whole [OF boots_in_order [OF this, of all_calls "\<lambda>_. all_calls"]] show ?thesis
    by (simp add: whole_start_def all_calls_def)
qed

lemma demo_whole_locked:
  obtains w where "whole_run all_calls 2 (\<lambda>_. all_calls) 3 (whole_start no_names [] False [False]) w"
    "bs_consumers (wh_boots w) = [fresh_boot no_names True]" "wh_pp w = P_Init" "wh_made w = []"
proof -
  let ?w = "with_loops (start False [False]) demo_boots" and ?p = "fresh_boot no_names True"
  have u: "unnamed no_names" by (simp add: unnamed_def no_names_def)
  have l: "looping ?p" by (simp add: looping_def fresh_boot_def)
  have "loop_view ?p ?w = start False [False]"
    by (simp add: loop_view_def fresh_boot_def fresh_objects_def no_names_def start_def zero_buffer_def BUF_SIZE_def)
  then have "producer_step 3 0 (loop_view ?p ?w) = ok ((start False [False])\<lparr>sem_3 := 0, p_pc := P_Init\<rparr>)"
    by (simp add: producer_step_def start_def lock_shared_mem_def sem_wait_def)
  from whole_run.step [OF demo_whole_started whole_step.producer [of ?w 3 0 _ all_calls]] this l show thesis
    by (intro that) (auto simp: start_def)
qed

lemma whole_refines_loops_witness:
  "\<exists>w s. whole_run all_calls 2 (\<lambda>_. all_calls) 3 (whole_start no_names [] False [False]) w \<and> p_pc s = P_Init \<and>
    reachable 3 (start False [False]) s \<and> loop_view (fresh_boot no_names True) w = s"
proof -
  obtain w where w: "whole_run all_calls 2 (\<lambda>_. all_calls) 3 (whole_start no_names [] False [False]) w"
    "bs_consumers (wh_boots w) = [fresh_boot no_names True]" "wh_pp w = P_Init" by (rule demo_whole_locked)
  have "unnamed no_names" by (simp add: unnamed_def no_names_def)
  from whole_refines_loops [OF w(1) this] obtain s where s: "reachable 3 (start False [False]) s" "w = with_loops s (wh_boots w)"
    "looping (fresh_boot no_names True) \<longrightarrow> loop_view (fresh_boot no_names True) w = s" using w(2) by auto
  have "p_pc s = P_Init" using w(3) by (subst (asm) s(2)) simp
  with w(1) s(1,3) show ?thesis by (auto simp: looping_def fresh_boot_def)
qed

lemma whole_no_item_lost_witness:
  "\<exists>w. whole_run all_calls 2 (\<lambda>_. all_calls) 3 (whole_start no_names [] False [False]) w \<and> wh_pp w = P_Init \<and>
    \<not> is_finished (loop_view (fresh_boot no_names True) w) \<and> b_in (loop_view (fresh_boot no_names True) w) \<le> 25"
proof -
  obtain w where w: "whole_run all_calls 2 (\<lambda>_. all_calls) 3 (whole_start no_names [] False [False]) w"
    "bs_consumers (wh_boots w) = [fresh_boot no_names True]" "wh_pp w = P_Init" "wh_made w = []" by (rule demo_whole_locked)
  have u: "unnamed no_names" by (simp add: unnamed_def no_names_def)
  have "whole_run all_calls 2 (\<lambda>_. all_calls) 3 (whole_start no_names [] False (replicate 1 False)) w" using w(1) by simp
  from whole_no_item_lost [OF this u, of "fresh_boot no_names True"] w show ?thesis
    by (intro exI [of _ w]) (auto simp: looping_def fresh_boot_def Let_def split: if_splits)
qed

end
