(* ===== verification/Primes.thy ===== *)
theory Primes
  imports WorkQueue "HOL-Library.Word"
begin

text \<open>
  The search for primes of \<open>pa_1/primes.c\<close>: trial division on 32 bit numbers, the circular buffer
  with its byte offsets, the report of the signal handlers, and the search itself.
\<close>

section \<open>Trial division\<close>

text \<open>\<open>num\<close> is an \<open>unsigned int\<close>, the divisor an \<open>unsigned long\<close>; their products wrap at 64 bits.\<close>

partial_function (option) trial_loop :: "32 word \<Rightarrow> 64 word \<Rightarrow> bool res" where
  "trial_loop num i =
     (if i * i \<le> ucast num then
        (if i = 0 then err Div_By_Zero
         else if ucast num mod i = 0 then ok False else trial_loop num (i + 2))
      else ok True)"

definition is_prime :: "32 word \<Rightarrow> bool res" where
  "is_prime num =
     (if num < 2 then ok False
      else if num = 2 then ok True
      else if num mod 2 = 0 then ok False
      else trial_loop num 3)"

definition prime_number :: "nat \<Rightarrow> bool" where
  "prime_number p \<longleftrightarrow> 1 < p \<and> (\<forall>d. d dvd p \<longrightarrow> d = 1 \<or> d = p)"

lemma small_divisor:
  assumes "1 < n" "\<not> prime_number n"
  shows "\<exists>d. d dvd n \<and> 1 < d \<and> d * d \<le> n"
proof -
  from assms obtain d where d: "d dvd n" "d \<noteq> 1" "d \<noteq> n" by (auto simp: prime_number_def)
  then obtain e where e: "n = d * e" by (auto elim: dvdE)
  have "e \<noteq> 0" using e assms(1) by (cases e) auto
  moreover have "d \<noteq> 0" "e \<noteq> 1" using d e assms(1) by auto
  ultimately have gt: "1 < d" "1 < e" using d(2) by auto
  show ?thesis
  proof (cases "d \<le> e")
    case True
    then have "d * d \<le> n" unfolding e by simp
    with gt d(1) show ?thesis by blast
  next
    case False
    then have "e * e \<le> n" unfolding e by simp
    with gt e show ?thesis by (metis dvd_triv_right)
  qed
qed

lemma no_divisor_prime:
  assumes "1 < n" "n < k * k" "\<And>d. 1 < d \<Longrightarrow> d < k \<Longrightarrow> \<not> d dvd n"
  shows "prime_number n"
proof (rule ccontr)
  assume "\<not> prime_number n"
  from small_divisor [OF assms(1) this] obtain d where d: "d dvd n" "1 < d" "d * d \<le> n" by blast
  with assms(2) have "d * d < k * k" by linarith
  then have "d < k" by (meson mult_le_mono not_le)
  with d assms(3) show False by blast
qed

lemma trial_loop_correct:
  assumes "odd (unat num)" "odd k" "3 \<le> k" "k < 2 ^ 17" "1 < unat num"
    and "\<And>d. 1 < d \<Longrightarrow> d < k \<Longrightarrow> \<not> d dvd unat num"
  shows "trial_loop num (of_nat k) = ok (prime_number (unat num))"
  using assms
proof (induction "2 ^ 17 - k" arbitrary: k rule: less_induct)
  case less
  let ?n = "unat num"
  have n: "?n < 2 ^ 32" using unsigned_less [of num] by simp
  have kk: "k * k < 2 ^ 64"
  proof -
    have "k * k < 2 ^ 17 * 2 ^ 17" using less.prems(4) by (intro mult_strict_mono) auto
    then show ?thesis by simp
  qed
  have of: "unat (of_nat m :: 64 word) = m" if "m < 2 ^ 64" for m
    using that by (simp add: unat_of_nat take_bit_nat_eq_self)
  have uk: "unat (of_nat k :: 64 word) = k" by (rule of) (use less.prems(4) in simp)
  have un: "unat (ucast num :: 64 word) = ?n"
    unfolding unsigned_ucast_eq by (rule take_bit_nat_eq_self) (use n in simp)
  have prod: "of_nat k * of_nat k = (of_nat (k * k) :: 64 word)" by simp
  have le: "of_nat k * of_nat k \<le> (ucast num :: 64 word) \<longleftrightarrow> k * k \<le> ?n"
    unfolding prod word_le_nat_alt of [OF kk] un ..
  have k0: "(of_nat k :: 64 word) \<noteq> 0" using uk less.prems(3) by (metis not_numeral_le_zero unat_0)
  have md: "ucast num mod (of_nat k :: 64 word) = 0 \<longleftrightarrow> k dvd ?n"
    unfolding unat_0_iff [symmetric] unat_mod_distrib uk un by (simp add: dvd_eq_mod_eq_0)
  have run: "trial_loop num (of_nat k) =
      (if k * k \<le> ?n then (if k dvd ?n then ok False else trial_loop num (of_nat (k + 2))) else ok True)"
    by (subst trial_loop.simps) (simp only: le md k0 if_False of_nat_add of_nat_numeral)
  show ?case
  proof (cases "k * k \<le> ?n")
    case False
    have "prime_number ?n" by (rule no_divisor_prime [of _ k]) (use False less.prems in auto)
    with run False show ?thesis by simp
  next
    case True
    show ?thesis
    proof (cases "k dvd ?n")
      case d: True
      have "1 < k" using less.prems(3) by simp
      moreover have "k * 2 \<le> k * k" using less.prems(3) by simp
      ultimately have "k \<noteq> ?n" using True by linarith
      with d \<open>1 < k\<close> have "\<not> prime_number ?n" by (auto simp: prime_number_def)
      with run True d show ?thesis by simp
    next
      case False
      have "k < 2 ^ 16"
      proof (rule ccontr)
        assume "\<not> k < 2 ^ 16"
        then have "2 ^ 16 * 2 ^ 16 \<le> k * k" by (intro mult_le_mono) simp_all
        with True n show False by simp
      qed
      moreover have "\<not> d dvd ?n" if d1: "1 < d" and d2: "d < k + 2" for d
      proof -
        consider "d < k" | "d = k" | "d = k + 1" using d2 by linarith
        then show ?thesis
        proof cases
          case 3
          then have "even d" using less.prems(2) by simp
          with less.prems(1) show ?thesis by (meson dvd_trans)
        qed (use less.prems(6) d1 False in auto)
      qed
      ultimately have "trial_loop num (of_nat (k + 2)) = ok (prime_number ?n)"
        by (intro less.hyps) (use less.prems in auto)
      with run True False show ?thesis by simp
    qed
  qed
qed

lemma is_prime_correct: "is_prime num = ok (prime_number (unat num))"
proof -
  have lt: "num < 2 \<longleftrightarrow> unat num < 2" by (simp add: word_less_nat_alt)
  have u2: "unat (2 :: 32 word) = 2" by simp
  have two: "num = 2 \<longleftrightarrow> unat num = 2" using u2 by (metis word_unat_eq_iff)
  have md: "num mod 2 = 0 \<longleftrightarrow> even (unat num)"
    unfolding unat_0_iff [symmetric] unat_mod_distrib by (simp add: even_iff_mod_2_eq_zero)
  consider "unat num < 2" | "unat num = 2" | "2 < unat num" "even (unat num)" | "2 < unat num" "odd (unat num)"
    by linarith
  then show ?thesis
  proof cases
    case 1
    then have "\<not> prime_number (unat num)" by (simp add: prime_number_def)
    with 1 show ?thesis by (simp add: is_prime_def lt)
  next
    case 2
    have "prime_number 2"
    proof -
      have "d = 1 \<or> d = 2" if "d dvd 2" for d :: nat
      proof -
        have "d \<le> 2" "d \<noteq> 0" using that dvd_imp_le [of d 2] by (auto intro: Nat.gr0I)
        then show ?thesis by linarith
      qed
      then show ?thesis by (simp add: prime_number_def)
    qed
    with 2 show ?thesis by (simp add: is_prime_def lt two)
  next
    case 3
    then have "\<not> prime_number (unat num)" by (auto simp: prime_number_def)
    with 3 show ?thesis by (simp add: is_prime_def lt two md)
  next
    case 4
    have "trial_loop num (of_nat 3) = ok (prime_number (unat num))"
    proof (rule trial_loop_correct)
      fix d :: nat assume "1 < d" "d < 3"
      then have "d = 2" by simp
      with 4 show "\<not> d dvd unat num" by simp
    qed (use 4 in simp_all)
    with 4 show ?thesis by (simp add: is_prime_def lt two md)
  qed
qed

section \<open>The circular buffer\<close>

text \<open>
  The buffer is a block of bytes (\<open>None\<close> when \<open>malloc\<close> failed; the code only prints a message);
  pointers into it are byte offsets. \<open>buffer_end\<close> is computed on an \<open>int\<close> pointer.
\<close>

record circular_buffer =
  cb_buffer :: "8 word list option"
  buffer_end :: nat
  cb_head :: nat
  cb_tail :: nat
  cb_size :: nat
  cb_count :: nat
  cb_capacity :: nat

definition sizeof_int :: nat where "sizeof_int = 4"
definition sizeof_long :: nat where "sizeof_long = 8"

definition cb_init :: "bool \<Rightarrow> nat \<Rightarrow> nat \<Rightarrow> circular_buffer" where
  "cb_init malloc_ok capacity size' =
     \<lparr>cb_buffer = (if malloc_ok then Some (replicate (capacity * size') 0) else None),
      buffer_end = (capacity + size') * sizeof_int,
      cb_head = 0, cb_tail = 0, cb_size = size', cb_count = 0, cb_capacity = capacity\<rparr>"

text \<open>
  \<open>free\<close> of a list of pointers when the blocks at the offsets \<open>live\<close> are allocated; any other
  argument is undefined behaviour.
\<close>

fun free_all :: "nat set \<Rightarrow> nat list \<Rightarrow> unit res" where
  "free_all live [] = ok ()"
| "free_all live (p # ps) = (if p \<in> live then free_all (live - {p}) ps else err Bad_Deref)"

text \<open>The integers at the end are passed to \<open>free\<close> as pointers; they come after the others.\<close>

definition cb_free :: "circular_buffer \<Rightarrow> unit res" where
  "cb_free cb = free_all {0} [0, buffer_end cb, cb_head cb, cb_tail cb, cb_size cb, cb_count cb, cb_capacity cb]"

text \<open>The bytes of a number in memory, least significant first.\<close>

definition long_bytes :: "64 word \<Rightarrow> 8 word list" where
  "long_bytes w = map (\<lambda>k. ucast (drop_bit (8 * k) w)) [0..<sizeof_long]"

definition bytes_int :: "8 word list \<Rightarrow> 32 word" where
  "bytes_int bs = foldr (\<lambda>b w. or (ucast b) (push_bit 8 w)) bs 0"

text \<open>\<open>memcpy\<close> of \<open>bs\<close> to an offset.\<close>

definition mem_write :: "8 word list \<Rightarrow> nat \<Rightarrow> 8 word list \<Rightarrow> 8 word list res" where
  "mem_write mem p bs =
     (if p + length bs \<le> length mem then ok (take p mem @ bs @ drop (p + length bs) mem) else err Out_Of_Bounds)"

definition mem_read :: "8 word list \<Rightarrow> nat \<Rightarrow> nat \<Rightarrow> 8 word list res" where
  "mem_read mem p k = (if p + k \<le> length mem then ok (take k (drop p mem)) else err Out_Of_Bounds)"

definition cb_push_back :: "circular_buffer \<Rightarrow> 64 word \<Rightarrow> (int \<times> circular_buffer) res" where
  "cb_push_back cb item =
     (let error = (if cb_count cb = cb_capacity cb then -1 else 0) in
      case cb_buffer cb of
        None \<Rightarrow> err Null_Deref
      | Some mem \<Rightarrow>
          if sizeof_long < cb_size cb then err Out_Of_Bounds
          else
            rbind (mem_write mem (cb_head cb) (take (cb_size cb) (long_bytes item))) (\<lambda>mem1.
            let head = cb_head cb + cb_size cb in
            ok (error, cb\<lparr>cb_buffer := Some mem1, cb_head := (if head = buffer_end cb then 0 else head),
                          cb_count := cb_count cb + 1\<rparr>)))"

text \<open>The bytes taken out, when there are any.\<close>

definition cb_pop_front :: "circular_buffer \<Rightarrow> (int \<times> 8 word list \<times> circular_buffer) res" where
  "cb_pop_front cb =
     (if cb_count cb = 0 then ok (-1, [], cb)
      else
        (case cb_buffer cb of
           None \<Rightarrow> err Null_Deref
         | Some mem \<Rightarrow>
             rbind (mem_read mem (cb_tail cb) (cb_size cb)) (\<lambda>item.
             let tail = cb_tail cb + cb_size cb in
             ok (0, item, cb\<lparr>cb_tail := (if tail = buffer_end cb then 0 else tail), cb_count := cb_count cb - 1\<rparr>))))"

text \<open>
  \<open>report\<close>: the numbers printed, and the result. \<open>num\<close> is an \<open>int\<close>, so the copy must not be
  longer than one.
\<close>

fun report_loop :: "nat \<Rightarrow> circular_buffer \<Rightarrow> (32 word list \<times> int \<times> circular_buffer) res" where
  "report_loop 0 cb = ok ([], 0, cb)"
| "report_loop (Suc i) cb =
     rbind (cb_pop_front cb) (\<lambda>(error, item, cb1).
     if error \<noteq> 0 then ok ([], -1, cb1)
     else if sizeof_int < length item then err Out_Of_Bounds
     else rbind (report_loop i cb1) (\<lambda>(nums, r, cb2). ok (bytes_int item # nums, r, cb2)))"

definition report :: "circular_buffer \<Rightarrow> (32 word list \<times> int \<times> circular_buffer) res" where
  "report cb = report_loop 5 cb"

text \<open>The handlers of SIGINT and SIGQUIT, between two turns of the search: what they print; then the process exits with status 0.\<close>

definition int_handler :: "circular_buffer \<Rightarrow> 32 word list res" where
  "int_handler cb = rbind (report cb) (\<lambda>(nums, r, cb1). ok nums)"

definition quit_handler :: "circular_buffer \<Rightarrow> 32 word list res" where
  "quit_handler cb = rbind (report cb) (\<lambda>(nums, r, cb1). ok nums)"

section \<open>The search\<close>

definition LONG_MAX :: "64 word" where "LONG_MAX = 9223372036854775807"

record search =
  s_num :: "64 word"
  num_found :: "64 word"
  buff :: circular_buffer
  printed :: "64 word list"

text \<open>\<open>is_prime\<close> takes an \<open>unsigned int\<close>: \<open>num\<close> is cut to 32 bits.\<close>

definition primes_step :: "search \<Rightarrow> search res" where
  "primes_step s =
     rbind (is_prime (ucast (s_num s))) (\<lambda>p.
     if p then
       rbind (cb_push_back (buff s) (s_num s)) (\<lambda>(error, cb).
       ok (s\<lparr>num_found := num_found s + 1, buff := cb, printed := printed s @ [s_num s], s_num := s_num s + 1\<rparr>))
     else ok (s\<lparr>s_num := s_num s + 1\<rparr>))"

partial_function (option) primes_loop :: "search \<Rightarrow> int res" where
  "primes_loop s = (if s_num s < LONG_MAX then rbind (primes_step s) (\<lambda>s1. primes_loop s1) else ok 0)"

definition search_init :: "bool \<Rightarrow> search" where
  "search_init malloc_ok = \<lparr>s_num = 1, num_found = 0, buff = cb_init malloc_ok 5 sizeof_int, printed = []\<rparr>"

definition primes_main :: "bool \<Rightarrow> int res" where
  "primes_main malloc_ok = primes_loop (search_init malloc_ok)"

text \<open>
  Some turns of the loop; and a signal that arrives after them: what its handler prints, after which
  the process exits with status 0.
\<close>

fun search_turns :: "nat \<Rightarrow> search \<Rightarrow> search res" where
  "search_turns 0 s = ok s"
| "search_turns (Suc n) s = (if s_num s < LONG_MAX then rbind (primes_step s) (\<lambda>s1. search_turns n s1) else ok s)"

definition primes_interrupted :: "bool \<Rightarrow> bool \<Rightarrow> nat \<Rightarrow> 32 word list res" where
  "primes_interrupted malloc_ok quit n =
     rbind (search_turns n (search_init malloc_ok)) (\<lambda>s. if quit then quit_handler (buff s) else int_handler (buff s))"

section \<open>The buffer as a queue of numbers\<close>

lemma bytes_int_long: "bytes_int (take sizeof_int (long_bytes w)) = ucast w"
proof -
  have b: "take sizeof_int (long_bytes w) =
      [ucast (drop_bit 0 w), ucast (drop_bit 8 w), ucast (drop_bit 16 w), ucast (drop_bit 24 w)]"
    by (simp add: sizeof_int_def sizeof_long_def long_bytes_def upt_rec numeral_eq_Suc)
  show ?thesis
    unfolding b bytes_int_def
  proof (rule bit_word_eqI)
    fix n :: nat assume n: "n < LENGTH(32)"
    then consider "n < 8" | "8 \<le> n" "n < 16" | "16 \<le> n" "n < 24" | "24 \<le> n" "n < 32" by force
    then show "bit (foldr (\<lambda>b w. or (ucast b) (push_bit 8 w))
        [ucast (drop_bit 0 w) :: 8 word, ucast (drop_bit 8 w), ucast (drop_bit 16 w), ucast (drop_bit 24 w)] 0 :: 32 word) n =
        bit (ucast w :: 32 word) n"
      by cases (auto simp: bit_simps)
  qed
qed

text \<open>\<open>all\<close> is what has been pushed so far, the first \<open>k\<close> of it popped again.\<close>

definition cb_rep :: "circular_buffer \<Rightarrow> 64 word list \<Rightarrow> nat \<Rightarrow> bool" where
  "cb_rep cb all k \<longleftrightarrow>
     (\<exists>mem. cb_buffer cb = Some mem \<and> length mem = 20 \<and>
        (\<forall>j<length all. take 4 (drop (4 * j) mem) = take 4 (long_bytes (all ! j)))) \<and>
     cb_size cb = 4 \<and> buffer_end cb = 36 \<and> cb_capacity cb = 5 \<and> cb_head cb = 4 * length all \<and>
     cb_tail cb = 4 * k \<and> k \<le> length all \<and> length all \<le> 5 \<and> cb_count cb = length all - k"

lemma cb_rep_init: "cb_rep (cb_init True 5 sizeof_int) [] 0"
  by (simp add: cb_rep_def cb_init_def sizeof_int_def)

lemma length_long_bytes [simp]: "length (long_bytes w) = 8"
  by (simp add: long_bytes_def sizeof_long_def)

lemma cb_push_rep:
  assumes "cb_rep cb all k" "length all < 5"
  shows "\<exists>cb'. cb_push_back cb w = ok (0, cb') \<and> cb_rep cb' (all @ [w]) k"
proof -
  from assms(1) obtain mem where m: "cb_buffer cb = Some mem" "length mem = 20"
    "\<forall>j<length all. take 4 (drop (4 * j) mem) = take 4 (long_bytes (all ! j))" by (auto simp: cb_rep_def)
  note f = assms(1) [unfolded cb_rep_def]
  let ?n = "length all" and ?b = "take 4 (long_bytes w)"
  let ?mem = "take (4 * ?n) mem @ ?b @ drop (4 * ?n + 4) mem"
  let ?cb = "cb\<lparr>cb_buffer := Some ?mem, cb_head := 4 * Suc ?n, cb_count := cb_count cb + 1\<rparr>"
  have n: "4 * ?n + 4 \<le> 20" using assms(2) by simp
  have "4 * ?n + 4 \<noteq> 36" using n by simp
  then have run: "cb_push_back cb w = ok (0, ?cb)"
    using f m(1,2) assms(2) n by (auto simp: cb_push_back_def mem_write_def sizeof_long_def Let_def ac_simps)
  have "take 4 (drop (4 * j) ?mem) = take 4 (long_bytes ((all @ [w]) ! j))" if "j < Suc ?n" for j
  proof (cases "j = ?n")
    case True
    have "length (take (4 * ?n) mem) = 4 * ?n" using m(2) n by simp
    with True show ?thesis by simp
  next
    case False
    with that have j: "j < ?n" by simp
    then have "4 * j + 4 \<le> 4 * ?n" by simp
    then have "take 4 (drop (4 * j) ?mem) = take 4 (drop (4 * j) mem)"
      using m(2) n by (simp add: drop_append take_drop add.commute)
    with m(3) j show ?thesis by (simp add: nth_append)
  qed
  then have "cb_rep ?cb (all @ [w]) k" using f m(2) assms(2) n by (simp add: cb_rep_def Suc_diff_le)
  with run show ?thesis by blast
qed

lemma cb_push_full:
  assumes "cb_rep cb all k" "length all = 5"
  shows "cb_push_back cb w = err Out_Of_Bounds"
  using assms by (auto simp: cb_rep_def cb_push_back_def mem_write_def sizeof_long_def Let_def)

lemma cb_pop_rep:
  assumes "cb_rep cb all k" "k < length all"
  shows "\<exists>cb'. cb_pop_front cb = ok (0, take 4 (long_bytes (all ! k)), cb') \<and> cb_rep cb' all (Suc k)"
proof -
  from assms(1) obtain mem where m: "cb_buffer cb = Some mem" "length mem = 20"
    "\<forall>j<length all. take 4 (drop (4 * j) mem) = take 4 (long_bytes (all ! j))" by (auto simp: cb_rep_def)
  note f = assms(1) [unfolded cb_rep_def]
  let ?cb = "cb\<lparr>cb_tail := 4 * Suc k, cb_count := cb_count cb - 1\<rparr>"
  have "4 * k + 4 \<le> 20" "4 * k + 4 \<noteq> 36" using f assms(2) by simp_all
  with f m assms(2) have "cb_pop_front cb = ok (0, take 4 (long_bytes (all ! k)), ?cb)"
    by (auto simp: cb_pop_front_def mem_read_def Let_def)
  moreover have "cb_rep ?cb all (Suc k)" using f assms(2) by (simp add: cb_rep_def)
  ultimately show ?thesis by blast
qed

lemma cb_pop_empty: "cb_rep cb all (length all) \<Longrightarrow> cb_pop_front cb = ok (-1, [], cb)"
  by (simp add: cb_rep_def cb_pop_front_def)

text \<open>Calls of the two operations one after the other, and what they return.\<close>

fun cb_ops :: "circular_buffer \<Rightarrow> 64 word qop list \<Rightarrow> (32 word option list \<times> circular_buffer) res" where
  "cb_ops cb [] = ok ([], cb)"
| "cb_ops cb (Insert w # ops) = rbind (cb_push_back cb w) (\<lambda>(e, cb1). cb_ops cb1 ops)"
| "cb_ops cb (Remove # ops) =
     rbind (cb_pop_front cb) (\<lambda>(e, item, cb1).
     rbind (cb_ops cb1 ops) (\<lambda>(rs, cb2). ok ((if e = 0 then Some (bytes_int item) else None) # rs, cb2)))"

fun pushes :: "'a qop list \<Rightarrow> nat" where
  "pushes [] = 0"
| "pushes (Insert a # ops) = Suc (pushes ops)"
| "pushes (Remove # ops) = pushes ops"

fun qop_map :: "('a \<Rightarrow> 'b) \<Rightarrow> 'a qop \<Rightarrow> 'b qop" where
  "qop_map f (Insert a) = Insert (f a)"
| "qop_map f Remove = Remove"

lemma cb_ops_fifo:
  "cb_rep cb all k \<Longrightarrow> length all + pushes ops \<le> 5 \<Longrightarrow>
   \<exists>cb'. cb_ops cb ops = ok (fst (fifo_run (map ucast (drop k all)) (map (qop_map ucast) ops)), cb')"
proof (induction ops arbitrary: cb all k)
  case (Cons x ops)
  show ?case
  proof (cases x)
    case (Insert w)
    with Cons.prems obtain cb1 where "cb_push_back cb w = ok (0, cb1)" "cb_rep cb1 (all @ [w]) k"
      using cb_push_rep [of cb all k w] by auto
    moreover have "k \<le> length all" using Cons.prems(1) by (simp add: cb_rep_def)
    ultimately show ?thesis using Cons.IH [of cb1 "all @ [w]" k] Cons.prems(2) Insert by simp
  next
    case Remove
    show ?thesis
    proof (cases "k < length all")
      case True
      from cb_pop_rep [OF Cons.prems(1) True] obtain cb1 where
        1: "cb_pop_front cb = ok (0, take 4 (long_bytes (all ! k)), cb1)" "cb_rep cb1 all (Suc k)" by blast
      from Cons.IH [OF 1(2)] Cons.prems(2) Remove obtain cb' where
        "cb_ops cb1 ops = ok (fst (fifo_run (map ucast (drop (Suc k) all)) (map (qop_map ucast) ops)), cb')" by auto
      moreover have "bytes_int (take 4 (long_bytes (all ! k))) = ucast (all ! k)"
        using bytes_int_long [of "all ! k"] by (simp add: sizeof_int_def)
      moreover have "drop k all = all ! k # drop (Suc k) all" using True by (simp add: Cons_nth_drop_Suc)
      ultimately show ?thesis using 1(1) Remove by simp
    next
      case False
      with Cons.prems(1) have k: "k = length all" by (simp add: cb_rep_def)
      with Cons.prems(1) cb_pop_empty have e: "cb_pop_front cb = ok (-1, [], cb)" by blast
      from Cons.IH [OF Cons.prems(1)] Cons.prems(2) Remove k obtain cb' where
        "cb_ops cb ops = ok (fst (fifo_run [] (map (qop_map ucast) ops)), cb')" by auto
      with e Remove k show ?thesis by simp
    qed
  qed
qed simp

section \<open>Properties\<close>

text \<open>
  C25: \<open>is_prime\<close> returns for every 32 bit number, and decides whether it is a prime; the products
  of its divisors do not overflow.
\<close>

theorem is_prime_decides: "is_prime num = ok (prime_number (unat num))"
  by (rule is_prime_correct)

lemma unat_ucast_mod: "unat (ucast (w :: 64 word) :: 32 word) = unat w mod 2 ^ 32"
  unfolding unsigned_ucast_eq by (simp add: take_bit_eq_mod)

text \<open>
  The search passes its 64 bit number to a 32 bit parameter, so what it tests is the number
  modulo \<open>2^32\<close>: every even number of the form \<open>k * 2^32 + 2\<close> below \<open>2^64\<close> is taken for a prime.
\<close>

theorem search_tests_modulo:
  "is_prime (ucast (s_num s)) = ok (prime_number (unat (s_num s) mod 2 ^ 32)) \<and>
   (unat (s_num s) mod 2 ^ 32 = 2 \<longrightarrow> is_prime (ucast (s_num s)) = ok True \<and> even (unat (s_num s)))"
proof -
  have "prime_number 2"
  proof -
    have "d = 1 \<or> d = 2" if "d dvd 2" for d :: nat
    proof -
      have "d \<le> 2" "d \<noteq> 0" using that dvd_imp_le [of d 2] by (auto intro: Nat.gr0I)
      then show ?thesis by linarith
    qed
    then show ?thesis by (simp add: prime_number_def)
  qed
  moreover have "even (unat (s_num s))" if "unat (s_num s) mod 2 ^ 32 = 2"
  proof -
    have "even (unat (s_num s) mod 2 ^ 32)" using that by simp
    then show ?thesis using dvd_mod_iff [of 2 "2 ^ 32" "unat (s_num s)"] by simp
  qed
  ultimately show ?thesis by (simp add: is_prime_correct unat_ucast_mod)
qed

lemma search_tests_modulo_witness:
  "is_prime (ucast (4294967298 :: 64 word)) = ok True \<and> even (unat (4294967298 :: 64 word))"
proof -
  let ?s = "(search_init True)\<lparr>s_num := 4294967298\<rparr>"
  have e: "s_num ?s = 4294967298" by simp
  have m: "unat (4294967298 :: 64 word) mod 2 ^ 32 = 2" by simp
  from search_tests_modulo [of ?s] m show ?thesis unfolding e by blast
qed

text \<open>
  C32: with the buffer as the search creates it, any sequence of calls with at most five pushes
  returns what a FIFO queue of the low 32 bits returns, an error code for each pop from the empty
  buffer included.
\<close>

theorem cb_is_fifo:
  assumes "pushes ops \<le> 5"
  shows "\<exists>cb. cb_ops (cb_init True 5 sizeof_int) ops = ok (fst (fifo_run [] (map (qop_map ucast) ops)), cb)"
  using cb_ops_fifo [OF cb_rep_init, of ops] assms by simp

lemma cb_is_fifo_witness:
  "\<exists>cb. cb_ops (cb_init True 5 sizeof_int) [Insert 2, Remove, Remove, Insert 3, Insert 5, Remove] =
     ok ([Some 2, None, Some 3], cb)"
  using cb_is_fifo [of "[Insert 2, Remove, Remove, Insert 3, Insert 5, Remove]"]
  by (simp del: cb_ops.simps)

lemma cb_ops_rep:
  "cb_rep cb all k \<Longrightarrow> length all + pushes ops \<le> 5 \<Longrightarrow>
   \<exists>r cb' all' k'. cb_ops cb ops = ok (r, cb') \<and> cb_rep cb' all' k' \<and> length all' = length all + pushes ops"
proof (induction ops arbitrary: cb all k)
  case (Cons x ops)
  show ?case
  proof (cases x)
    case (Insert w)
    with Cons.prems obtain cb1 where "cb_push_back cb w = ok (0, cb1)" "cb_rep cb1 (all @ [w]) k"
      using cb_push_rep [of cb all k w] by auto
    then show ?thesis using Cons.IH [of cb1 "all @ [w]" k] Cons.prems(2) Insert by auto
  next
    case Remove
    obtain e item cb1 k1 where 1: "cb_pop_front cb = ok (e, item, cb1)" "cb_rep cb1 all k1"
    proof (cases "k < length all")
      case True
      from cb_pop_rep [OF Cons.prems(1) True] that show thesis by blast
    next
      case False
      with Cons.prems(1) have k: "k = length all" by (simp add: cb_rep_def)
      have "cb_pop_front cb = ok (-1, [], cb)" by (rule cb_pop_empty) (use Cons.prems(1) k in simp)
      with that Cons.prems(1) show thesis by blast
    qed
    from Cons.IH [OF 1(2)] Cons.prems(2) Remove obtain r cb' all' k' where
      "cb_ops cb1 ops = ok (r, cb')" "cb_rep cb' all' k'" "length all' = length all + pushes ops" by auto
    with Remove 1(1) show ?thesis
      by (intro exI [of _ "(if e = 0 then Some (bytes_int item) else None) # r"] exI [of _ cb'] exI [of _ all']
          exI [of _ k']) simp
  qed
qed (auto intro: exI)

lemma cb_ops_append:
  "cb_ops cb (ops @ ops') = rbind (cb_ops cb ops) (\<lambda>(r, cb1). rbind (cb_ops cb1 ops') (\<lambda>(r', cb2). ok (r @ r', cb2)))"
proof (induction ops arbitrary: cb)
  case Nil
  then show ?case by (cases "cb_ops cb ops'" rule: res_cases) auto
next
  case (Cons x ops)
  then show ?case
    by (cases x) (auto simp: rbind_assoc split_beta intro!: arg_cong [where f = "rbind _"] ext)
qed

text \<open>
  The sixth push always writes past the end of the block, however many items have been popped:
  \<open>buffer_end\<close> lies 16 bytes behind the end, so the head never wraps.
\<close>

theorem cb_sixth_push:
  assumes "pushes ops = 5"
  shows "cb_ops (cb_init True 5 sizeof_int) (ops @ [Insert w]) = err Out_Of_Bounds"
proof -
  obtain r cb' all' k' where "cb_ops (cb_init True 5 sizeof_int) ops = ok (r, cb')" "cb_rep cb' all' k'" "length all' = 5"
    using cb_ops_rep [OF cb_rep_init, of ops] assms by auto
  with cb_push_full [of cb' all' k' w] show ?thesis by (simp add: cb_ops_append)
qed

lemma cb_sixth_push_witness:
  "cb_ops (cb_init True 5 sizeof_int) ([Insert 2, Remove, Insert 3, Insert 5, Insert 7, Remove, Insert 11] @ [Insert 13]) =
     err Out_Of_Bounds"
  by (rule cb_sixth_push) simp

lemma small_primes:
  "is_prime 1 = ok False" "is_prime 2 = ok True" "is_prime 3 = ok True" "is_prime 4 = ok False"
  "is_prime 5 = ok True" "is_prime 6 = ok False" "is_prime 7 = ok True" "is_prime 8 = ok False"
  "is_prime 9 = ok False" "is_prime 10 = ok False" "is_prime 11 = ok True" "is_prime 12 = ok False"
  "is_prime 13 = ok True"
  by (simp_all add: is_prime_def trial_loop.simps [of _ 3] trial_loop.simps [of _ 5])

lemma search_skip:
  assumes "is_prime (ucast n) = ok False" "n < LONG_MAX"
  shows "primes_loop \<lparr>s_num = n, num_found = f, buff = b, printed = out\<rparr> =
    primes_loop \<lparr>s_num = n + 1, num_found = f, buff = b, printed = out\<rparr>"
  using assms by (subst primes_loop.simps) (simp add: primes_step_def)

lemma search_prime:
  assumes "is_prime (ucast n) = ok True" "n < LONG_MAX" "cb_rep b all 0" "length all < 5"
  shows "\<exists>b'. primes_loop \<lparr>s_num = n, num_found = f, buff = b, printed = out\<rparr> =
    primes_loop \<lparr>s_num = n + 1, num_found = f + 1, buff = b', printed = out @ [n]\<rparr> \<and> cb_rep b' (all @ [n]) 0"
proof -
  from cb_push_rep [OF assms(3,4), of n] obtain b' where "cb_push_back b n = ok (0, b')" "cb_rep b' (all @ [n]) 0" by blast
  with assms(1,2) show ?thesis
    by (intro exI [of _ b'], subst primes_loop.simps) (simp add: primes_step_def)
qed

lemma search_to_13:
  "\<exists>b. primes_loop (search_init True) =
     primes_loop \<lparr>s_num = 13, num_found = 5, buff = b, printed = [2, 3, 5, 7, 11]\<rparr> \<and> cb_rep b [2, 3, 5, 7, 11] 0"
proof -
  have lt: "n < 20 \<Longrightarrow> n < LONG_MAX" for n :: "64 word" unfolding LONG_MAX_def word_less_nat_alt by simp
  obtain b2 where 2: "primes_loop \<lparr>s_num = 2, num_found = 0, buff = cb_init True 5 sizeof_int, printed = []\<rparr> =
      primes_loop \<lparr>s_num = 3, num_found = 1, buff = b2, printed = [2]\<rparr>" "cb_rep b2 [2] 0"
    using search_prime [OF _ lt cb_rep_init, of 2 0 "[]"] by (auto simp: small_primes)
  obtain b3 where 3: "primes_loop \<lparr>s_num = 3, num_found = 1, buff = b2, printed = [2]\<rparr> =
      primes_loop \<lparr>s_num = 4, num_found = 2, buff = b3, printed = [2, 3]\<rparr>" "cb_rep b3 [2, 3] 0"
    using search_prime [OF _ lt 2(2), of 3 1 "[2]"] by (auto simp: small_primes)
  obtain b5 where 5: "primes_loop \<lparr>s_num = 5, num_found = 2, buff = b3, printed = [2, 3]\<rparr> =
      primes_loop \<lparr>s_num = 6, num_found = 3, buff = b5, printed = [2, 3, 5]\<rparr>" "cb_rep b5 [2, 3, 5] 0"
    using search_prime [OF _ lt 3(2), of 5 2 "[2, 3]"] by (auto simp: small_primes)
  obtain b7 where 7: "primes_loop \<lparr>s_num = 7, num_found = 3, buff = b5, printed = [2, 3, 5]\<rparr> =
      primes_loop \<lparr>s_num = 8, num_found = 4, buff = b7, printed = [2, 3, 5, 7]\<rparr>" "cb_rep b7 [2, 3, 5, 7] 0"
    using search_prime [OF _ lt 5(2), of 7 3 "[2, 3, 5]"] by (auto simp: small_primes)
  obtain b11 where 11: "primes_loop \<lparr>s_num = 11, num_found = 4, buff = b7, printed = [2, 3, 5, 7]\<rparr> =
      primes_loop \<lparr>s_num = 12, num_found = 5, buff = b11, printed = [2, 3, 5, 7, 11]\<rparr>" "cb_rep b11 [2, 3, 5, 7, 11] 0"
    using search_prime [OF _ lt 7(2), of 11 4 "[2, 3, 5, 7]"] by (auto simp: small_primes)
  note skip = search_skip [OF _ lt, simplified]
  show ?thesis
    using 2 3 5 7 11 skip [of 1] skip [of 4] skip [of 6] skip [of 8] skip [of 9] skip [of 10] skip [of 12]
    by (auto simp: search_init_def small_primes)
qed

lemma report_loop_rep:
  "cb_rep cb all k \<Longrightarrow>
   \<exists>r cb'. report_loop i cb = ok (map ucast (take i (drop k all)), r, cb') \<and> (r = 0 \<longleftrightarrow> i \<le> length all - k)"
proof (induction i arbitrary: cb k)
  case (Suc i)
  show ?case
  proof (cases "k < length all")
    case True
    from cb_pop_rep [OF Suc.prems True] obtain cb1 where
      1: "cb_pop_front cb = ok (0, take 4 (long_bytes (all ! k)), cb1)" "cb_rep cb1 all (Suc k)" by blast
    from Suc.IH [OF 1(2)] obtain r cb' where
      2: "report_loop i cb1 = ok (map ucast (take i (drop (Suc k) all)), r, cb')" "r = 0 \<longleftrightarrow> i \<le> length all - Suc k" by blast
    have "bytes_int (take 4 (long_bytes (all ! k))) = ucast (all ! k)"
      using bytes_int_long [of "all ! k"] by (simp add: sizeof_int_def)
    moreover have "drop k all = all ! k # drop (Suc k) all" using True by (simp add: Cons_nth_drop_Suc)
    ultimately show ?thesis using 1 2 True by (auto simp: sizeof_int_def)
  next
    case False
    with Suc.prems have k: "k = length all" by (simp add: cb_rep_def)
    have "cb_pop_front cb = ok (-1, [], cb)" by (rule cb_pop_empty) (use Suc.prems k in simp)
    with k show ?thesis by simp
  qed
qed simp

text \<open>
  What the handlers of the two signals do at any time before the sixth prime: they print the
  primes found and not yet reported, oldest first and at most five; with fewer than five the report
  fails after the last. Freeing the buffer with \<open>cb_free\<close> is undefined behaviour in every state.
\<close>

theorem report_oldest_first:
  assumes "cb_rep cb all k"
  shows "int_handler cb = ok (map ucast (take 5 (drop k all))) \<and> quit_handler cb = int_handler cb \<and>
    (\<exists>nums r cb'. report cb = ok (nums, r, cb') \<and> (r = 0 \<longleftrightarrow> 5 \<le> length all - k)) \<and>
    cb_free cb = err Bad_Deref"
proof -
  obtain r cb' where r: "report cb = ok (map ucast (take 5 (drop k all)), r, cb')" "r = 0 \<longleftrightarrow> 5 \<le> length all - k"
    using report_loop_rep [OF assms, of 5] by (auto simp: report_def)
  have "cb_free cb = err Bad_Deref" using assms by (simp add: cb_free_def cb_rep_def)
  with r show ?thesis by (auto simp: int_handler_def quit_handler_def)
qed

lemma report_oldest_first_witness:
  "\<exists>b. primes_loop (search_init True) =
      primes_loop \<lparr>s_num = 13, num_found = 5, buff = b, printed = [2, 3, 5, 7, 11]\<rparr> \<and>
    int_handler b = ok [2, 3, 5, 7, 11] \<and> cb_free b = err Bad_Deref"
proof -
  obtain b where b: "primes_loop (search_init True) =
     primes_loop \<lparr>s_num = 13, num_found = 5, buff = b, printed = [2, 3, 5, 7, 11]\<rparr>" "cb_rep b [2, 3, 5, 7, 11] 0"
    using search_to_13 by blast
  from report_oldest_first [OF b(2)] b(1) show ?thesis by (intro exI [of _ b]) simp
qed

section \<open>The whole search\<close>

lemma search_turns_add: "search_turns (m + n) s = rbind (search_turns m s) (search_turns n)"
proof (induction m arbitrary: s)
  case (Suc m)
  have stop: "\<not> s_num s < LONG_MAX \<Longrightarrow> search_turns n s = ok s" by (cases n) simp_all
  show ?case
  proof (cases "s_num s < LONG_MAX")
    case True
    have "search_turns (m + n) = (\<lambda>s. rbind (search_turns m s) (search_turns n))" using Suc by (intro ext)
    with True show ?thesis by (simp add: rbind_assoc)
  qed (use stop in simp)
qed simp

lemma primes_loop_turns: "search_turns n s = err e \<Longrightarrow> primes_loop s = err e"
proof (induction n arbitrary: s)
  case (Suc n)
  then have t: "s_num s < LONG_MAX" by (cases "s_num s < LONG_MAX") simp_all
  with Suc.prems have "rbind (primes_step s) (\<lambda>s1. search_turns n s1) = err e" by simp
  then have "rbind (primes_step s) primes_loop = err e"
    using Suc.IH by (cases "primes_step s" rule: res_cases) simp_all
  with t show ?case by (subst primes_loop.simps) simp
qed simp

definition primes_upto :: "nat \<Rightarrow> nat list" where
  "primes_upto k = filter prime_number [2..<Suc k]"

lemma is_prime_small: "n < 2 ^ 32 \<Longrightarrow> is_prime (ucast (of_nat n :: 64 word)) = ok (prime_number n)"
  by (simp add: is_prime_correct unat_ucast_mod unat_of_nat)

lemma ucast_of_nat_int: "ucast (of_nat n :: 64 word) = (of_nat n :: 32 word)"
  by (rule bit_word_eqI) (simp add: bit_simps)

lemma prime_numbers:
  "prime_number 2" "prime_number 3" "\<not> prime_number 4" "prime_number 5" "\<not> prime_number 6" "prime_number 7"
  "\<not> prime_number 8" "\<not> prime_number 9" "\<not> prime_number 10" "prime_number 11" "\<not> prime_number 12" "prime_number 13"
  using is_prime_correct [of 2] is_prime_correct [of 3] is_prime_correct [of 4] is_prime_correct [of 5] is_prime_correct [of 6]
    is_prime_correct [of 7] is_prime_correct [of 8] is_prime_correct [of 9] is_prime_correct [of 10] is_prime_correct [of 11]
    is_prime_correct [of 12] is_prime_correct [of 13]
  by (simp_all add: small_primes)

lemma primes_upto_12: "primes_upto 12 = [2, 3, 5, 7, 11]"
  by (simp add: primes_upto_def prime_numbers upt_rec)

lemma primes_upto_Suc: "primes_upto (Suc k) = primes_upto k @ (if 1 \<le> k \<and> prime_number (Suc k) then [Suc k] else [])"
  by (cases k) (auto simp: primes_upto_def)

lemma primes_upto_length: "k \<le> m \<Longrightarrow> length (primes_upto k) \<le> length (primes_upto m)"
  by (induction m) (auto simp: le_Suc_eq primes_upto_Suc)

lemma search_state:
  "k \<le> 12 \<Longrightarrow> \<exists>b. search_turns k (search_init True) =
     ok \<lparr>s_num = of_nat (Suc k), num_found = of_nat (length (primes_upto k)), buff = b, printed = map of_nat (primes_upto k)\<rparr> \<and>
     cb_rep b (map of_nat (primes_upto k)) 0"
proof (induction k)
  case 0
  show ?case using cb_rep_init by (simp add: search_init_def primes_upto_def)
next
  case (Suc k)
  then obtain b where b: "search_turns k (search_init True) =
      ok \<lparr>s_num = of_nat (Suc k), num_found = of_nat (length (primes_upto k)), buff = b, printed = map of_nat (primes_upto k)\<rparr>"
    "cb_rep b (map of_nat (primes_upto k)) 0" by auto
  let ?s = "\<lparr>s_num = of_nat (Suc k), num_found = of_nat (length (primes_upto k)), buff = b, printed = map of_nat (primes_upto k)\<rparr>"
  have turn: "search_turns (Suc k) (search_init True) = search_turns 1 ?s"
    using search_turns_add [of k 1 "search_init True"] b(1) by simp
  have small: "(of_nat (Suc k) :: 64 word) < LONG_MAX"
    using Suc.prems by (simp add: LONG_MAX_def word_less_nat_alt unat_of_nat del: of_nat_Suc)
  have prime: "is_prime (ucast (of_nat (Suc k) :: 64 word)) = ok (prime_number (Suc k))"
    using Suc.prems by (intro is_prime_small) simp
  have one: "1 \<le> k" if "prime_number (Suc k)" using that by (cases k) (auto simp: prime_number_def)
  show ?case
  proof (cases "prime_number (Suc k)")
    case True
    have "length (primes_upto (Suc k)) \<le> 5" using primes_upto_length [OF Suc.prems] by (simp add: primes_upto_12)
    then have "length (map of_nat (primes_upto k) :: 64 word list) < 5" using True one by (simp add: primes_upto_Suc)
    from cb_push_rep [OF b(2) this, of "of_nat (Suc k)"] obtain b' where
      "cb_push_back b (of_nat (Suc k)) = ok (0, b')" "cb_rep b' (map of_nat (primes_upto k) @ [of_nat (Suc k)]) 0" by blast
    with True one small prime turn show ?thesis
      by (simp add: primes_step_def primes_upto_Suc del: of_nat_Suc) (simp add: add.commute)
  next
    case False
    with small prime turn b(2) show ?thesis
      by (simp add: primes_step_def primes_upto_Suc del: of_nat_Suc) (simp add: add.commute)
  qed
qed

text \<open>
  C40: the search ends in undefined behaviour, at its sixth prime: in the first twelve turns it finds
  and prints exactly the primes, five of them, and in the turn for 13 it writes past the end of the
  buffer. Only a signal before that turn ends it otherwise: its handler prints the primes found so
  far, oldest first, and the process exits. Without memory, which the program reports and ignores,
  it ends at its first prime.
\<close>

theorem primes_main_overflows:
  "(\<forall>k\<le>12. \<exists>b. search_turns k (search_init True) =
      ok \<lparr>s_num = of_nat (Suc k), num_found = of_nat (length (primes_upto k)), buff = b, printed = map of_nat (primes_upto k)\<rparr> \<and>
      primes_interrupted True quit k = ok (map of_nat (primes_upto k))) \<and>
   primes_upto 12 = [2, 3, 5, 7, 11] \<and> prime_number 13 \<and>
   search_turns 13 (search_init True) = err Out_Of_Bounds \<and> primes_main True = err Out_Of_Bounds \<and>
   (\<exists>b. search_turns 1 (search_init False) = ok \<lparr>s_num = 2, num_found = 0, buff = b, printed = []\<rparr>) \<and>
   search_turns 2 (search_init False) = err Null_Deref \<and> primes_main False = err Null_Deref"
proof -
  have state: "\<exists>b. search_turns k (search_init True) =
      ok \<lparr>s_num = of_nat (Suc k), num_found = of_nat (length (primes_upto k)), buff = b, printed = map of_nat (primes_upto k)\<rparr> \<and>
      primes_interrupted True quit k = ok (map of_nat (primes_upto k))" if le: "k \<le> 12" for k
  proof -
    obtain b where b: "search_turns k (search_init True) =
        ok \<lparr>s_num = of_nat (Suc k), num_found = of_nat (length (primes_upto k)), buff = b, printed = map of_nat (primes_upto k)\<rparr>"
      "cb_rep b (map of_nat (primes_upto k)) 0" using search_state [OF le] by blast
    have "length (primes_upto k) \<le> 5" using primes_upto_length [OF le] by (simp add: primes_upto_12)
    with report_loop_rep [OF b(2), of 5] b(1) show ?thesis
      by (auto simp: primes_interrupted_def int_handler_def quit_handler_def report_def ucast_of_nat_int)
  qed
  obtain b where b: "search_turns 12 (search_init True) =
      ok \<lparr>s_num = of_nat (Suc 12), num_found = of_nat (length (primes_upto 12)), buff = b, printed = map of_nat (primes_upto 12)\<rparr>"
    "cb_rep b (map of_nat (primes_upto 12)) 0" using search_state [of 12] by blast
  have "cb_push_back b 13 = err Out_Of_Bounds" by (rule cb_push_full [OF b(2)]) (simp add: primes_upto_12)
  then have "search_turns 13 (search_init True) = err Out_Of_Bounds"
    using search_turns_add [of 12 1 "search_init True"] b(1) by (simp add: primes_step_def small_primes LONG_MAX_def)
  moreover have first: "search_turns 1 (search_init False) =
      ok \<lparr>s_num = 2, num_found = 0, buff = cb_init False 5 sizeof_int, printed = []\<rparr>"
    by (simp add: search_init_def primes_step_def small_primes LONG_MAX_def)
  moreover have "search_turns 2 (search_init False) = err Null_Deref"
    using search_turns_add [of 1 1 "search_init False"] unfolding one_add_one first
    by (simp add: primes_step_def small_primes LONG_MAX_def cb_push_back_def cb_init_def)
  ultimately show ?thesis
    using state primes_loop_turns prime_numbers(12) primes_upto_12 unfolding primes_main_def by blast
qed

lemma primes_main_overflows_witness:
  "primes_interrupted True False 12 = ok [2, 3, 5, 7, 11] \<and> primes_interrupted True True 4 = ok [2, 3] \<and>
   primes_main True = err Out_Of_Bounds"
proof -
  have "primes_upto 4 = [2, 3]" by (simp add: primes_upto_def prime_numbers upt_rec)
  moreover have "primes_interrupted True False 12 = ok (map of_nat (primes_upto 12))" "primes_main True = err Out_Of_Bounds"
    using primes_main_overflows [of False] by blast+
  moreover have "primes_interrupted True True 4 = ok (map of_nat (primes_upto 4))"
    using conjunct1 [OF primes_main_overflows [of True], rule_format, of 4] by auto
  ultimately show ?thesis by (simp add: primes_upto_12)
qed

end
