(* ===== verification/Processes.thy ===== *)
theory Processes
  imports Prelude
begin

text \<open>
  Processes, descriptors and pipes as the programs on \<open>fork\<close> and \<open>pipe\<close> use them. A program is a
  function from its local state to the next call it makes of the kernel, with what it does with the
  result; \<open>fork\<close> copies the local state and the descriptors. A step of the kernel carries out the
  next call of one process, so that a run is any interleaving of the processes.
\<close>

section \<open>Descriptors\<close>

datatype pipe_end = Terminal | Read_End nat | Write_End nat

type_synonym fd_table = "(nat \<times> pipe_end) list"

definition fd_close :: "nat \<Rightarrow> fd_table \<Rightarrow> fd_table" where
  "fd_close d fds = filter (\<lambda>(d', e). d' \<noteq> d) fds"

text \<open>\<open>dup2(a, b)\<close>: \<open>b\<close> is closed and then names what \<open>a\<close> names; nothing happens when \<open>a\<close> is not open.\<close>

definition fd_dup2 :: "nat \<Rightarrow> nat \<Rightarrow> fd_table \<Rightarrow> fd_table" where
  "fd_dup2 a b fds =
     (case map_of fds a of None \<Rightarrow> fds | Some e \<Rightarrow> if a = b then fds else (b, e) # fd_close b fds)"

text \<open>New descriptors get the lowest free number.\<close>

definition fd_free :: "fd_table \<Rightarrow> nat" where
  "fd_free fds = hd (filter (\<lambda>d. d \<notin> fst ` set fds) [0..<Suc (length fds)])"

definition std_fds :: fd_table where
  "std_fds = [(0, Terminal), (1, Terminal), (2, Terminal)]"

section \<open>Calls\<close>

text \<open>
  \<open>Wait\<close> is the loop over \<open>wait\<close> that ends when there is no child left, or the wait for an only
  child. \<open>Exec\<close> goes on with the process's own code only when the program cannot be executed.
\<close>

datatype 'l call =
    Pipe "(nat \<times> nat) option \<Rightarrow> 'l"
  | Fork "int \<Rightarrow> 'l"
  | Close nat 'l
  | Dup2 nat nat 'l
  | Read nat nat "string option \<Rightarrow> 'l"
  | Write nat string 'l
  | Wait 'l
  | Print string 'l
  | Exec string "string list" 'l
  | Exit int
  | Fail c_error

text \<open>
  A program that is executed: it makes its output of its arguments alone, or of its arguments and
  all of its standard input.
\<close>

datatype executable = Source "string list \<Rightarrow> string" | Filter "string list \<Rightarrow> string \<Rightarrow> string"

datatype 'l status = Runs 'l | Runs_Program executable "string list" | Exited int

record 'l process =
  pr_status :: "'l status"
  pr_fds :: fd_table
  pr_parent :: "nat option"

record 'l kernel =
  k_procs :: "'l process list"
  k_pipes :: "string list"
  k_out :: string       \<comment> \<open>what the terminal has shown\<close>

text \<open>Whether the next pipe and the next process can be created, and the programs there are.\<close>

record 'l machine =
  m_pipe_ok :: "nat \<Rightarrow> bool"
  m_fork_ok :: "nat \<Rightarrow> bool"
  m_programs :: "string \<Rightarrow> executable option"
  m_code :: "'l \<Rightarrow> 'l call"

text \<open>A computation between two calls; where it fails the process has run into an error.\<close>

definition res_call :: "'a res \<Rightarrow> ('a \<Rightarrow> 'l call) \<Rightarrow> 'l call" where
  "res_call r f = (case r of Some (Inr x) \<Rightarrow> f x | Some (Inl e) \<Rightarrow> Fail e | None \<Rightarrow> Fail Assert_Failed)"

lemma res_call_simps [simp]: "res_call (ok x) f = f x" "res_call (err e) f = Fail e"
  by (simp_all add: res_call_def ok_def err_def)

text \<open>
  \<open>n = read(fd, buffer, size)\<close> followed by \<open>buffer[n] = 0\<close>: out of bounds when the buffer was filled,
  and when the read failed, with \<open>n = -1\<close>.
\<close>

definition over :: "char list \<Rightarrow> string \<Rightarrow> char list" where
  "over buf s = s @ NUL # drop (Suc (length s)) buf"

definition store_read :: "char list \<Rightarrow> string option \<Rightarrow> char list res" where
  "store_read buf r =
     (case r of
        None \<Rightarrow> err Out_Of_Bounds
      | Some s \<Rightarrow> if length s < length buf then ok (over buf s) else err Out_Of_Bounds)"

lemma over_facts [simp]: "NUL \<notin> set s \<Longrightarrow> cstr (over buf s) = ok s"
  "length s < length buf \<Longrightarrow> length (over buf s) = length buf"
  by (simp_all add: over_def)

section \<open>Steps\<close>

definition has_end :: "'l kernel \<Rightarrow> pipe_end \<Rightarrow> bool" where
  "has_end k e \<longleftrightarrow> (\<exists>p\<in>set (k_procs k). e \<in> snd ` set (pr_fds p))"

definition has_child :: "'l kernel \<Rightarrow> nat \<Rightarrow> bool" where
  "has_child k i \<longleftrightarrow> (\<exists>p\<in>set (k_procs k). pr_parent p = Some i \<and> (case pr_status p of Exited _ \<Rightarrow> False | _ \<Rightarrow> True))"

definition set_proc :: "nat \<Rightarrow> 'l process \<Rightarrow> 'l kernel \<Rightarrow> 'l kernel" where
  "set_proc i p k = k\<lparr>k_procs := (k_procs k)[i := p]\<rparr>"

text \<open>A process that ends closes its descriptors.\<close>

definition proc_exit :: "nat \<Rightarrow> int \<Rightarrow> 'l kernel \<Rightarrow> 'l kernel" where
  "proc_exit i code k = set_proc i ((k_procs k ! i)\<lparr>pr_status := Exited code, pr_fds := []\<rparr>) k"

text \<open>
  Writing. Nobody to read from a pipe kills the writer (\<open>SIGPIPE\<close>). Pipes take what is written
  without blocking: what the programs under \<open>src/\<close> write to a pipe is at most 256 bytes, far below
  its capacity. The output of an executed program is written in one step, however long it is.
\<close>

definition k_write :: "nat \<Rightarrow> nat \<Rightarrow> string \<Rightarrow> 'l status \<Rightarrow> 'l kernel \<Rightarrow> 'l kernel" where
  "k_write i d s next k =
     (let p = k_procs k ! i; k1 = set_proc i (p\<lparr>pr_status := next\<rparr>) k in
      case map_of (pr_fds p) d of
        None \<Rightarrow> k1
      | Some Terminal \<Rightarrow> k1\<lparr>k_out := k_out k @ s\<rparr>
      | Some (Read_End q) \<Rightarrow> k1
      | Some (Write_End q) \<Rightarrow>
          if s = [] then k1
          else if has_end k (Read_End q) then k1\<lparr>k_pipes := (k_pipes k)[q := k_pipes k ! q @ s]\<rparr>
          else proc_exit i (-1) k)"

text \<open>
  Reading at most \<open>n\<close> bytes: blocked while the pipe is empty and somebody can still write, and the
  end of file when nobody can.
\<close>

definition k_read :: "nat \<Rightarrow> nat \<Rightarrow> nat \<Rightarrow> 'l kernel \<Rightarrow> (string option \<times> 'l kernel) option" where
  "k_read i d n k =
     (case map_of (pr_fds (k_procs k ! i)) d of
        None \<Rightarrow> Some (None, k)
      | Some Terminal \<Rightarrow> None
      | Some (Write_End q) \<Rightarrow> Some (None, k)
      | Some (Read_End q) \<Rightarrow>
          if k_pipes k ! q = [] then (if has_end k (Write_End q) then None else Some (Some [], k))
          else Some (Some (take n (k_pipes k ! q)), k\<lparr>k_pipes := (k_pipes k)[q := drop n (k_pipes k ! q)]\<rparr>))"

definition do_call :: "'l machine \<Rightarrow> nat \<Rightarrow> 'l call \<Rightarrow> 'l kernel \<Rightarrow> 'l kernel res" where
  "do_call m i c k =
     (let p = k_procs k ! i in
      case c of
        Pipe f \<Rightarrow>
          if m_pipe_ok m (length (k_pipes k)) then
            (let r = fd_free (pr_fds p); q = length (k_pipes k);
                 w = fd_free ((r, Read_End q) # pr_fds p) in
             ok (set_proc i (p\<lparr>pr_status := Runs (f (Some (r, w))),
                   pr_fds := (r, Read_End q) # (w, Write_End q) # pr_fds p\<rparr>) (k\<lparr>k_pipes := k_pipes k @ [[]]\<rparr>)))
          else ok (set_proc i (p\<lparr>pr_status := Runs (f None)\<rparr>) k)
      | Fork f \<Rightarrow>
          if m_fork_ok m (length (k_procs k)) then
            (let child = p\<lparr>pr_status := Runs (f 0), pr_parent := Some i\<rparr> in
             ok (k\<lparr>k_procs := (k_procs k)[i := p\<lparr>pr_status := Runs (f (int (length (k_procs k))))\<rparr>] @ [child]\<rparr>))
          else ok (set_proc i (p\<lparr>pr_status := Runs (f (-1))\<rparr>) k)
      | Close d l \<Rightarrow> ok (set_proc i (p\<lparr>pr_status := Runs l, pr_fds := fd_close d (pr_fds p)\<rparr>) k)
      | Dup2 a b l \<Rightarrow> ok (set_proc i (p\<lparr>pr_status := Runs l, pr_fds := fd_dup2 a b (pr_fds p)\<rparr>) k)
      | Read d n f \<Rightarrow>
          (case k_read i d n k of
             None \<Rightarrow> None
           | Some (r, k1) \<Rightarrow> ok (set_proc i (p\<lparr>pr_status := Runs (f r)\<rparr>) k1))
      | Write d s l \<Rightarrow> ok (k_write i d s (Runs l) k)
      | Wait l \<Rightarrow> if has_child k i then None else ok (set_proc i (p\<lparr>pr_status := Runs l\<rparr>) k)
      | Print s l \<Rightarrow> ok (k_write i 1 s (Runs l) k)
      | Exec f args l \<Rightarrow>
          ok (set_proc i (p\<lparr>pr_status := (case m_programs m f of None \<Rightarrow> Runs l | Some g \<Rightarrow> Runs_Program g args)\<rparr>) k)
      | Exit code \<Rightarrow> ok (proc_exit i code k)
      | Fail e \<Rightarrow> err e)"

text \<open>An executed program that reads all of its input can finish when its input has ended.\<close>

definition run_program :: "nat \<Rightarrow> executable \<Rightarrow> string list \<Rightarrow> 'l kernel \<Rightarrow> 'l kernel res" where
  "run_program i g args k =
     (case g of
        Source f \<Rightarrow> ok (proc_exit i 0 (k_write i 1 (f args) (Runs_Program g args) k))
      | Filter f \<Rightarrow>
          (case map_of (pr_fds (k_procs k ! i)) 0 of
             Some (Read_End q) \<Rightarrow>
               if has_end k (Write_End q) then None
               else ok (proc_exit i 0 (k_write i 1 (f args (k_pipes k ! q)) (Runs_Program g args)
                          (k\<lparr>k_pipes := (k_pipes k)[q := []]\<rparr>)))
           | _ \<Rightarrow> None))"

text \<open>The step of process \<open>i\<close>; \<open>None\<close> when it is blocked or has ended.\<close>

definition kstep :: "'l machine \<Rightarrow> nat \<Rightarrow> 'l kernel \<Rightarrow> 'l kernel res" where
  "kstep m i k =
     (if length (k_procs k) \<le> i then None
      else case pr_status (k_procs k ! i) of
        Runs l \<Rightarrow> do_call m i (m_code m l) k
      | Runs_Program g args \<Rightarrow> run_program i g args k
      | Exited _ \<Rightarrow> None)"

definition kernel_step :: "'l machine \<Rightarrow> 'l kernel \<Rightarrow> 'l kernel \<Rightarrow> bool" where
  "kernel_step m k k' \<longleftrightarrow> (\<exists>i. kstep m i k = ok k')"

definition stuck :: "'l machine \<Rightarrow> 'l kernel \<Rightarrow> bool" where
  "stuck m k \<longleftrightarrow> (\<forall>i. kstep m i k = None)"

text \<open>\<open>runs m n k k'\<close>: \<open>n\<close> steps, of any processes in any order, lead from \<open>k\<close> to \<open>k'\<close>.\<close>

definition runs :: "'l machine \<Rightarrow> nat \<Rightarrow> 'l kernel \<Rightarrow> 'l kernel \<Rightarrow> bool" where
  "runs m n = kernel_step m ^^ n"

definition boot :: "'l \<Rightarrow> 'l kernel" where
  "boot l = \<lparr>k_procs = [\<lparr>pr_status = Runs l, pr_fds = std_fds, pr_parent = None\<rparr>], k_pipes = [], k_out = []\<rparr>"

lemma runs_0 [simp]: "runs m 0 k k' \<longleftrightarrow> k' = k"
  by (auto simp: runs_def)

lemma runs_Suc: "runs m (Suc n) k k' \<longleftrightarrow> (\<exists>k1. kernel_step m k k1 \<and> runs m n k1 k')"
  unfolding runs_def relpowp_Suc_right [of n] by (metis relpowp_Suc_D2 relpowp_Suc_I2 relpowp_Suc_right)

lemma runs_kstep: "kstep m i k = ok k1 \<Longrightarrow> runs m n k1 k' \<Longrightarrow> runs m (Suc n) k k'"
  by (auto simp: runs_Suc kernel_step_def)

lemma step_runs:
  "j < length (k_procs k) \<Longrightarrow> pr_status (k_procs k ! j) = Runs l \<Longrightarrow> kstep m j k = do_call m j (m_code m l) k"
  by (simp add: kstep_def)

lemma has_end_pipes [simp]: "has_end (k\<lparr>k_pipes := ps\<rparr>) e = has_end k e"
  by (simp add: has_end_def)

lemma write_pipe:
  assumes "k_procs k ! j = p" "map_of (pr_fds p) d = Some (Write_End w)" "has_end k (Read_End w)"
  shows "k_write j d s st k =
    set_proc j (p\<lparr>pr_status := st\<rparr>) (k\<lparr>k_pipes := (k_pipes k)[w := k_pipes k ! w @ s]\<rparr>)"
  using assms by (simp add: k_write_def Let_def set_proc_def)

lemma write_terminal:
  assumes "k_procs k ! j = p" "map_of (pr_fds p) d = Some Terminal"
  shows "k_write j d s st k = set_proc j (p\<lparr>pr_status := st\<rparr>) (k\<lparr>k_out := k_out k @ s\<rparr>)"
  using assms by (simp add: k_write_def Let_def set_proc_def)

lemma exit_after_write:
  assumes "j < length (k_procs k)" "k_procs k ! j = p" "map_of (pr_fds p) 1 = Some (Write_End w)" "has_end k (Read_End w)"
  shows "proc_exit j 0 (k_write j 1 s st k) =
    set_proc j (p\<lparr>pr_status := Exited 0, pr_fds := []\<rparr>) (k\<lparr>k_pipes := (k_pipes k)[w := k_pipes k ! w @ s]\<rparr>)"
  unfolding write_pipe [OF assms(2-4)] proc_exit_def set_proc_def using assms by simp

lemma source_step:
  assumes "j < length (k_procs k)" "k_procs k ! j = p" "pr_status p = Runs_Program (Source f) args"
    and "map_of (pr_fds p) 1 = Some (Write_End w)" "has_end k (Read_End w)"
  shows "kstep m j k =
    ok (set_proc j (p\<lparr>pr_status := Exited 0, pr_fds := []\<rparr>) (k\<lparr>k_pipes := (k_pipes k)[w := k_pipes k ! w @ f args]\<rparr>))"
  using exit_after_write [OF assms(1,2,4,5), of "f args"] assms(1-3) by (simp add: kstep_def run_program_def)

lemma filter_step:
  assumes "j < length (k_procs k)" "k_procs k ! j = p" "pr_status p = Runs_Program (Filter f) args"
    and "map_of (pr_fds p) 0 = Some (Read_End q)"
    and "map_of (pr_fds p) 1 = Some (Write_End w)" "has_end k (Read_End w)" "q \<noteq> w"
  shows "kstep m j k = (if has_end k (Write_End q) then None else
    ok (set_proc j (p\<lparr>pr_status := Exited 0, pr_fds := []\<rparr>)
      (k\<lparr>k_pipes := (k_pipes k)[q := [], w := k_pipes k ! w @ f args (k_pipes k ! q)]\<rparr>)))"
  using exit_after_write [of j "k\<lparr>k_pipes := (k_pipes k)[q := []]\<rparr>" p w "f args (k_pipes k ! q)"] assms
  by (simp add: kstep_def run_program_def)

lemma runs_trans: "runs m n k k1 \<Longrightarrow> runs m n' k1 k2 \<Longrightarrow> runs m (n + n') k k2"
  unfolding runs_def by (auto simp: relpowp_add)

lemma runs_from_to:
  assumes "\<And>i. a \<le> i \<Longrightarrow> i < a + n \<Longrightarrow> kstep m j (s i) = ok (s (Suc i))"
  shows "runs m n (s a) (s (a + n))"
  using assms
proof (induction n arbitrary: a)
  case (Suc n)
  from Suc.prems [of a] have "kstep m j (s a) = ok (s (Suc a))" by simp
  moreover have "runs m n (s (Suc a)) (s (Suc a + n))" by (rule Suc.IH) (use Suc.prems in simp)
  ultimately show ?case using runs_kstep by fastforce
qed simp

text \<open>A check of finitely many numbers.\<close>

lemma less_upt: "(\<forall>i\<in>set [0..<n]. P i) \<Longrightarrow> i < n \<Longrightarrow> P i"
  by simp

section \<open>Runs whose end does not depend on the schedule\<close>

text \<open>
  The contract: for every input \<open>x\<close> that meets \<open>pre\<close>, the states reached satisfy an invariant with
  a rank that every step of any process lowers; no process fails; and where nobody can go on, the
  run is at its \<open>goal\<close>.
\<close>

locale any_schedule =
  fixes machine :: "'x \<Rightarrow> 'l machine"
    and start :: "'x \<Rightarrow> 'l kernel"
    and pre :: "'x \<Rightarrow> bool"
    and rank :: "'x \<Rightarrow> nat"
    and inv :: "'x \<Rightarrow> nat \<Rightarrow> 'l kernel \<Rightarrow> bool"
    and goal :: "'x \<Rightarrow> 'l kernel \<Rightarrow> bool"
  assumes inv_start: "pre x \<Longrightarrow> inv x (rank x) (start x)"
    and inv_step: "pre x \<Longrightarrow> inv x r k \<Longrightarrow> kstep (machine x) i k = ok k' \<Longrightarrow> \<exists>r'<r. inv x r' k'"
    and inv_safe: "pre x \<Longrightarrow> inv x r k \<Longrightarrow> kstep (machine x) i k \<noteq> err e"
    and inv_goal: "pre x \<Longrightarrow> inv x r k \<Longrightarrow> stuck (machine x) k \<Longrightarrow> goal x k"
begin

lemma inv_runs: "pre x \<Longrightarrow> inv x r k \<Longrightarrow> runs (machine x) n k k' \<Longrightarrow> \<exists>r'. r' + n \<le> r \<and> inv x r' k'"
proof (induction n arbitrary: r k)
  case 0
  then show ?case by auto
next
  case (Suc n)
  from Suc.prems(3) obtain k1 i where k1: "kstep (machine x) i k = ok k1" "runs (machine x) n k1 k'"
    by (auto simp: runs_Suc kernel_step_def)
  from inv_step [OF Suc.prems(1,2) k1(1)] obtain r1 where r1: "r1 < r" "inv x r1 k1" by blast
  from Suc.IH [OF Suc.prems(1) r1(2) k1(2)] obtain r' where "r' + n \<le> r1" "inv x r' k'" by blast
  with r1(1) show ?case by (intro exI [of _ r']) simp
qed

lemma safe: "pre x \<Longrightarrow> runs (machine x) n (start x) k \<Longrightarrow> kstep (machine x) i k \<noteq> err e"
  using inv_runs inv_start inv_safe by metis

lemma bounded: "pre x \<Longrightarrow> runs (machine x) n (start x) k \<Longrightarrow> n \<le> rank x"
  using inv_runs inv_start by (metis add_leD2)

lemma at_goal: "pre x \<Longrightarrow> runs (machine x) n (start x) k \<Longrightarrow> stuck (machine x) k \<Longrightarrow> goal x k"
  using inv_runs inv_start inv_goal by metis

lemma goes_on:
  assumes "pre x" "inv x r k"
  shows "\<exists>n k'. runs (machine x) n k k' \<and> stuck (machine x) k'"
  using assms(2)
proof (induction r arbitrary: k rule: less_induct)
  case (less r)
  show ?case
  proof (cases "stuck (machine x) k")
    case True
    then show ?thesis using runs_0 by blast
  next
    case False
    then obtain i where "kstep (machine x) i k \<noteq> None" by (auto simp: stuck_def)
    with inv_safe [OF assms(1) less.prems, of i] obtain k1 where k1: "kstep (machine x) i k = ok k1"
      by (cases "kstep (machine x) i k" rule: res_cases) auto
    from inv_step [OF assms(1) less.prems k1] obtain r1 where "r1 < r" "inv x r1 k1" by blast
    with less.IH obtain n k' where "runs (machine x) n k1 k'" "stuck (machine x) k'" by blast
    with runs_kstep [OF k1] show ?thesis by blast
  qed
qed

lemma always_at_goal: "pre x \<Longrightarrow> \<exists>n k. runs (machine x) n (start x) k \<and> stuck (machine x) k \<and> goal x k"
  using goes_on inv_start at_goal by metis

end

end
