(* ===== verification/GenFilter.thy ===== *)
theory GenFilter
  imports Processes
begin

text \<open>
  \<open>pe_2/pipes_gen_filter.c\<close>: the parent sends its argument through a pipe to a first child, which
  executes \<open>gen_numbers\<close> with it; the output goes through \<open>filter_pos_nums\<close> and \<open>calc_avg\<close>, executed
  by two more children, back to the parent, which prints it. The three programs are not in the
  repository; they are a parameter. Every process runs the code of \<open>main\<close>, the children from the
  \<open>fork\<close> on. Memory for the buffer is taken to be there. The message of a child that cannot execute
  its program goes to its pipe at once; the C library would keep it until the child exits.
\<close>

section \<open>The code\<close>

definition BUFFER_SIZE :: nat where "BUFFER_SIZE = 256"

text \<open>The straight sequences of \<open>close\<close> and \<open>dup2\<close>, whose results the code ignores.\<close>

datatype redirect = Shut nat | Dup nat nat

datatype gf_pc =
    GF_Start
  | GF_Pipe1
  | GF_No_Pipe
  | GF_Fork1
  | GF_Child1 "redirect list"
  | GF_Close1
  | GF_Exec1
  | GF_Message1
  | GF_Pipe2
  | GF_Fork2
  | GF_Child2 "redirect list"
  | GF_Message2
  | GF_Pipe3
  | GF_Fork3
  | GF_Child3 "redirect list"
  | GF_Message3
  | GF_Close "redirect list"
  | GF_Close_Write
  | GF_Wait
  | GF_Read
  | GF_Close_Read
  | GF_Print
  | GF_Exit int
  | GF_Fail c_error

record gf =
  gf_pc :: gf_pc
  fd0 :: "nat \<times> nat"
  fd1 :: "nat \<times> nat"
  fd2 :: "nat \<times> nat"
  fd3 :: "nat \<times> nat"
  buffer :: "char list"
  argv :: "string list"

definition gf_goto :: "gf_pc \<Rightarrow> gf \<Rightarrow> gf" where
  "gf_goto pc l = l\<lparr>gf_pc := pc\<rparr>"

definition redirect :: "redirect \<Rightarrow> gf \<Rightarrow> gf call" where
  "redirect r l = (case r of Shut d \<Rightarrow> Close d l | Dup a b \<Rightarrow> Dup2 a b l)"

definition child1_fds :: "gf \<Rightarrow> redirect list" where
  "child1_fds l = [Shut (snd (fd0 l)), Shut (fst (fd1 l)), Dup (fst (fd0 l)) 0, Dup (snd (fd1 l)) 1, Shut (snd (fd1 l))]"

definition child2_fds :: "gf \<Rightarrow> redirect list" where
  "child2_fds l = [Shut (fst (fd0 l)), Shut (snd (fd0 l)), Shut (snd (fd1 l)), Shut (fst (fd2 l)),
     Dup (fst (fd1 l)) 0, Dup (snd (fd2 l)) 1, Shut (snd (fd2 l)), Shut (fst (fd1 l))]"

definition child3_fds :: "gf \<Rightarrow> redirect list" where
  "child3_fds l = [Shut (fst (fd0 l)), Shut (snd (fd0 l)), Shut (fst (fd1 l)), Shut (snd (fd1 l)),
     Shut (snd (fd2 l)), Shut (fst (fd3 l)), Dup (fst (fd2 l)) 0, Dup (snd (fd3 l)) 1, Shut (snd (fd3 l)), Shut (fst (fd2 l))]"

definition parent_fds :: "gf \<Rightarrow> redirect list" where
  "parent_fds l = [Shut (fst (fd0 l)), Shut (fst (fd1 l)), Shut (snd (fd1 l)), Shut (fst (fd2 l)), Shut (snd (fd2 l)),
     Shut (snd (fd3 l))]"

text \<open>The buffer after a read; \<open>pc\<close> is where it goes on.\<close>

definition gf_store :: "gf \<Rightarrow> gf_pc \<Rightarrow> string option \<Rightarrow> gf" where
  "gf_store l pc r =
     (case store_read (buffer l) r of
        Some (Inr buf) \<Rightarrow> l\<lparr>buffer := buf, gf_pc := pc\<rparr>
      | Some (Inl e) \<Rightarrow> gf_goto (GF_Fail e) l
      | None \<Rightarrow> l)"

text \<open>The next call of a process at each place of \<open>main\<close>.\<close>

definition gf_code :: "gf \<Rightarrow> gf call" where
  "gf_code l =
     (case gf_pc l of
        GF_Start \<Rightarrow>
          if length (argv l) < 2 then
            Print (''Usage: pipes_gen_filter '' @ [CHR 0x22] @ ''number'' @ [CHR 0x22] @ '' \<newline>'') (gf_goto (GF_Exit 0) l)
          else Pipe (\<lambda>r. case r of None \<Rightarrow> gf_goto GF_No_Pipe l | Some fd \<Rightarrow> l\<lparr>fd0 := fd, gf_pc := GF_Pipe1\<rparr>)
      | GF_Pipe1 \<Rightarrow> Pipe (\<lambda>r. case r of None \<Rightarrow> gf_goto GF_No_Pipe l | Some fd \<Rightarrow> l\<lparr>fd1 := fd, gf_pc := GF_Fork1\<rparr>)
      | GF_No_Pipe \<Rightarrow> Print ''Cannot create the pipe. Exiting the program. \<newline>'' (gf_goto (GF_Exit 1) l)
      | GF_Fork1 \<Rightarrow> Fork (\<lambda>pid. gf_goto (if pid = 0 then GF_Child1 (child1_fds l) else GF_Pipe2) l)
      | GF_Child1 (r # rs) \<Rightarrow> redirect r (gf_goto (GF_Child1 rs) l)
      | GF_Child1 [] \<Rightarrow> Read (fst (fd0 l)) BUFFER_SIZE (gf_store l GF_Close1)
      | GF_Close1 \<Rightarrow> Close (fst (fd0 l)) (gf_goto GF_Exec1 l)
      | GF_Exec1 \<Rightarrow> res_call (cstr (buffer l)) (\<lambda>s. Exec ''./gen_numbers'' [''gen_numbers'', s] (gf_goto GF_Message1 l))
      | GF_Message1 \<Rightarrow> Print ''Child: error executing the gen_numbers coprocess. \<newline>'' (gf_goto GF_Pipe2 l)
      | GF_Pipe2 \<Rightarrow> Pipe (\<lambda>r. case r of None \<Rightarrow> gf_goto GF_No_Pipe l | Some fd \<Rightarrow> l\<lparr>fd2 := fd, gf_pc := GF_Fork2\<rparr>)
      | GF_Fork2 \<Rightarrow> Fork (\<lambda>pid. gf_goto (if pid = 0 then GF_Child2 (child2_fds l) else GF_Pipe3) l)
      | GF_Child2 (r # rs) \<Rightarrow> redirect r (gf_goto (GF_Child2 rs) l)
      | GF_Child2 [] \<Rightarrow> Exec ''./filter_pos_nums'' [''filter_pos_nums''] (gf_goto GF_Message2 l)
      | GF_Message2 \<Rightarrow> Print ''Child: error executing the gen_numbers coprocess. \<newline>'' (gf_goto GF_Pipe3 l)
      | GF_Pipe3 \<Rightarrow> Pipe (\<lambda>r. case r of None \<Rightarrow> gf_goto GF_No_Pipe l | Some fd \<Rightarrow> l\<lparr>fd3 := fd, gf_pc := GF_Fork3\<rparr>)
      | GF_Fork3 \<Rightarrow> Fork (\<lambda>pid. gf_goto (if pid = 0 then GF_Child3 (child3_fds l) else GF_Close (parent_fds l)) l)
      | GF_Child3 (r # rs) \<Rightarrow> redirect r (gf_goto (GF_Child3 rs) l)
      | GF_Child3 [] \<Rightarrow> Exec ''./calc_avg'' [''calc_avg''] (gf_goto GF_Message3 l)
      | GF_Message3 \<Rightarrow> Print ''Child: error executing the gen_numbers coprocess. \<newline>'' (gf_goto (GF_Close (parent_fds l)) l)
      | GF_Close (r # rs) \<Rightarrow> redirect r (gf_goto (GF_Close rs) l)
      | GF_Close [] \<Rightarrow>
          res_call (c_strcpy (buffer l) (argv l ! 1)) (\<lambda>buf.
          Write (snd (fd0 l)) (argv l ! 1) (l\<lparr>buffer := buf, gf_pc := GF_Close_Write\<rparr>))
      | GF_Close_Write \<Rightarrow> Close (snd (fd0 l)) (gf_goto GF_Wait l)
      | GF_Wait \<Rightarrow> Wait (gf_goto GF_Read l)
      | GF_Read \<Rightarrow> Read (fst (fd3 l)) BUFFER_SIZE (gf_store l GF_Close_Read)
      | GF_Close_Read \<Rightarrow> Close (fst (fd3 l)) (gf_goto GF_Print l)
      | GF_Print \<Rightarrow> res_call (cstr (buffer l)) (\<lambda>s. Print s (gf_goto (GF_Exit 0) l))
      | GF_Exit n \<Rightarrow> Exit n
      | GF_Fail e \<Rightarrow> Fail e)"

definition gf_machine :: "(string \<Rightarrow> executable option) \<Rightarrow> gf machine" where
  "gf_machine progs = \<lparr>m_pipe_ok = (\<lambda>_. True), m_fork_ok = (\<lambda>_. True), m_programs = progs, m_code = gf_code\<rparr>"

text \<open>\<open>junk\<close> is what \<open>malloc\<close> left in the buffer.\<close>

definition gf_boot :: "char list \<Rightarrow> string list \<Rightarrow> gf kernel" where
  "gf_boot junk args = boot \<lparr>gf_pc = GF_Start, fd0 = (0, 0), fd1 = (0, 0), fd2 = (0, 0), fd3 = (0, 0), buffer = junk, argv = args\<rparr>"

section \<open>Where every process can be\<close>

text \<open>The input: what is in the buffer, the arguments, and the three programs.\<close>

record gf_input =
  gi_junk :: "char list"
  gi_args :: "string list"
  gi_gen :: "string list \<Rightarrow> string"
  gi_filter :: "string list \<Rightarrow> string \<Rightarrow> string"
  gi_avg :: "string list \<Rightarrow> string \<Rightarrow> string"

definition gi_arg :: "gf_input \<Rightarrow> string" where
  "gi_arg x = gi_args x ! 1"

definition gen_out :: "gf_input \<Rightarrow> string" where
  "gen_out x = gi_gen x [''gen_numbers'', gi_arg x]"

definition filter_out :: "gf_input \<Rightarrow> string" where
  "filter_out x = gi_filter x [''filter_pos_nums''] (gen_out x)"

definition avg_out :: "gf_input \<Rightarrow> string" where
  "avg_out x = gi_avg x [''calc_avg''] (filter_out x)"

definition gi_programs :: "gf_input \<Rightarrow> string \<Rightarrow> executable option" where
  "gi_programs x f =
     (if f = ''./gen_numbers'' then Some (Source (gi_gen x))
      else if f = ''./filter_pos_nums'' then Some (Filter (gi_filter x))
      else if f = ''./calc_avg'' then Some (Filter (gi_avg x)) else None)"

definition fd_redirect :: "redirect \<Rightarrow> fd_table \<Rightarrow> fd_table" where
  "fd_redirect r fds = (case r of Shut d \<Rightarrow> fd_close d fds | Dup a b \<Rightarrow> fd_dup2 a b fds)"

text \<open>The descriptors of the parent after 0, 1, 2, 3 and 4 pipes.\<close>

fun piped :: "nat \<Rightarrow> fd_table" where
  "piped 0 = std_fds"
| "piped (Suc n) = (2 * n + 3, Read_End n) # (2 * n + 4, Write_End n) # piped n"

definition redirects :: "nat \<Rightarrow> redirect list" where
  "redirects j =
     (if j = 1 then [Shut 4, Shut 5, Dup 3 0, Dup 6 1, Shut 6]
      else if j = 2 then [Shut 3, Shut 4, Shut 6, Shut 7, Dup 5 0, Dup 8 1, Shut 8, Shut 5]
      else if j = 3 then [Shut 3, Shut 4, Shut 5, Shut 6, Shut 8, Shut 9, Dup 7 0, Dup 10 1, Shut 10, Shut 7]
      else [Shut 3, Shut 5, Shut 6, Shut 7, Shut 8, Shut 10])"

text \<open>The local state: \<open>n\<close> pipes have been made.\<close>

definition gf_loc :: "gf_input \<Rightarrow> nat \<Rightarrow> char list \<Rightarrow> gf_pc \<Rightarrow> gf" where
  "gf_loc x n buf pc = \<lparr>gf_pc = pc, fd0 = (if 1 \<le> n then (3, 4) else (0, 0)), fd1 = (if 2 \<le> n then (5, 6) else (0, 0)),
     fd2 = (if 3 \<le> n then (7, 8) else (0, 0)), fd3 = (if 4 \<le> n then (9, 10) else (0, 0)), buffer = buf, argv = gi_args x\<rparr>"

text \<open>
  The parent after \<open>i\<close> of its 20 steps, the first child after \<open>a\<close> of its 9, the second after \<open>b\<close> of
  its 10, the third after \<open>c\<close> of its 12: the descriptors, and then the whole process.
\<close>

definition parent_table :: "nat \<Rightarrow> fd_table" where
  "parent_table i =
     (if i < 7 then piped ([0, 1, 2, 2, 3, 3, 4] ! i)
      else if i < 15 then fold fd_redirect (take (i - 7) (redirects 0)) (piped 4)
      else if i < 18 then [(9, Read_End 3), (0, Terminal), (1, Terminal), (2, Terminal)]
      else if i < 20 then std_fds else [])"

definition child1_table :: "nat \<Rightarrow> fd_table" where
  "child1_table a =
     (if a \<le> 6 then fold fd_redirect (take a (redirects 1)) (piped 2)
      else if a \<le> 8 then [(1, Write_End 1), (0, Read_End 0), (2, Terminal)] else [])"

definition child2_table :: "nat \<Rightarrow> fd_table" where
  "child2_table b = (if b \<le> 9 then fold fd_redirect (take b (redirects 2)) (piped 3) else [])"

definition child3_table :: "nat \<Rightarrow> fd_table" where
  "child3_table c = (if c \<le> 11 then fold fd_redirect (take c (redirects 3)) (piped 4) else [])"

definition parent_at :: "gf_input \<Rightarrow> nat \<Rightarrow> gf process" where
  "parent_at x i =
     \<lparr>pr_status =
        (let buf = (if i < 14 then gi_junk x else if i < 17 then over (gi_junk x) (gi_arg x)
                    else over (over (gi_junk x) (gi_arg x)) (avg_out x)) in
         if i = 20 then Exited 0
         else if i < 7 then Runs (gf_loc x ([0, 1, 2, 2, 3, 3, 4] ! i) buf
           ([GF_Start, GF_Pipe1, GF_Fork1, GF_Pipe2, GF_Fork2, GF_Pipe3, GF_Fork3] ! i))
         else if i < 14 then Runs (gf_loc x 4 buf (GF_Close (drop (i - 7) (redirects 0))))
         else Runs (gf_loc x 4 buf ([GF_Close_Write, GF_Wait, GF_Read, GF_Close_Read, GF_Print, GF_Exit 0] ! (i - 14)))),
      pr_fds = parent_table i,
      pr_parent = None\<rparr>"

definition child1_at :: "gf_input \<Rightarrow> nat \<Rightarrow> gf process" where
  "child1_at x a =
     \<lparr>pr_status =
        (if a \<le> 5 then Runs (gf_loc x 2 (gi_junk x) (GF_Child1 (drop a (redirects 1))))
         else if a = 6 then Runs (gf_loc x 2 (over (gi_junk x) (gi_arg x)) GF_Close1)
         else if a = 7 then Runs (gf_loc x 2 (over (gi_junk x) (gi_arg x)) GF_Exec1)
         else if a = 8 then Runs_Program (Source (gi_gen x)) [''gen_numbers'', gi_arg x]
         else Exited 0),
      pr_fds = child1_table a,
      pr_parent = Some 0\<rparr>"

definition child2_at :: "gf_input \<Rightarrow> nat \<Rightarrow> gf process" where
  "child2_at x b =
     \<lparr>pr_status =
        (if b \<le> 8 then Runs (gf_loc x 3 (gi_junk x) (GF_Child2 (drop b (redirects 2))))
         else if b = 9 then Runs_Program (Filter (gi_filter x)) [''filter_pos_nums'']
         else Exited 0),
      pr_fds = child2_table b,
      pr_parent = Some 0\<rparr>"

definition child3_at :: "gf_input \<Rightarrow> nat \<Rightarrow> gf process" where
  "child3_at x c =
     \<lparr>pr_status =
        (if c \<le> 10 then Runs (gf_loc x 4 (gi_junk x) (GF_Child3 (drop c (redirects 3))))
         else if c = 11 then Runs_Program (Filter (gi_avg x)) [''calc_avg'']
         else Exited 0),
      pr_fds = child3_table c,
      pr_parent = Some 0\<rparr>"

definition n_procs :: "nat \<Rightarrow> nat" where
  "n_procs i = (if i < 3 then 1 else if i < 5 then 2 else if i < 7 then 3 else 4)"

definition n_pipes :: "nat \<Rightarrow> nat" where
  "n_pipes i = (if i < 1 then 0 else if i < 2 then 1 else if i < 4 then 2 else if i < 6 then 3 else 4)"

definition gf_state :: "gf_input \<Rightarrow> nat \<Rightarrow> nat \<Rightarrow> nat \<Rightarrow> nat \<Rightarrow> gf kernel" where
  "gf_state x i a b c =
     \<lparr>k_procs = take (n_procs i) [parent_at x i, child1_at x a, child2_at x b, child3_at x c],
      k_pipes = take (n_pipes i)
        [if 14 \<le> i \<and> a \<le> 5 then gi_arg x else [], if a = 9 \<and> b < 10 then gen_out x else [],
         if b = 10 \<and> c < 12 then filter_out x else [], if c = 12 \<and> i < 17 then avg_out x else []],
      k_out = (if 19 \<le> i then avg_out x else [])\<rparr>"

text \<open>What the processes wait for of each other.\<close>

definition gf_order :: "nat \<Rightarrow> nat \<Rightarrow> nat \<Rightarrow> nat \<Rightarrow> bool" where
  "gf_order i a b c \<longleftrightarrow> i \<le> 20 \<and> a \<le> 9 \<and> b \<le> 10 \<and> c \<le> 12 \<and>
     (0 < a \<longrightarrow> 3 \<le> i) \<and> (0 < b \<longrightarrow> 5 \<le> i) \<and> (0 < c \<longrightarrow> 7 \<le> i) \<and>
     (6 \<le> a \<longrightarrow> 14 \<le> i) \<and> (b = 10 \<longrightarrow> a = 9) \<and> (c = 12 \<longrightarrow> b = 10) \<and> (16 \<le> i \<longrightarrow> c = 12)"

definition gf_arg_ok :: "gf_input \<Rightarrow> bool" where
  "gf_arg_ok x \<longleftrightarrow> length (gi_junk x) = BUFFER_SIZE \<and> 2 \<le> length (gi_args x) \<and>
     NUL \<notin> set (gi_arg x) \<and> length (gi_arg x) < BUFFER_SIZE"

definition gf_pre :: "gf_input \<Rightarrow> bool" where
  "gf_pre x \<longleftrightarrow> gf_arg_ok x \<and> NUL \<notin> set (avg_out x) \<and> length (avg_out x) < BUFFER_SIZE"

section \<open>The descriptors that are open\<close>

definition open_ends :: "fd_table \<Rightarrow> pipe_end list" where
  "open_ends fds = map snd fds"

lemma has_end_state:
  assumes "i \<le> 20"
  shows "has_end (gf_state x i a b c) e \<longleftrightarrow> e \<in> set (open_ends (parent_table i)) \<or>
    3 \<le> i \<and> e \<in> set (open_ends (child1_table a)) \<or>
    5 \<le> i \<and> e \<in> set (open_ends (child2_table b)) \<or> 7 \<le> i \<and> e \<in> set (open_ends (child3_table c))"
  by (auto simp: has_end_def gf_state_def n_procs_def open_ends_def numeral_eq_Suc
      parent_at_def child1_at_def child2_at_def child3_at_def)

lemma parent_ends:
  assumes "i < 21"
  shows "Write_End 0 \<in> set (open_ends (parent_table i)) \<longleftrightarrow> 1 \<le> i \<and> i < 15"
    and "Write_End 1 \<in> set (open_ends (parent_table i)) \<longleftrightarrow> 2 \<le> i \<and> i < 10"
    and "Write_End 2 \<in> set (open_ends (parent_table i)) \<longleftrightarrow> 4 \<le> i \<and> i < 12"
    and "Write_End 3 \<in> set (open_ends (parent_table i)) \<longleftrightarrow> 6 \<le> i \<and> i < 13"
    and "Read_End 1 \<in> set (open_ends (parent_table i)) \<longleftrightarrow> 2 \<le> i \<and> i < 9"
    and "Read_End 2 \<in> set (open_ends (parent_table i)) \<longleftrightarrow> 4 \<le> i \<and> i < 11"
    and "Read_End 3 \<in> set (open_ends (parent_table i)) \<longleftrightarrow> 6 \<le> i \<and> i < 18"
  by (rule less_upt [OF _ assms], code_simp)+

lemma child1_ends:
  assumes "a < 10"
  shows "Read_End 0 \<in> set (open_ends (child1_table a)) \<longleftrightarrow> a < 9"
    and "Write_End 0 \<in> set (open_ends (child1_table a)) \<longleftrightarrow> a = 0"
    and "Write_End 1 \<in> set (open_ends (child1_table a)) \<longleftrightarrow> a < 9"
    and "Write_End 2 \<notin> set (open_ends (child1_table a))"
    and "Write_End 3 \<notin> set (open_ends (child1_table a))"
  by (rule less_upt [OF _ assms], code_simp)+

lemma child2_ends:
  assumes "b < 11"
  shows "Write_End 0 \<in> set (open_ends (child2_table b)) \<longleftrightarrow> b < 2"
    and "Read_End 1 \<in> set (open_ends (child2_table b)) \<longleftrightarrow> b < 10"
    and "Write_End 1 \<in> set (open_ends (child2_table b)) \<longleftrightarrow> b < 3"
    and "Write_End 2 \<in> set (open_ends (child2_table b)) \<longleftrightarrow> b < 10"
    and "Write_End 3 \<notin> set (open_ends (child2_table b))"
  by (rule less_upt [OF _ assms], code_simp)+

lemma child3_ends:
  assumes "c < 13"
  shows "Write_End 0 \<in> set (open_ends (child3_table c)) \<longleftrightarrow> c < 2"
    and "Write_End 1 \<in> set (open_ends (child3_table c)) \<longleftrightarrow> c < 4"
    and "Write_End 2 \<in> set (open_ends (child3_table c)) \<longleftrightarrow> c < 5"
    and "Read_End 2 \<in> set (open_ends (child3_table c)) \<longleftrightarrow> c < 12"
    and "Write_End 3 \<in> set (open_ends (child3_table c)) \<longleftrightarrow> c < 12"
  by (rule less_upt [OF _ assms], code_simp)+

declare piped.simps [simp del]

section \<open>The steps\<close>

lemmas at_defs = parent_at_def child1_at_def child2_at_def child3_at_def

lemma gf_procs:
  "length (k_procs (gf_state x i a b c)) = n_procs i"
  "k_procs (gf_state x i a b c) ! 0 = parent_at x i"
  "3 \<le> i \<Longrightarrow> k_procs (gf_state x i a b c) ! Suc 0 = child1_at x a"
  "5 \<le> i \<Longrightarrow> k_procs (gf_state x i a b c) ! 2 = child2_at x b"
  "7 \<le> i \<Longrightarrow> k_procs (gf_state x i a b c) ! 3 = child3_at x c"
  by (auto simp: gf_state_def n_procs_def numeral_eq_Suc)

lemma set_parent:
  "n_procs (Suc i) = n_procs i \<Longrightarrow> n_pipes (Suc i) = n_pipes i \<Longrightarrow> i \<notin> {13, 16, 18} \<Longrightarrow>
    set_proc 0 (parent_at x (Suc i)) (gf_state x i a b c) = gf_state x (Suc i) a b c"
  by (auto simp: gf_state_def set_proc_def take_update_swap [symmetric])

lemma set_child1:
  "3 \<le> i \<Longrightarrow> a \<noteq> 5 \<Longrightarrow> a < 8 \<Longrightarrow> set_proc 1 (child1_at x (Suc a)) (gf_state x i a b c) = gf_state x i (Suc a) b c"
  by (auto simp: gf_state_def set_proc_def take_update_swap [symmetric])

lemma set_child2:
  "5 \<le> i \<Longrightarrow> b < 9 \<Longrightarrow> set_proc 2 (child2_at x (Suc b)) (gf_state x i a b c) = gf_state x i a (Suc b) c"
  by (auto simp: gf_state_def set_proc_def take_update_swap [symmetric] numeral_eq_Suc)

lemma set_child3:
  "7 \<le> i \<Longrightarrow> c < 11 \<Longrightarrow> set_proc 3 (child3_at x (Suc c)) (gf_state x i a b c) = gf_state x i a b (Suc c)"
  by (auto simp: gf_state_def set_proc_def take_update_swap [symmetric] numeral_eq_Suc)

lemma do_redirect:
  "do_call m j (redirect r l) k =
     ok (set_proc j ((k_procs k ! j)\<lparr>pr_status := Runs l, pr_fds := fd_redirect r (pr_fds (k_procs k ! j))\<rparr>) k)"
  by (simp add: redirect_def fd_redirect_def do_call_def Let_def split: redirect.split)

abbreviation gf_run :: "gf_input \<Rightarrow> gf machine" where
  "gf_run x \<equiv> gf_machine (gi_programs x)"

lemma redirects_length: "length (redirects j) = (if j = 1 then 5 else if j = 2 then 8 else if j = 3 then 10 else 6)"
  by (simp add: redirects_def)

lemma redirect_next:
  assumes "a < length rs"
  shows "drop a rs = rs ! a # drop (Suc a) rs" "fold f (take (Suc a) rs) t = f (rs ! a) (fold f (take a rs) t)"
  using assms by (simp_all add: Cons_nth_drop_Suc take_Suc_conv_app_nth)

text \<open>A redirection, of a child or of the parent: the process goes on to its next place.\<close>

lemma redirect_step:
  assumes "j < length (k_procs k)" "k_procs k ! j = p" "a < length rs"
    and "pr_status p = Runs (place (drop a rs))" "\<And>r rs. m_code m (place (r # rs)) = redirect r (place rs)"
    and "p\<lparr>pr_status := Runs (place (drop (Suc a) rs)), pr_fds := fd_redirect (rs ! a) (pr_fds p)\<rparr> = p'"
  shows "kstep m j k = ok (set_proc j p' k)"
  using assms(1,2,4-6) by (simp add: kstep_def redirect_next(1) [OF assms(3)] do_redirect)

lemma redirects_run:
  assumes "j < length (k_procs k)" "k_procs k ! j = p" "pr_status p = Runs (place rs)"
    and "\<And>r rs. m_code m (place (r # rs)) = redirect r (place rs)"
  shows "runs m (length rs) k (set_proc j (p\<lparr>pr_status := Runs (place []), pr_fds := fold fd_redirect rs (pr_fds p)\<rparr>) k)"
  using assms(1-3)
proof (induction rs arbitrary: k p)
  case Nil
  then have p: "p\<lparr>pr_status := Runs (place []), pr_fds := pr_fds p\<rparr> = p" by (cases p) simp
  have "set_proc j p k = k" using Nil by (auto simp: set_proc_def)
  with p show ?case by simp
next
  case (Cons r rs)
  let ?p = "p\<lparr>pr_status := Runs (place rs), pr_fds := fd_redirect r (pr_fds p)\<rparr>"
  have "kstep m j k = ok (set_proc j ?p k)"
    using redirect_step [OF Cons.prems(1,2), of 0 "r # rs" place m ?p] Cons.prems(3) assms(4) by simp
  moreover have "runs m (length rs) (set_proc j ?p k)
      (set_proc j (?p\<lparr>pr_status := Runs (place []), pr_fds := fold fd_redirect rs (pr_fds ?p)\<rparr>) (set_proc j ?p k))"
    by (rule Cons.IH) (use Cons.prems(1) in \<open>simp_all add: set_proc_def\<close>)
  ultimately show ?case using Cons.prems(1) by (auto simp: set_proc_def intro: runs_kstep)
qed

lemma code_redirect:
  "m_code (gf_machine P) (gf_loc x n buf (GF_Child1 (r # rs))) = redirect r (gf_loc x n buf (GF_Child1 rs))"
  "m_code (gf_machine P) (gf_loc x n buf (GF_Child2 (r # rs))) = redirect r (gf_loc x n buf (GF_Child2 rs))"
  "m_code (gf_machine P) (gf_loc x n buf (GF_Child3 (r # rs))) = redirect r (gf_loc x n buf (GF_Child3 rs))"
  "m_code (gf_machine P) (gf_loc x n buf (GF_Close (r # rs))) = redirect r (gf_loc x n buf (GF_Close rs))"
  by (simp_all add: gf_machine_def gf_code_def gf_loc_def gf_goto_def)

lemma child1_redirects:
  assumes "3 \<le> i" "a < 5"
  shows "kstep (gf_machine P) 1 (gf_state x i a b c) = ok (gf_state x i (Suc a) b c)"
proof -
  have l: "a < length (redirects 1)" using assms by (simp add: redirects_length)
  have "kstep (gf_machine P) 1 (gf_state x i a b c) = ok (set_proc 1 (child1_at x (Suc a)) (gf_state x i a b c))"
    by (rule redirect_step [OF _ _ l, where place = "\<lambda>rs. gf_loc x 2 (gi_junk x) (GF_Child1 rs)" and p = "child1_at x a"])
      (use assms redirect_next(2) [OF l, of fd_redirect "piped 2"] in
        \<open>simp_all add: gf_procs code_redirect child1_at_def child1_table_def n_procs_def\<close>)
  with set_child1 assms show ?thesis by simp
qed

lemma child2_redirects:
  assumes "5 \<le> i" "b < 8"
  shows "kstep (gf_machine P) 2 (gf_state x i a b c) = ok (gf_state x i a (Suc b) c)"
proof -
  have l: "b < length (redirects 2)" using assms by (simp add: redirects_length)
  have "kstep (gf_machine P) 2 (gf_state x i a b c) = ok (set_proc 2 (child2_at x (Suc b)) (gf_state x i a b c))"
    by (rule redirect_step [OF _ _ l, where place = "\<lambda>rs. gf_loc x 3 (gi_junk x) (GF_Child2 rs)" and p = "child2_at x b"])
      (use assms redirect_next(2) [OF l, of fd_redirect "piped 3"] in
        \<open>simp_all add: gf_procs code_redirect child2_at_def child2_table_def n_procs_def\<close>)
  with set_child2 assms show ?thesis by simp
qed

lemma child3_redirects:
  assumes "7 \<le> i" "c < 10"
  shows "kstep (gf_machine P) 3 (gf_state x i a b c) = ok (gf_state x i a b (Suc c))"
proof -
  have l: "c < length (redirects 3)" using assms by (simp add: redirects_length)
  have "kstep (gf_machine P) 3 (gf_state x i a b c) = ok (set_proc 3 (child3_at x (Suc c)) (gf_state x i a b c))"
    by (rule redirect_step [OF _ _ l, where place = "\<lambda>rs. gf_loc x 4 (gi_junk x) (GF_Child3 rs)" and p = "child3_at x c"])
      (use assms redirect_next(2) [OF l, of fd_redirect "piped 4"] in
        \<open>simp_all add: gf_procs code_redirect child3_at_def child3_table_def n_procs_def\<close>)
  with set_child3 assms show ?thesis by simp
qed

lemma parent_redirects:
  assumes "7 \<le> i" "i < 13"
  shows "kstep (gf_machine P) 0 (gf_state x i a b c) = ok (gf_state x (Suc i) a b c)"
proof -
  have l: "i - 7 < length (redirects 0)" using assms by (simp add: redirects_length)
  have s: "Suc (i - 7) = Suc i - 7" using assms by simp
  have "kstep (gf_machine P) 0 (gf_state x i a b c) = ok (set_proc 0 (parent_at x (Suc i)) (gf_state x i a b c))"
    by (rule redirect_step [OF _ _ l, where place = "\<lambda>rs. gf_loc x 4 (gi_junk x) (GF_Close rs)" and p = "parent_at x i"])
      (use assms redirect_next(2) [OF l, of fd_redirect "piped 4", unfolded s] in
        \<open>simp_all add: s gf_procs code_redirect parent_at_def parent_table_def n_procs_def\<close>)
  with set_parent assms show ?thesis by (simp add: n_procs_def n_pipes_def)
qed

section \<open>The other steps of the children\<close>

lemma gf_pipes:
  "1 \<le> i \<Longrightarrow> k_pipes (gf_state x i a b c) ! 0 = (if 14 \<le> i \<and> a \<le> 5 then gi_arg x else [])"
  "2 \<le> i \<Longrightarrow> k_pipes (gf_state x i a b c) ! Suc 0 = (if a = 9 \<and> b < 10 then gen_out x else [])"
  "4 \<le> i \<Longrightarrow> k_pipes (gf_state x i a b c) ! 2 = (if b = 10 \<and> c < 12 then filter_out x else [])"
  "6 \<le> i \<Longrightarrow> k_pipes (gf_state x i a b c) ! 3 = (if c = 12 \<and> i < 17 then avg_out x else [])"
  by (auto simp: gf_state_def n_pipes_def numeral_eq_Suc)

lemma tables:
  "map_of (child1_table 5) 3 = Some (Read_End 0)" "fd_close 3 (child1_table 5) = child1_table 7" "child1_table 6 = child1_table 5"
  "map_of (child1_table 7) (Suc 0) = Some (Write_End 1)" "child1_table 8 = child1_table 7"
  "map_of (child2_table 8) 0 = Some (Read_End 1)" "map_of (child2_table 8) (Suc 0) = Some (Write_End 2)"
  "child2_table 9 = child2_table 8"
  "map_of (child3_table 10) 0 = Some (Read_End 2)" "map_of (child3_table 10) (Suc 0) = Some (Write_End 3)"
  "child3_table 11 = child3_table 10"
  "child1_table 9 = []" "child2_table 10 = []" "child3_table 12 = []"
  "map_of (parent_table 13) 4 = Some (Write_End 0)" "map_of (parent_table 16) 9 = Some (Read_End 3)"
  "map_of (parent_table 18) (Suc 0) = Some Terminal"
  by code_simp+

lemmas open_in = parent_ends [simplified] child1_ends [simplified] child2_ends [simplified] child3_ends [simplified]

lemma store_over: "length s < length (buffer l) \<Longrightarrow> gf_store l pc (Some s) = l\<lparr>buffer := over (buffer l) s, gf_pc := pc\<rparr>"
  by (simp add: gf_store_def store_read_def ok_def)

lemma child1_reads:
  assumes "gf_arg_ok x" "3 \<le> i" "i \<le> 20" "b < 11" "c < 13"
  shows "kstep (gf_run x) 1 (gf_state x i 5 b c) =
    (if i < 14 \<or> gi_arg x = [] \<and> (i = 14 \<or> b < 2 \<or> c < 2) then None else ok (gf_state x i 6 b c))"
proof -
  let ?k = "gf_state x i 5 b c" and ?l = "gf_loc x 2 (gi_junk x) (GF_Child1 [])"
  let ?p = "\<lambda>l. (child1_at x 5)\<lparr>pr_status := Runs l\<rparr>"
  have st: "kstep (gf_run x) 1 ?k = do_call (gf_run x) 1 (Read 3 256 (gf_store ?l GF_Close1)) ?k"
    using assms(2) by (simp add: step_runs gf_procs n_procs_def child1_at_def redirects_def gf_machine_def gf_code_def gf_loc_def
        BUFFER_SIZE_def)
  have arg: "length (gi_arg x) < length (buffer ?l)" using assms(1) by (simp add: gf_arg_ok_def gf_loc_def)
  have p: "k_procs ?k ! 1 = child1_at x 5" using assms(2) by (simp add: gf_procs)
  have fd: "map_of (pr_fds (child1_at x 5)) 3 = Some (Read_End 0)" by (simp add: child1_at_def tables)
  have fin: "?p (gf_store ?l GF_Close1 (Some (gi_arg x))) = child1_at x 6"
    using arg by (simp add: store_over child1_at_def gf_loc_def tables)
  have new: "set_proc 1 (child1_at x 6) (?k\<lparr>k_pipes := (k_pipes ?k)[0 := []]\<rparr>) = gf_state x i 6 b c"
    using assms(2) by (auto simp: gf_state_def set_proc_def take_update_swap [symmetric])
  have same: "?k\<lparr>k_pipes := (k_pipes ?k)[0 := []]\<rparr> = ?k" if "k_pipes ?k ! 0 = []"
    using that by (metis (no_types, lifting) kernel.surjective kernel.update_convs(2) list_update_id)
  have w: "has_end ?k (Write_End 0) \<longleftrightarrow> i < 15 \<or> b < 2 \<or> c < 2" if "14 \<le> i"
    using that assms by (auto simp: has_end_state open_in)
  have w': "has_end ?k (Write_End 0)" if "i < 14"
    using that assms by (auto simp: has_end_state open_in)
  have pipe: "k_pipes ?k ! 0 = (if 14 \<le> i then gi_arg x else [])" using assms(2) by (simp add: gf_pipes)
  have take: "take 256 (gi_arg x) = gi_arg x" "drop 256 (gi_arg x) = []"
    using assms(1) by (simp_all add: gf_arg_ok_def BUFFER_SIZE_def)
  consider "i < 14" | "14 \<le> i" "gi_arg x = []" | "14 \<le> i" "gi_arg x \<noteq> []" by linarith
  then show ?thesis
  proof cases
    case 1
    with w' show ?thesis unfolding st by (simp add: do_call_def p [simplified] k_read_def fd pipe)
  next
    case 2
    with w fin new same show ?thesis unfolding st by (auto simp: do_call_def p [simplified] k_read_def fd pipe)
  next
    case 3
    with fin new show ?thesis unfolding st by (simp add: do_call_def p [simplified] k_read_def fd pipe take)
  qed
qed

lemma child1_rest:
  assumes "gf_arg_ok x" "3 \<le> i" "i \<le> 20" "6 \<le> a" "a < 9" "b < 10"
  shows "kstep (gf_run x) 1 (gf_state x i a b c) = ok (gf_state x i (Suc a) b c)"
proof -
  let ?k = "gf_state x i a b c"
  have nul: "NUL \<notin> set (gi_arg x)" using assms(1) by (simp add: gf_arg_ok_def)
  consider "a = 6" | "a = 7" | "a = 8" using assms(4,5) by linarith
  then show ?thesis
  proof cases
    case 1
    have "(child1_at x 6)\<lparr>pr_status := Runs (gf_loc x 2 (over (gi_junk x) (gi_arg x)) GF_Exec1), pr_fds := fd_close 3 (child1_table 5)\<rparr>
        = child1_at x 7" by (simp add: child1_at_def tables)
    with 1 assms(2) set_child1 [of i 6 x b c] show ?thesis
      by (simp add: step_runs gf_procs n_procs_def child1_at_def gf_machine_def gf_code_def gf_loc_def gf_goto_def do_call_def tables)
  next
    case 2
    have "gf_code (gf_loc x 2 (over (gi_junk x) (gi_arg x)) GF_Exec1) =
        Exec ''./gen_numbers'' [''gen_numbers'', gi_arg x] (gf_loc x 2 (over (gi_junk x) (gi_arg x)) GF_Message1)"
      using nul by (simp add: gf_code_def gf_loc_def gf_goto_def)
    moreover have "(child1_at x 7)\<lparr>pr_status := Runs_Program (Source (gi_gen x)) [''gen_numbers'', gi_arg x]\<rparr> = child1_at x 8"
      by (simp add: child1_at_def tables)
    ultimately show ?thesis using 2 assms(2) set_child1 [of i 7 x b c]
      by (simp add: step_runs gf_procs n_procs_def child1_at_def gf_machine_def do_call_def gi_programs_def)
  next
    case 3
    have r: "has_end ?k (Read_End 1)" using assms 3
      by (cases "i < 9") (auto simp: has_end_state open_in)
    have "kstep (gf_run x) 1 ?k = ok (set_proc 1 (child1_at x 9) (?k\<lparr>k_pipes := (k_pipes ?k)[1 := gen_out x]\<rparr>))"
      using source_step [of 1 ?k "child1_at x 8" "gi_gen x" "[''gen_numbers'', gi_arg x]" 1 "gf_run x"] assms(2) 3 r
      by (simp add: gf_procs n_procs_def child1_at_def tables gf_pipes gen_out_def)
    also have "set_proc 1 (child1_at x 9) (?k\<lparr>k_pipes := (k_pipes ?k)[1 := gen_out x]\<rparr>) = gf_state x i 9 b c"
      using assms(2,6) 3 by (auto simp: gf_state_def set_proc_def take_update_swap [symmetric])
    finally show ?thesis using 3 by simp
  qed
qed

lemma child2_rest:
  assumes "5 \<le> i" "i \<le> 20" "b = 8 \<or> b = 9" "a < 10" "c < 12"
  shows "kstep (gf_run x) 2 (gf_state x i a b c) =
    (if b = 9 \<and> \<not> (a = 9 \<and> 4 \<le> c \<and> 10 \<le> i) then None else ok (gf_state x i a (Suc b) c))"
  using assms(3)
proof
  assume b: "b = 8"
  have "(child2_at x 8)\<lparr>pr_status := Runs_Program (Filter (gi_filter x)) [''filter_pos_nums'']\<rparr> = child2_at x 9"
    by (simp add: child2_at_def tables)
  with b assms(1) set_child2 [of i 8 x a c] show ?thesis
    by (simp add: step_runs gf_procs n_procs_def child2_at_def redirects_def gf_machine_def do_call_def gf_code_def gf_loc_def
        gi_programs_def)
next
  assume b: "b = 9"
  let ?k = "gf_state x i a 9 c"
  have r: "has_end ?k (Read_End 2)" using assms b
    by (cases "i < 11") (auto simp: has_end_state open_in)
  have w: "has_end ?k (Write_End 1) \<longleftrightarrow> \<not> (a = 9 \<and> 4 \<le> c \<and> 10 \<le> i)" using assms b
    by (auto simp: has_end_state open_in)
  have new: "set_proc 2 (child2_at x 10) (?k\<lparr>k_pipes := (k_pipes ?k)[Suc 0 := [], 2 := filter_out x]\<rparr>) = gf_state x i 9 10 c"
    if "a = 9" "10 \<le> i"
    using assms(5) that by (auto simp: gf_state_def set_proc_def take_update_swap [symmetric] numeral_eq_Suc)
  show ?thesis
    using filter_step [of 2 ?k "child2_at x 9" "gi_filter x" "[''filter_pos_nums'']" 1 2 "gf_run x"] assms(1) b r w new
    by (auto simp: gf_procs n_procs_def child2_at_def tables gf_pipes filter_out_def)
qed

lemma child3_rest:
  assumes "7 \<le> i" "i < 17" "c = 10 \<or> c = 11" "b < 11" "a < 10"
  shows "kstep (gf_run x) 3 (gf_state x i a b c) =
    (if c = 11 \<and> \<not> (b = 10 \<and> 12 \<le> i) then None else ok (gf_state x i a b (Suc c)))"
  using assms(3)
proof
  assume c: "c = 10"
  have "(child3_at x 10)\<lparr>pr_status := Runs_Program (Filter (gi_avg x)) [''calc_avg'']\<rparr> = child3_at x 11"
    by (simp add: child3_at_def tables)
  with c assms(1) set_child3 [of i 10 x a b] show ?thesis
    by (simp add: step_runs gf_procs n_procs_def child3_at_def redirects_def gf_machine_def do_call_def gf_code_def gf_loc_def
        gi_programs_def)
next
  assume c: "c = 11"
  let ?k = "gf_state x i a b 11"
  have r: "has_end ?k (Read_End 3)" using assms c by (auto simp: has_end_state open_in)
  have w: "has_end ?k (Write_End 2) \<longleftrightarrow> \<not> (b = 10 \<and> 12 \<le> i)" using assms c by (auto simp: has_end_state open_in)
  have new: "set_proc 3 (child3_at x 12) (?k\<lparr>k_pipes := (k_pipes ?k)[2 := [], 3 := avg_out x]\<rparr>) = gf_state x i a 10 12" if "b = 10"
    using assms(1,2) that by (auto simp: gf_state_def set_proc_def take_update_swap [symmetric] numeral_eq_Suc)
  show ?thesis
    using filter_step [of 3 ?k "child3_at x 11" "gi_avg x" "[''calc_avg'']" 2 3 "gf_run x"] assms(1) c r w new
    by (auto simp: gf_procs n_procs_def child3_at_def tables gf_pipes avg_out_def)
qed

section \<open>The other steps of the parent\<close>

lemma pipe_tables:
  "fd_free (piped 0) = 3" "fd_free ((3, Read_End 0) # piped 0) = 4"
  "fd_free (piped (Suc 0)) = 5" "fd_free ((5, Read_End (Suc 0)) # piped (Suc 0)) = 6"
  "fd_free (piped 2) = 7" "fd_free ((7, Read_End 2) # piped 2) = 8"
  "fd_free (piped 3) = 9" "fd_free ((9, Read_End 3) # piped 3) = 10"
  "(3, Read_End 0) # (4, Write_End 0) # piped 0 = piped (Suc 0)" "(5, Read_End (Suc 0)) # (6, Write_End (Suc 0)) # piped (Suc 0) = piped 2"
  "(7, Read_End 2) # (8, Write_End 2) # piped 2 = piped 3" "(9, Read_End 3) # (10, Write_End 3) # piped 3 = piped 4"
  by code_simp+

lemmas parent_simps = gf_procs n_procs_def parent_at_def gf_machine_def gf_code_def gf_loc_def do_call_def parent_table_def
  pipe_tables

lemma parent_pipe:
  assumes "2 \<le> length (gi_args x)" "i = 0 \<or> i = 1 \<or> i = 3 \<or> i = 5"
    and "i < 3 \<longrightarrow> a = 0" "i < 5 \<longrightarrow> b = 0" "i < 7 \<longrightarrow> c = 0"
  shows "kstep (gf_machine P) 0 (gf_state x i a b c) = ok (gf_state x (Suc i) a b c)"
proof -
  let ?k = "gf_state x i a b c"
  have args: "\<not> length (gi_args x) < 2" using assms(1) by simp
  have new: "set_proc 0 (parent_at x (Suc i)) (?k\<lparr>k_pipes := k_pipes ?k @ [[]]\<rparr>) = gf_state x (Suc i) a b c"
    using assms(2-5) by (auto simp: gf_state_def set_proc_def n_procs_def n_pipes_def numeral_eq_Suc)
  have len: "length (k_pipes ?k) = n_pipes i" by (simp add: gf_state_def n_pipes_def)
  from assms(2) show ?thesis
  proof (elim disjE)
    assume "i = 0"
    with args new len show ?thesis by (simp add: step_runs parent_simps n_pipes_def)
  next
    assume "i = 1"
    with args new len show ?thesis by (simp add: step_runs parent_simps n_pipes_def)
  next
    assume "i = 3"
    with args new len show ?thesis by (simp add: step_runs parent_simps n_pipes_def)
  next
    assume "i = 5"
    with args new len show ?thesis by (simp add: step_runs parent_simps n_pipes_def)
  qed
qed

lemma parent_fork:
  assumes "i = 2 \<or> i = 4 \<or> i = 6" and "i < 3 \<longrightarrow> a = 0" "i < 5 \<longrightarrow> b = 0" "i < 7 \<longrightarrow> c = 0"
  shows "kstep (gf_machine P) 0 (gf_state x i a b c) = ok (gf_state x (Suc i) a b c)"
proof -
  let ?k = "gf_state x i a b c"
  have new: "?k\<lparr>k_procs := (k_procs ?k)[0 := parent_at x (Suc i)] @
      [if i = 2 then child1_at x 0 else if i = 4 then child2_at x 0 else child3_at x 0]\<rparr> = gf_state x (Suc i) a b c"
    using assms by (auto simp: gf_state_def set_proc_def n_procs_def n_pipes_def numeral_eq_Suc)
  from assms(1) show ?thesis
  proof (elim disjE)
    assume "i = 2"
    with new show ?thesis
      by (simp add: step_runs parent_simps gf_goto_def child1_fds_def redirects_def child1_at_def child1_table_def)
  next
    assume "i = 4"
    with new show ?thesis
      by (simp add: step_runs parent_simps gf_goto_def child2_fds_def redirects_def child2_at_def child2_table_def)
  next
    assume "i = 6"
    with new show ?thesis
      by (simp add: step_runs parent_simps gf_goto_def child3_fds_def parent_fds_def redirects_def child3_at_def child3_table_def)
  qed
qed

lemma parent_write:
  assumes "gf_arg_ok x" "a \<le> 5"
  shows "kstep (gf_run x) 0 (gf_state x 13 a b c) = ok (gf_state x 14 a b c)"
proof -
  let ?k = "gf_state x 13 a b c" and ?l = "\<lambda>buf pc. gf_loc x 4 buf pc"
  have t: "parent_table 14 = parent_table 13" by code_simp
  have r: "has_end ?k (Read_End 0)" using assms(2) by (simp add: has_end_state open_in)
  have arg: "gi_args x ! Suc 0 = gi_arg x" "length (gi_arg x) < length (gi_junk x)"
    using assms(1) by (simp_all add: gi_arg_def gf_arg_ok_def)
  have "kstep (gf_run x) 0 ?k = do_call (gf_run x) 0 (Write 4 (gi_arg x) (?l (over (gi_junk x) (gi_arg x)) GF_Close_Write)) ?k"
    using arg by (simp add: step_runs gf_procs n_procs_def parent_at_def redirects_def gf_machine_def gf_code_def gf_loc_def over_def)
  also have "\<dots> = ok (set_proc 0 (parent_at x 14) (?k\<lparr>k_pipes := (k_pipes ?k)[0 := gi_arg x]\<rparr>))"
    using write_pipe [of ?k 0 "parent_at x 13" 4 0 "gi_arg x"] r t
    by (simp add: do_call_def gf_procs gf_pipes parent_at_def tables)
  also have "set_proc 0 (parent_at x 14) (?k\<lparr>k_pipes := (k_pipes ?k)[0 := gi_arg x]\<rparr>) = gf_state x 14 a b c"
    using assms(2) by (simp add: gf_state_def set_proc_def n_procs_def n_pipes_def)
  finally show ?thesis .
qed

lemma parent_close:
  assumes "i = 14 \<or> i = 17"
  shows "kstep (gf_run x) 0 (gf_state x i a b c) = ok (gf_state x (Suc i) a b c)"
proof -
  have t: "fd_close 4 (parent_table 14) = parent_table 15" "fd_close 9 (parent_table 17) = parent_table 18" by code_simp+
  show ?thesis
    using assms t set_parent [of i x a b c]
    by (auto simp: step_runs gf_procs n_procs_def n_pipes_def parent_at_def gf_machine_def gf_code_def gf_loc_def gf_goto_def do_call_def)
qed

lemma children_exited:
  assumes "7 \<le> i" "a < 10" "b < 11" "c < 13"
  shows "has_child (gf_state x i a b c) 0 \<longleftrightarrow> \<not> (a = 9 \<and> b = 10 \<and> c = 12)"
proof -
  have e: "(case pr_status (child1_at x a) of Exited _ \<Rightarrow> False | _ \<Rightarrow> True) \<longleftrightarrow> a \<noteq> 9"
    "(case pr_status (child2_at x b) of Exited _ \<Rightarrow> False | _ \<Rightarrow> True) \<longleftrightarrow> b \<noteq> 10"
    "(case pr_status (child3_at x c) of Exited _ \<Rightarrow> False | _ \<Rightarrow> True) \<longleftrightarrow> c \<noteq> 12"
    using assms by (auto simp: child1_at_def child2_at_def child3_at_def)
  have p: "pr_parent (parent_at x i) = None" "pr_parent (child1_at x a) = Some 0" "pr_parent (child2_at x b) = Some 0"
    "pr_parent (child3_at x c) = Some 0" by (simp_all add: at_defs)
  have "k_procs (gf_state x i a b c) = [parent_at x i, child1_at x a, child2_at x b, child3_at x c]"
    using assms(1) by (simp add: gf_state_def n_procs_def)
  then show ?thesis unfolding has_child_def by (simp add: p e)
qed

lemma parent_wait:
  assumes "a < 10" "b < 11" "c < 13"
  shows "kstep (gf_run x) 0 (gf_state x 15 a b c) = (if a = 9 \<and> b = 10 \<and> c = 12 then ok (gf_state x 16 a b c) else None)"
proof -
  have t: "parent_table 16 = parent_table 15" by code_simp
  show ?thesis
    using set_parent [of 15 x a b c] children_exited [OF _ assms, of 15 x] t
    by (auto simp: step_runs gf_procs n_procs_def n_pipes_def parent_at_def gf_machine_def gf_code_def gf_loc_def gf_goto_def do_call_def)
qed

lemma parent_read:
  assumes "gf_pre x"
  shows "kstep (gf_run x) 0 (gf_state x 16 9 10 12) = ok (gf_state x 17 9 10 12)"
proof -
  let ?k = "gf_state x 16 9 10 12" and ?l = "gf_loc x 4 (over (gi_junk x) (gi_arg x)) GF_Read"
  have st: "kstep (gf_run x) 0 ?k = do_call (gf_run x) 0 (Read 9 256 (gf_store ?l GF_Close_Read)) ?k"
    by (simp add: step_runs gf_procs n_procs_def parent_at_def gf_machine_def gf_code_def gf_loc_def BUFFER_SIZE_def)
  have out: "length (avg_out x) < length (buffer ?l)" using assms by (simp add: gf_pre_def gf_arg_ok_def gf_loc_def)
  have t: "parent_table 17 = parent_table 16" by code_simp
  have fin: "(parent_at x 16)\<lparr>pr_status := Runs (gf_store ?l GF_Close_Read (Some (avg_out x)))\<rparr> = parent_at x 17"
    using out by (simp add: store_over parent_at_def gf_loc_def t)
  have new: "set_proc 0 (parent_at x 17) (?k\<lparr>k_pipes := (k_pipes ?k)[3 := []]\<rparr>) = gf_state x 17 9 10 12"
    by (simp add: gf_state_def set_proc_def n_procs_def n_pipes_def numeral_eq_Suc)
  have same: "?k\<lparr>k_pipes := (k_pipes ?k)[3 := []]\<rparr> = ?k" if "avg_out x = []"
    using that by (simp add: gf_state_def n_pipes_def)
  have w: "\<not> has_end ?k (Write_End 3)" by (simp add: has_end_state open_in)
  have take: "take 256 (avg_out x) = avg_out x" "drop 256 (avg_out x) = []"
    using assms by (simp_all add: gf_pre_def BUFFER_SIZE_def)
  have p: "k_procs ?k ! 0 = parent_at x 16" by (simp add: gf_procs)
  have fd: "map_of (pr_fds (parent_at x 16)) 9 = Some (Read_End 3)" by (simp add: parent_at_def tables)
  have pipe: "k_pipes ?k ! 3 = avg_out x" by (simp add: gf_pipes)
  show ?thesis
  proof (cases "avg_out x = []")
    case True
    with w fin new same show ?thesis unfolding st by (simp add: do_call_def p k_read_def fd pipe)
  next
    case False
    with fin new show ?thesis unfolding st by (simp add: do_call_def p k_read_def fd pipe take)
  qed
qed

lemma parent_print:
  assumes "gf_pre x"
  shows "kstep (gf_run x) 0 (gf_state x 18 a b c) = ok (gf_state x 19 a b c)"
proof -
  let ?k = "gf_state x 18 a b c" and ?l = "\<lambda>pc. gf_loc x 4 (over (over (gi_junk x) (gi_arg x)) (avg_out x)) pc"
  have nul: "NUL \<notin> set (avg_out x)" using assms by (simp add: gf_pre_def)
  have t: "parent_table 19 = parent_table 18" by code_simp
  have "kstep (gf_run x) 0 ?k = do_call (gf_run x) 0 (Print (avg_out x) (?l (GF_Exit 0))) ?k"
    using nul by (simp add: step_runs gf_procs n_procs_def parent_at_def gf_machine_def gf_code_def gf_loc_def gf_goto_def)
  also have "\<dots> = ok (set_proc 0 (parent_at x 19) (?k\<lparr>k_out := avg_out x\<rparr>))"
    using write_terminal [of ?k 0 "parent_at x 18" 1 "avg_out x"] t
    by (simp add: do_call_def gf_procs parent_at_def tables) (simp add: gf_state_def)
  also have "set_proc 0 (parent_at x 19) (?k\<lparr>k_out := avg_out x\<rparr>) = gf_state x 19 a b c"
    by (simp add: gf_state_def set_proc_def n_procs_def n_pipes_def)
  finally show ?thesis .
qed

lemma parent_exit: "kstep (gf_run x) 0 (gf_state x 19 a b c) = ok (gf_state x 20 a b c)"
  by (simp add: step_runs gf_procs n_procs_def parent_at_def gf_machine_def gf_code_def gf_loc_def do_call_def proc_exit_def
      gf_state_def set_proc_def n_pipes_def parent_table_def)

section \<open>Every schedule\<close>

lemma gf_parent_moves:
  assumes "gf_pre x" "gf_order i a b c"
  shows "kstep (gf_run x) 0 (gf_state x i a b c) =
    (if i = 20 \<or> i = 15 \<and> \<not> (a = 9 \<and> b = 10 \<and> c = 12) then None else ok (gf_state x (Suc i) a b c))"
proof -
  have arg: "gf_arg_ok x" and args: "2 \<le> length (gi_args x)" using assms(1) by (simp_all add: gf_pre_def gf_arg_ok_def)
  have o: "i \<le> 20" "a < 10" "b < 11" "c < 13" "i < 3 \<longrightarrow> a = 0" "i < 5 \<longrightarrow> b = 0" "i < 7 \<longrightarrow> c = 0" "i = 13 \<longrightarrow> a \<le> 5"
    "16 \<le> i \<longrightarrow> a = 9 \<and> b = 10 \<and> c = 12" using assms(2) by (auto simp: gf_order_def)
  consider "i = 0 \<or> i = 1 \<or> i = 3 \<or> i = 5" | "i = 2 \<or> i = 4 \<or> i = 6" | "7 \<le> i" "i < 13" | "i = 13" | "i = 14 \<or> i = 17" |
    "i = 15" | "i = 16" | "i = 18" | "i = 19" | "i = 20"
  proof -
    have "i < 7 \<Longrightarrow> i = 0 \<or> i = 1 \<or> i = 2 \<or> i = 3 \<or> i = 4 \<or> i = 5 \<or> i = 6" by linarith
    moreover have "13 \<le> i \<Longrightarrow> i = 13 \<or> i = 14 \<or> i = 15 \<or> i = 16 \<or> i = 17 \<or> i = 18 \<or> i = 19 \<or> i = 20"
      using o(1) by linarith
    ultimately show thesis using that by (cases "i < 7"; cases "i < 13") auto
  qed
  then show ?thesis
  proof cases
    case 1
    then show ?thesis using parent_pipe [OF args 1 o(5-7)] by auto
  next
    case 2
    then show ?thesis using parent_fork [OF 2 o(5-7)] by auto
  next
    case 3
    then show ?thesis using parent_redirects [OF 3] by simp
  next
    case 4
    then show ?thesis using parent_write [OF arg] o(8) by simp
  next
    case 5
    then show ?thesis using parent_close [OF 5] by auto
  next
    case 6
    then show ?thesis using parent_wait [OF o(2-4)] by simp
  next
    case 7
    then show ?thesis using parent_read [OF assms(1)] o(9) by simp
  next
    case 8
    then show ?thesis using parent_print [OF assms(1)] by simp
  next
    case 9
    then show ?thesis using parent_exit by simp
  next
    case 10
    then show ?thesis by (simp add: kstep_def gf_procs n_procs_def parent_at_def)
  qed
qed

lemma child1_moves:
  assumes "gf_arg_ok x" "gf_order i a b c"
  shows "kstep (gf_run x) 1 (gf_state x i a b c) =
    (if i < 3 \<or> a = 9 \<or> a = 5 \<and> (i < 14 \<or> gi_arg x = [] \<and> (i = 14 \<or> b < 2 \<or> c < 2)) then None
     else ok (gf_state x i (Suc a) b c))"
proof -
  have o: "i \<le> 20" "a \<le> 9" "b < 11" "c < 13" "b = 10 \<longrightarrow> a = 9" using assms(2) by (auto simp: gf_order_def)
  consider "i < 3" | "3 \<le> i" "a < 5" | "3 \<le> i" "a = 5" | "3 \<le> i" "6 \<le> a" "a < 9" | "3 \<le> i" "a = 9" using o(2) by linarith
  then show ?thesis
  proof cases
    case 1
    then show ?thesis by (simp add: kstep_def gf_procs n_procs_def)
  next
    case 2
    then show ?thesis using child1_redirects [OF 2] by simp
  next
    case 3
    then show ?thesis using child1_reads [OF assms(1) 3(1) o(1,3,4)] by auto
  next
    case 4
    then have "b < 10" using o(3,5) by linarith
    with child1_rest [OF assms(1) 4(1) o(1) 4(2,3)] 4 show ?thesis by auto
  next
    case 5
    then show ?thesis by (simp add: kstep_def gf_procs n_procs_def child1_at_def)
  qed
qed

lemma child2_moves:
  assumes "gf_order i a b c"
  shows "kstep (gf_run x) 2 (gf_state x i a b c) =
    (if i < 5 \<or> b = 10 \<or> b = 9 \<and> \<not> (a = 9 \<and> 4 \<le> c \<and> 10 \<le> i) then None else ok (gf_state x i a (Suc b) c))"
proof -
  have o: "i \<le> 20" "a < 10" "b \<le> 10" "c < 13" "c = 12 \<longrightarrow> b = 10" using assms by (auto simp: gf_order_def)
  consider "i < 5" | "5 \<le> i" "b < 8" | "5 \<le> i" "b = 8 \<or> b = 9" | "5 \<le> i" "b = 10" using o(3) by linarith
  then show ?thesis
  proof cases
    case 1
    then show ?thesis by (simp add: kstep_def gf_procs n_procs_def)
  next
    case 2
    then show ?thesis using child2_redirects [OF 2] by simp
  next
    case 3
    then have "c < 12" using o(4,5) by linarith
    with child2_rest [OF 3(1) o(1) 3(2) o(2)] 3 show ?thesis by auto
  next
    case 4
    then show ?thesis by (simp add: kstep_def gf_procs n_procs_def child2_at_def)
  qed
qed

lemma child3_moves:
  assumes "gf_order i a b c"
  shows "kstep (gf_run x) 3 (gf_state x i a b c) =
    (if i < 7 \<or> c = 12 \<or> c = 11 \<and> \<not> (b = 10 \<and> 12 \<le> i) then None else ok (gf_state x i a b (Suc c)))"
proof -
  have o: "i \<le> 20" "a < 10" "b < 11" "c \<le> 12" "16 \<le> i \<longrightarrow> c = 12" using assms by (auto simp: gf_order_def)
  consider "i < 7" | "7 \<le> i" "c < 10" | "7 \<le> i" "c = 10 \<or> c = 11" | "7 \<le> i" "c = 12" using o(4) by linarith
  then show ?thesis
  proof cases
    case 1
    then show ?thesis by (simp add: kstep_def gf_procs n_procs_def)
  next
    case 2
    then show ?thesis using child3_redirects [OF 2] by simp
  next
    case 3
    then have "i < 17" using o(5) by linarith
    with child3_rest [OF 3(1) _ 3(2) o(3,2)] 3 show ?thesis by auto
  next
    case 4
    then show ?thesis by (simp add: kstep_def gf_procs n_procs_def child3_at_def)
  qed
qed

lemma no_more_moves: "4 \<le> j \<Longrightarrow> kstep (gf_run x) j (gf_state x i a b c) = None"
  by (simp add: kstep_def gf_procs n_procs_def)

definition gf_inv :: "gf_input \<Rightarrow> nat \<Rightarrow> gf kernel \<Rightarrow> bool" where
  "gf_inv x r k \<longleftrightarrow> (\<exists>i a b c. k = gf_state x i a b c \<and> gf_order i a b c \<and> r + i + a + b + c = 51)"

definition gf_goal :: "gf_input \<Rightarrow> gf kernel \<Rightarrow> bool" where
  "gf_goal x k \<longleftrightarrow> k_out k = avg_out x \<and> (\<forall>p\<in>set (k_procs k). pr_status p = Exited 0)"

lemma gf_moves:
  assumes "gf_pre x" "gf_order i a b c"
  shows "(kstep (gf_run x) j (gf_state x i a b c) = None \<or>
    (\<exists>i' a' b' c'. kstep (gf_run x) j (gf_state x i a b c) = ok (gf_state x i' a' b' c') \<and> gf_order i' a' b' c' \<and>
       i' + a' + b' + c' = Suc (i + a + b + c)))"
proof -
  have arg: "gf_arg_ok x" using assms(1) by (simp add: gf_pre_def)
  note moves = gf_parent_moves [OF assms] child1_moves [OF arg assms(2)] child2_moves [OF assms(2), of x] child3_moves [OF assms(2), of x]
  consider "j = 0" | "j = 1" | "j = 2" | "j = 3" | "4 \<le> j" by linarith
  then show ?thesis
  proof cases
    case 1
    show ?thesis
    proof (cases "i = 20 \<or> i = 15 \<and> \<not> (a = 9 \<and> b = 10 \<and> c = 12)")
      case False
      with assms(2) have "gf_order (Suc i) a b c" unfolding gf_order_def by presburger
      with False 1 moves(1) show ?thesis by (intro disjI2 exI [of _ "Suc i"] exI [of _ a] exI [of _ b] exI [of _ c]) simp
    qed (use 1 moves(1) in simp)
  next
    case 2
    show ?thesis
    proof (cases "i < 3 \<or> a = 9 \<or> a = 5 \<and> (i < 14 \<or> gi_arg x = [] \<and> (i = 14 \<or> b < 2 \<or> c < 2))")
      case False
      then have "3 \<le> i" "a \<noteq> 9" "a = 5 \<longrightarrow> 14 \<le> i" by auto
      with assms(2) have "gf_order i (Suc a) b c" unfolding gf_order_def by presburger
      with False 2 moves(2) show ?thesis by (intro disjI2 exI [of _ i] exI [of _ "Suc a"] exI [of _ b] exI [of _ c]) simp
    qed (use 2 moves(2) in simp)
  next
    case 3
    show ?thesis
    proof (cases "i < 5 \<or> b = 10 \<or> b = 9 \<and> \<not> (a = 9 \<and> 4 \<le> c \<and> 10 \<le> i)")
      case False
      with assms(2) have "gf_order i a (Suc b) c" unfolding gf_order_def by presburger
      with False 3 moves(3) show ?thesis by (intro disjI2 exI [of _ i] exI [of _ a] exI [of _ "Suc b"] exI [of _ c]) simp
    qed (use 3 moves(3) in simp)
  next
    case 4
    show ?thesis
    proof (cases "i < 7 \<or> c = 12 \<or> c = 11 \<and> \<not> (b = 10 \<and> 12 \<le> i)")
      case False
      with assms(2) have "gf_order i a b (Suc c)" unfolding gf_order_def by presburger
      with False 4 moves(4) show ?thesis by (intro disjI2 exI [of _ i] exI [of _ a] exI [of _ b] exI [of _ "Suc c"]) simp
    qed (use 4 moves(4) in simp)
  qed (simp add: no_more_moves)
qed

lemma gf_stuck:
  assumes "gf_pre x" "gf_order i a b c" "stuck (gf_run x) (gf_state x i a b c)"
  shows "i = 20 \<and> a = 9 \<and> b = 10 \<and> c = 12"
proof -
  have arg: "gf_arg_ok x" using assms(1) by (simp add: gf_pre_def)
  have "kstep (gf_run x) j (gf_state x i a b c) = None" for j using assms(3) by (simp add: stuck_def)
  note s = this [of 0, unfolded gf_parent_moves [OF assms(1,2)]] this [of 1, unfolded child1_moves [OF arg assms(2)]]
    this [of 2, unfolded child2_moves [OF assms(2)]] this [of 3, unfolded child3_moves [OF assms(2)]]
  have o: "16 \<le> i \<longrightarrow> c = 12" "b = 10 \<longrightarrow> a = 9" "c = 12 \<longrightarrow> b = 10" using assms(2) by (simp_all add: gf_order_def)
  from s(1) have i: "i = 20 \<or> i = 15" by (auto split: if_splits)
  then have c: "c = 12 \<or> c = 11 \<and> b \<noteq> 10" using s(4) by (auto split: if_splits)
  then have b: "b = 10 \<or> b = 9 \<and> a \<noteq> 9" using s(3) i o(3) by (auto split: if_splits)
  then have "a = 9" using s(2) i c o(2) by (auto split: if_splits)
  with b c i o s(1) show ?thesis by (auto split: if_splits)
qed

lemma gf_start: "gf_boot (gi_junk x) (gi_args x) = gf_state x 0 0 0 0"
  by (simp add: gf_state_def gf_boot_def boot_def n_procs_def n_pipes_def parent_at_def gf_loc_def parent_table_def piped.simps)

lemma gf_inv_start: "gf_inv x 51 (gf_boot (gi_junk x) (gi_args x))"
  unfolding gf_inv_def gf_start
  by (rule exI [of _ 0], rule exI [of _ 0], rule exI [of _ 0], rule exI [of _ 0]) (simp add: gf_order_def)

lemma gf_inv_step:
  assumes "gf_pre x" "gf_inv x r k"
  shows "kstep (gf_run x) j k = None \<or> (\<exists>k'. kstep (gf_run x) j k = ok k' \<and> 0 < r \<and> gf_inv x (r - 1) k')"
proof -
  from assms(2) obtain i a b c where k: "k = gf_state x i a b c" "gf_order i a b c" "r + i + a + b + c = 51"
    by (auto simp: gf_inv_def)
  from gf_moves [OF assms(1) k(2), of j] show ?thesis
  proof
    assume "\<exists>i' a' b' c'. kstep (gf_run x) j (gf_state x i a b c) = ok (gf_state x i' a' b' c') \<and> gf_order i' a' b' c' \<and>
       i' + a' + b' + c' = Suc (i + a + b + c)"
    then obtain i' a' b' c' where n: "kstep (gf_run x) j k = ok (gf_state x i' a' b' c')" "gf_order i' a' b' c'"
      "i' + a' + b' + c' = Suc (i + a + b + c)" unfolding k(1) by blast
    from n(2) have "i' + a' + b' + c' \<le> 51" unfolding gf_order_def by linarith
    with n(3) k(3) have r: "0 < r" "r - 1 + i' + a' + b' + c' = 51" by linarith+
    with n(2) have "gf_inv x (r - 1) (gf_state x i' a' b' c')" unfolding gf_inv_def by blast
    with n(1) r(1) show ?thesis by blast
  qed (simp add: k(1))
qed

interpretation gen_filter: any_schedule "\<lambda>x. gf_machine (gi_programs x)" "\<lambda>x. gf_boot (gi_junk x) (gi_args x)"
  gf_pre "\<lambda>_. 51" gf_inv gf_goal
proof (unfold_locales, goal_cases)
  case (1 x)
  show ?case by (rule gf_inv_start)
next
  case (2 x r k i k')
  from gf_inv_step [OF 2(1,2), of i] 2(3) show ?case by (intro exI [of _ "r - 1"]) auto
next
  case (3 x r k i e)
  from gf_inv_step [OF 3, of i] show ?case by auto
next
  case (4 x r k)
  from 4(2) obtain i a b c where k: "k = gf_state x i a b c" "gf_order i a b c" by (auto simp: gf_inv_def)
  have "k = gf_state x 20 9 10 12" using gf_stuck [OF 4(1) k(2)] 4(3) unfolding k(1) by simp
  then show ?case by (auto simp: gf_goal_def gf_state_def n_procs_def at_defs)
qed

section \<open>What the program prints\<close>


section \<open>Errors\<close>

lemma parent_forks:
  assumes "2 \<le> length (gi_args x)"
  shows "runs (gf_machine P) 7 (gf_state x 0 0 0 0) (gf_state x 7 0 0 0)"
proof -
  have "kstep (gf_machine P) 0 (gf_state x i 0 0 0) = ok (gf_state x (Suc i) 0 0 0)" if "i < 7" for i
  proof -
    from that consider "i = 0 \<or> i = 1 \<or> i = 3 \<or> i = 5" | "i = 2 \<or> i = 4 \<or> i = 6" by linarith
    then show ?thesis using parent_pipe [OF assms, of i 0 0 0 P] parent_fork [of i 0 0 0 P x] by cases blast+
  qed
  then show ?thesis using runs_from_to [of 0 7 "gf_machine P" 0 "\<lambda>i. gf_state x i 0 0 0"] by simp
qed

text \<open>An argument that does not fit: the parent gets as far as copying it.\<close>

lemma argument_overflows:
  assumes "2 \<le> length (gi_args x)" "length (gi_junk x) \<le> length (gi_arg x)"
  shows "\<exists>n k. runs (gf_machine P) n (gf_boot (gi_junk x) (gi_args x)) k \<and> kstep (gf_machine P) 0 k = err Out_Of_Bounds"
proof -
  have "runs (gf_machine P) 6 (gf_state x 7 0 0 0) (gf_state x (7 + 6) 0 0 0)"
    by (rule runs_from_to [of 7 6 _ 0 "\<lambda>i. gf_state x i 0 0 0"]) (simp add: parent_redirects)
  with parent_forks [OF assms(1)] have "runs (gf_machine P) 13 (gf_state x 0 0 0 0) (gf_state x 13 0 0 0)"
    using runs_trans by fastforce
  moreover have "kstep (gf_machine P) 0 (gf_state x 13 0 0 0) = err Out_Of_Bounds"
    using assms(2) by (simp add: step_runs gf_procs n_procs_def parent_at_def redirects_def gf_machine_def gf_code_def gf_loc_def
        gi_arg_def c_strcpy_overflow do_call_def)
  ultimately show ?thesis unfolding gf_start by blast
qed

text \<open>An output that fills the buffer: the terminator is written behind it.\<close>

lemma gf_reaches_read:
  assumes "gf_arg_ok x"
  shows "\<exists>n. runs (gf_run x) n (gf_boot (gi_junk x) (gi_args x)) (gf_state x 16 9 10 12)"
proof -
  let ?r = "\<lambda>k k'. \<exists>n. runs (gf_run x) n k k'"
  have trans: "?r k1 k3" if "?r k1 k2" "?r k2 k3" for k1 k2 k3 using that runs_trans by blast
  have step: "?r k k'" if "kstep (gf_run x) j k = ok k'" for j k k' using runs_kstep [OF that, of 0 k'] runs_0 by blast
  have args: "2 \<le> length (gi_args x)" using assms by (simp add: gf_arg_ok_def)
  have 1: "?r (gf_state x 0 0 0 0) (gf_state x 7 0 0 0)" using parent_forks [OF args] by blast
  have 2: "?r (gf_state x 7 0 0 0) (gf_state x 13 0 0 0)"
    using runs_from_to [of 7 6 "gf_run x" 0 "\<lambda>i. gf_state x i 0 0 0"] by (auto simp: parent_redirects)
  have 3: "?r (gf_state x 13 0 0 0) (gf_state x 14 0 0 0)" by (rule step [OF parent_write [OF assms]]) simp
  have 4: "?r (gf_state x 14 0 0 0) (gf_state x 15 0 0 0)" using step [OF parent_close [of 14]] by simp
  have 5: "?r (gf_state x 15 0 0 0) (gf_state x 15 0 8 0)"
    using runs_from_to [of 0 8 "gf_run x" 2 "\<lambda>b. gf_state x 15 0 b 0"] by (auto simp: child2_redirects)
  have 6: "?r (gf_state x 15 0 8 0) (gf_state x 15 0 8 10)"
    using runs_from_to [of 0 10 "gf_run x" 3 "\<lambda>c. gf_state x 15 0 8 c"] by (auto simp: child3_redirects)
  have 7: "?r (gf_state x 15 0 8 10) (gf_state x 15 5 8 10)"
    using runs_from_to [of 0 5 "gf_run x" 1 "\<lambda>a. gf_state x 15 a 8 10"] child1_redirects [of 15 _ "gi_programs x" x 8 10] by auto
  have 8: "?r (gf_state x 15 5 8 10) (gf_state x 15 6 8 10)"
    using child1_reads [OF assms, of 15 8 10] by (intro step [of 1]) simp
  have 9: "?r (gf_state x 15 6 8 10) (gf_state x 15 9 8 10)"
    using runs_from_to [of 6 3 "gf_run x" 1 "\<lambda>a. gf_state x 15 a 8 10"] child1_rest [OF assms, of 15 _ 8 10] by auto
  have 10: "?r (gf_state x 15 9 8 10) (gf_state x 15 9 10 10)"
    by (rule trans [of _ "gf_state x 15 9 9 10"]; rule step [of 2]) (simp_all add: child2_rest)
  have 11: "?r (gf_state x 15 9 10 10) (gf_state x 15 9 10 12)"
    by (rule trans [of _ "gf_state x 15 9 10 11"]; rule step [of 3]) (simp_all add: child3_rest)
  have 12: "?r (gf_state x 15 9 10 12) (gf_state x 16 9 10 12)" using step [OF parent_wait [of 9 10 12 x, simplified]] by simp
  show ?thesis unfolding gf_start
    using trans [OF 1 trans [OF 2 trans [OF 3 trans [OF 4 trans [OF 5 trans [OF 6 trans [OF 7 trans [OF 8 trans [OF 9
      trans [OF 10 trans [OF 11 12]]]]]]]]]]] .
qed

lemma output_overflows:
  assumes "gf_arg_ok x" "BUFFER_SIZE \<le> length (avg_out x)"
  shows "\<exists>n k. runs (gf_run x) n (gf_boot (gi_junk x) (gi_args x)) k \<and> kstep (gf_run x) 0 k = err Out_Of_Bounds"
proof -
  let ?k = "gf_state x 16 9 10 12" and ?l = "gf_loc x 4 (over (gi_junk x) (gi_arg x)) GF_Read"
  let ?k1 = "set_proc 0 ((parent_at x 16)\<lparr>pr_status := Runs (gf_goto (GF_Fail Out_Of_Bounds) ?l)\<rparr>)
    (?k\<lparr>k_pipes := (k_pipes ?k)[3 := drop 256 (avg_out x)]\<rparr>)"
  have st: "kstep (gf_run x) 0 ?k = do_call (gf_run x) 0 (Read 9 256 (gf_store ?l GF_Close_Read)) ?k"
    by (simp add: step_runs gf_procs n_procs_def parent_at_def gf_machine_def gf_code_def gf_loc_def BUFFER_SIZE_def)
  have p: "k_procs ?k ! 0 = parent_at x 16" by (simp add: gf_procs)
  have fd: "map_of (pr_fds (parent_at x 16)) 9 = Some (Read_End 3)" by (simp add: parent_at_def tables)
  have pipe: "k_pipes ?k ! 3 = avg_out x" by (simp add: gf_pipes)
  have b: "length (buffer ?l) = 256" "avg_out x \<noteq> []" "256 \<le> length (avg_out x)"
    using assms by (auto simp: gf_loc_def gf_arg_ok_def BUFFER_SIZE_def)
  have f: "gf_store ?l GF_Close_Read (Some (take 256 (avg_out x))) = gf_goto (GF_Fail Out_Of_Bounds) ?l"
    using b(1,3) by (simp add: gf_store_def store_read_def err_def)
  have "kstep (gf_run x) 0 ?k = ok ?k1"
    unfolding st using f b(2) by (simp add: do_call_def p k_read_def fd pipe)
  moreover have "kstep (gf_run x) 0 ?k1 = err Out_Of_Bounds"
    by (simp add: step_runs set_proc_def gf_procs n_procs_def gf_machine_def gf_code_def gf_goto_def do_call_def)
  moreover obtain n where "runs (gf_run x) n (gf_boot (gi_junk x) (gi_args x)) ?k" using gf_reaches_read [OF assms(1)] by blast
  ultimately show ?thesis using runs_trans runs_kstep [of _ 0 ?k ?k1 0] runs_0 by blast
qed

text \<open>
  A third program that cannot be executed: the third child goes on as if it were the parent, with
  the descriptors it has closed, and the read that fails makes it write before the buffer.
\<close>

lemma child_falls_through:
  assumes "gf_arg_ok x" "P ''./calc_avg'' = None"
  shows "\<exists>n k. runs (gf_machine P) n (gf_boot (gi_junk x) (gi_args x)) k \<and> kstep (gf_machine P) 3 k = err Out_Of_Bounds"
proof -
  let ?m = "gf_machine P" and ?r = "\<lambda>k k'. \<exists>n. runs (gf_machine P) n k k'"
  have trans: "?r k1 k3" if "?r k1 k2" "?r k2 k3" for k1 k2 k3 using that runs_trans by blast
  have step: "?r k k'" if "kstep ?m j k = ok k'" for j k k' using runs_kstep [OF that, of 0 k'] runs_0 by blast
  let ?k = "gf_state x 7 0 0 10"
  let ?l = "\<lambda>pc. gf_loc x 4 (gi_junk x) pc" and ?l1 = "\<lambda>pc. gf_loc x 4 (over (gi_junk x) (gi_arg x)) pc"
  let ?p = "\<lambda>fds l. \<lparr>pr_status = Runs l, pr_fds = fds, pr_parent = Some 0\<rparr>"
  let ?fds = "fold fd_redirect (redirects 0) (child3_table 10)"
  have args: "2 \<le> length (gi_args x)" "gi_args x ! Suc 0 = gi_arg x" "length (gi_arg x) < length (gi_junk x)"
    using assms(1) by (simp_all add: gf_arg_ok_def gi_arg_def)
  have 1: "?r (gf_state x 0 0 0 0) (gf_state x 7 0 0 0)" using parent_forks [OF args(1)] by blast
  have 2: "?r (gf_state x 7 0 0 0) ?k"
    using runs_from_to [of 0 10 ?m 3 "\<lambda>c. gf_state x 7 0 0 c"] by (auto simp: child3_redirects)
  define s where "s p = set_proc 3 p ?k" for p
  have sp: "3 < length (k_procs (s p))" "k_procs (s p) ! 3 = p" "set_proc 3 q (s p) = s q" for p q
    by (simp_all add: s_def set_proc_def gf_procs n_procs_def)
  have 3: "?r ?k (s (?p (child3_table 10) (?l GF_Message3)))"
    by (rule step [of 3]) (use assms(2) in \<open>simp add: s_def step_runs gf_procs n_procs_def child3_at_def redirects_def gf_machine_def
        gf_code_def gf_loc_def gf_goto_def do_call_def\<close>)
  have fds: "map_of (child3_table 10) (Suc 0) = Some (Write_End 3)" "map_of ?fds 4 = None" "fd_close 4 ?fds = ?fds" "map_of ?fds 9 = None"
    by code_simp+
  let ?msg = "''Child: error executing the gen_numbers coprocess. \<newline>''"
  define t where "t p = set_proc 3 p (?k\<lparr>k_pipes := (k_pipes ?k)[3 := ?msg]\<rparr>)" for p
  have tp: "3 < length (k_procs (t p))" "k_procs (t p) ! 3 = p" "set_proc 3 q (t p) = t q" for p q
    by (simp_all add: t_def set_proc_def gf_procs n_procs_def)
  have reader: "has_end (s p) (Read_End 3)" for p
  proof -
    have "parent_at x 7 \<in> set (k_procs (s p))" by (simp add: s_def set_proc_def gf_state_def n_procs_def)
    moreover have "Read_End 3 \<in> snd ` set (pr_fds (parent_at x 7))"
      using parent_ends(7) [of 7] by (simp add: open_ends_def parent_at_def)
    ultimately show ?thesis unfolding has_end_def by blast
  qed
  have pf: "parent_fds (gf_loc x 4 buf pc) = redirects 0" for buf pc by (simp add: parent_fds_def gf_loc_def redirects_def)
  have "kstep ?m 3 (s (?p (child3_table 10) (?l GF_Message3))) =
      ok (k_write 3 1 ?msg (Runs (?l (GF_Close (redirects 0)))) (s (?p (child3_table 10) (?l GF_Message3))))"
    using sp pf [of "gi_junk x" GF_Message3]
    by (simp add: step_runs gf_machine_def gf_code_def do_call_def) (simp add: gf_loc_def gf_goto_def)
  also have "\<dots> = ok (t (?p (child3_table 10) (?l (GF_Close (redirects 0)))))"
    using write_pipe [OF sp(2), of "?p (child3_table 10) (?l GF_Message3)" 1 3] fds(1) reader
    by (simp add: sp) (simp add: s_def t_def set_proc_def gf_pipes)
  finally have 4: "?r (s (?p (child3_table 10) (?l GF_Message3))) (t (?p (child3_table 10) (?l (GF_Close (redirects 0)))))"
    by (rule step)
  have 5: "?r (t (?p (child3_table 10) (?l (GF_Close (redirects 0))))) (t (?p ?fds (?l (GF_Close []))))"
    using redirects_run [OF tp(1,2), of "?p (child3_table 10) (?l (GF_Close (redirects 0)))" "\<lambda>rs. ?l (GF_Close rs)" "redirects 0" ?m]
    by (auto simp: code_redirect tp(3))
  have "gf_code (?l (GF_Close [])) = Write 4 (gi_arg x) (?l1 GF_Close_Write)"
    using args by (simp add: gf_code_def gf_loc_def over_def)
  then have 6: "?r (t (?p ?fds (?l (GF_Close [])))) (t (?p ?fds (?l1 GF_Close_Write)))"
    using tp fds(2) by (intro step [of 3]) (simp add: step_runs gf_machine_def do_call_def k_write_def Let_def)
  have 7: "?r (t (?p ?fds (?l1 GF_Close_Write))) (t (?p ?fds (?l1 GF_Wait)))"
    using tp fds(3) by (intro step [of 3]) (simp add: step_runs gf_machine_def do_call_def gf_code_def gf_loc_def gf_goto_def)
  have "\<not> has_child (t p) 3" if "pr_parent p = Some 0" for p
    using that by (simp add: has_child_def t_def set_proc_def gf_state_def n_procs_def at_defs)
  then have 8: "?r (t (?p ?fds (?l1 GF_Wait))) (t (?p ?fds (?l1 GF_Read)))"
    using tp by (intro step [of 3]) (simp add: step_runs gf_machine_def do_call_def gf_code_def gf_loc_def gf_goto_def)
  have 9: "?r (t (?p ?fds (?l1 GF_Read))) (t (?p ?fds (?l1 (GF_Fail Out_Of_Bounds))))"
    using tp fds(4) by (intro step [of 3])
      (simp add: step_runs gf_machine_def do_call_def gf_code_def gf_loc_def gf_goto_def k_read_def gf_store_def store_read_def err_def)
  have 10: "kstep ?m 3 (t (?p ?fds (?l1 (GF_Fail Out_Of_Bounds)))) = err Out_Of_Bounds"
    using tp by (simp add: step_runs gf_machine_def do_call_def gf_code_def gf_loc_def)
  show ?thesis unfolding gf_start
    using trans [OF 1 trans [OF 2 trans [OF 3 trans [OF 4 trans [OF 5 trans [OF 6 trans [OF 7 trans [OF 8 9]]]]]]]] 10 by blast
qed

text \<open>
  C37: three ways to write outside the buffer: an argument of 256 characters or more, in the parent;
  an output of the last program of 256 bytes or more, whose terminator the parent writes behind the
  buffer; and a last program that cannot be executed, where the child that should have become it
  goes on with the parent's code and writes before its buffer.
\<close>

theorem gen_filter_writes_outside:
  assumes "length (gi_junk x) = 256" "2 \<le> length (gi_args x)" "NUL \<notin> set (gi_args x ! 1)"
  shows "(256 \<le> length (gi_args x ! 1) \<longrightarrow>
      (\<exists>n k. runs (gf_machine P) n (gf_boot (gi_junk x) (gi_args x)) k \<and> kstep (gf_machine P) 0 k = err Out_Of_Bounds)) \<and>
    (length (gi_args x ! 1) < 256 \<longrightarrow> 256 \<le> length (avg_out x) \<longrightarrow>
      (\<exists>n k. runs (gf_machine (gi_programs x)) n (gf_boot (gi_junk x) (gi_args x)) k \<and>
        kstep (gf_machine (gi_programs x)) 0 k = err Out_Of_Bounds)) \<and>
    (length (gi_args x ! 1) < 256 \<longrightarrow> P ''./calc_avg'' = None \<longrightarrow>
      (\<exists>n k. runs (gf_machine P) n (gf_boot (gi_junk x) (gi_args x)) k \<and> kstep (gf_machine P) 3 k = err Out_Of_Bounds))"
proof -
  have ok: "gf_arg_ok x" if "length (gi_args x ! 1) < 256"
    using that assms by (simp add: gf_arg_ok_def gi_arg_def BUFFER_SIZE_def)
  show ?thesis
    using argument_overflows [of x P] output_overflows [OF ok] child_falls_through [OF ok, of P] assms
    by (simp add: gi_arg_def BUFFER_SIZE_def)
qed

section \<open>Examples\<close>

definition demo_gf :: "string \<Rightarrow> nat \<Rightarrow> gf_input" where
  "demo_gf arg n = \<lparr>gi_junk = replicate 256 CHR ''x'', gi_args = [''pipes_gen_filter'', arg], gi_gen = (\<lambda>args. last args),
     gi_filter = (\<lambda>args inp. filter (\<lambda>c. c \<noteq> CHR ''-'') inp), gi_avg = (\<lambda>args inp. replicate n (hd inp))\<rparr>"

lemma demo_gf_simps:
  "gi_junk (demo_gf arg n) = replicate 256 CHR ''x''" "gi_args (demo_gf arg n) = [''pipes_gen_filter'', arg]"
  "avg_out (demo_gf arg n) = replicate n (hd (filter (\<lambda>c. c \<noteq> CHR ''-'') arg))"
  by (simp_all add: demo_gf_def avg_out_def filter_out_def gen_out_def gi_arg_def)


lemma gen_filter_writes_outside_witness:
  "(\<exists>n k. runs (gf_machine (\<lambda>_. None)) n (gf_boot (replicate 256 CHR ''x'') [''pipes_gen_filter'', replicate 256 CHR ''1'']) k \<and>
      kstep (gf_machine (\<lambda>_. None)) 0 k = err Out_Of_Bounds) \<and>
   (\<exists>n k. runs (gf_machine (gi_programs (demo_gf ''7'' 256))) n (gf_boot (replicate 256 CHR ''x'') [''pipes_gen_filter'', ''7'']) k \<and>
      kstep (gf_machine (gi_programs (demo_gf ''7'' 256))) 0 k = err Out_Of_Bounds) \<and>
   (\<exists>n k. runs (gf_machine (\<lambda>_. None)) n (gf_boot (replicate 256 CHR ''x'') [''pipes_gen_filter'', ''7'']) k \<and>
      kstep (gf_machine (\<lambda>_. None)) 3 k = err Out_Of_Bounds)"
  using gen_filter_writes_outside [of "demo_gf (replicate 256 CHR ''1'') 1" "\<lambda>_. None"]
    gen_filter_writes_outside [of "demo_gf ''7'' 256" "\<lambda>_. None"]
  by (simp add: demo_gf_simps)

end
