(* ===== verification/EchoChamber.thy ===== *)
theory EchoChamber
  imports Processes
begin

text \<open>
  \<open>pe_2/echo_chamber.c\<close>: in every turn of its loop the parent reads a text from the keyboard, sends
  it to a child through a pipe, and prints what comes back through a second pipe, the text in upper
  case. The keyboard is a list of the texts typed, one for each turn, each ended by the end of file;
  after the last turn, before the loop tests its flag again, a signal arrives, which one is a
  parameter. (Where the library remembers the end of the
  file, the texts after the first are empty; the theorems hold for those as well.)

  The standard output is a terminal: what is printed appears when its line is complete, and when
  the process exits. An unfinished line is in the memory of the process, so \<open>fork\<close> copies it.
\<close>

section \<open>The code\<close>

definition ECHO_SIZE :: nat where "ECHO_SIZE = 256"

text \<open>\<open>toupper\<close> in the C locale; for a \<open>char\<close> above 127, which is negative, it is undefined.\<close>

definition c_toupper :: "char \<Rightarrow> char res" where
  "c_toupper c =
     (let n = of_char c :: nat in
      if 128 \<le> n then err Out_Of_Bounds
      else ok (if 97 \<le> n \<and> n < 123 then char_of (n - 32) else c))"

text \<open>\<open>get_upper\<close> at index \<open>i\<close>: it stops at the terminator of \<open>inp\<close> and writes none.\<close>

function get_upper :: "char list \<Rightarrow> char list \<Rightarrow> nat \<Rightarrow> char list res" where
  "get_upper inp out i =
     (if length inp \<le> i then err Out_Of_Bounds
      else if inp ! i = NUL then ok out
      else if length out \<le> i then err Out_Of_Bounds
      else rbind (c_toupper (inp ! i)) (\<lambda>c. get_upper inp (out[i := c]) (Suc i)))"
  by pat_completeness auto
termination
  by (relation "measure (\<lambda>(inp, out, i). length inp - i)") auto

text \<open>\<open>get_text\<close>: the characters typed until the end of file, and a terminator.\<close>

definition get_text :: "string \<Rightarrow> char list \<Rightarrow> char list res" where
  "get_text typed buf = (if length typed < length buf then ok (over buf typed) else err Out_Of_Bounds)"

text \<open>The signal that ends the loop: \<open>SIGINT\<close> or \<open>SIGQUIT\<close>.\<close>

datatype ec_signal = Sigint | Sigquit

datatype ec_pc =
    EC_Loop
  | EC_Pipe1
  | EC_No_Pipe
  | EC_Fork
  | EC_No_Fork
  | EC_Text
  | EC_Close1
  | EC_Write
  | EC_Close2
  | EC_Wait
  | EC_Read
  | EC_Close3
  | EC_Print
  | EC_Child
  | EC_Child_Close
  | EC_Child_Read
  | EC_Child_Close2
  | EC_Child_Write
  | EC_Child_Close3
  | EC_Exit int                \<comment> \<open>\<open>exit\<close>, which first writes out the unfinished line\<close>
  | EC_Quit int
  | EC_Fail c_error

record ec =
  ec_pc :: ec_pc
  ec_fd0 :: "nat \<times> nat"
  ec_fd1 :: "nat \<times> nat"
  ec_buffer :: "char list"
  ec_upper :: "char list"
  ec_typed :: "string list"
  ec_pid :: int
  ec_int_flag :: bool
  ec_line :: string           \<comment> \<open>the unfinished line of the standard output\<close>

definition ec_goto :: "ec_pc \<Rightarrow> ec \<Rightarrow> ec" where
  "ec_goto pc l = l\<lparr>ec_pc := pc\<rparr>"

definition ec_store :: "ec \<Rightarrow> ec_pc \<Rightarrow> string option \<Rightarrow> ec" where
  "ec_store l pc r =
     (case store_read (ec_buffer l) r of
        Some (Inr buf) \<Rightarrow> l\<lparr>ec_buffer := buf, ec_pc := pc\<rparr>
      | Some (Inl e) \<Rightarrow> ec_goto (EC_Fail e) l
      | None \<Rightarrow> l)"

text \<open>\<open>printf\<close>: the complete lines are written, the rest is kept.\<close>

definition whole_lines :: "string \<Rightarrow> string" where
  "whole_lines s = rev (dropWhile (\<lambda>c. c \<noteq> CHR 0x0A) (rev s))"

definition open_line :: "string \<Rightarrow> string" where
  "open_line s = rev (takeWhile (\<lambda>c. c \<noteq> CHR 0x0A) (rev s))"

definition ec_printf :: "string \<Rightarrow> ec_pc \<Rightarrow> ec \<Rightarrow> ec call" where
  "ec_printf s pc l = (let t = ec_line l @ s in Print (whole_lines t) (l\<lparr>ec_line := open_line t, ec_pc := pc\<rparr>))"

definition ec_exit :: "int \<Rightarrow> ec \<Rightarrow> ec call" where
  "ec_exit n l = Print (ec_line l) (l\<lparr>ec_line := [], ec_pc := EC_Quit n\<rparr>)"

text \<open>
  The handlers, with \<open>pid\<close> as it is when the signal arrives: no message before the first \<open>fork\<close> and in a
  child. Then the process goes on where it was; a second signal of the kind is ignored.
\<close>

definition ec_int_handler :: "ec \<Rightarrow> ec call" where
  "ec_int_handler l =
     (if ec_pid l \<noteq> 0
      then ec_printf ''\<newline>SIGINT detected, quitting on next iteration... \<newline>'' (ec_pc l) (l\<lparr>ec_int_flag := True\<rparr>)
      else Print [] (l\<lparr>ec_int_flag := True\<rparr>))"

definition ec_quit_handler :: "ec \<Rightarrow> ec call" where
  "ec_quit_handler l =
     (if ec_pid l \<noteq> 0
      then ec_printf ''\<newline>SIGQUIT detected, quitting on next iteration... \<newline>'' (ec_pc l) (l\<lparr>ec_int_flag := True\<rparr>)
      else Print [] (l\<lparr>ec_int_flag := True\<rparr>))"

text \<open>The next call of a process at each place of \<open>main\<close>.\<close>

definition ec_code :: "ec_signal \<Rightarrow> ec \<Rightarrow> ec call" where
  "ec_code g l =
     (case ec_pc l of
        EC_Loop \<Rightarrow>
          if ec_int_flag l then ec_exit 0 l
          else if ec_typed l = [] then (case g of Sigint \<Rightarrow> ec_int_handler l | Sigquit \<Rightarrow> ec_quit_handler l)
          else Pipe (\<lambda>r. case r of None \<Rightarrow> ec_goto EC_No_Pipe l | Some fd \<Rightarrow> l\<lparr>ec_fd0 := fd, ec_pc := EC_Pipe1\<rparr>)
      | EC_Pipe1 \<Rightarrow> Pipe (\<lambda>r. case r of None \<Rightarrow> ec_goto EC_No_Pipe l | Some fd \<Rightarrow> l\<lparr>ec_fd1 := fd, ec_pc := EC_Fork\<rparr>)
      | EC_No_Pipe \<Rightarrow> ec_printf ''Cannot create the pipes. Exiting the program. \<newline>'' (EC_Exit (-1)) l
      | EC_Fork \<Rightarrow> Fork (\<lambda>pid. ec_goto (if pid = -1 then EC_No_Fork else if pid = 0 then EC_Child else EC_Text) (l\<lparr>ec_pid := pid\<rparr>))
      | EC_No_Fork \<Rightarrow> ec_printf ''Error forking child process. \<newline>'' (EC_Exit (-1)) l
      | EC_Child \<Rightarrow> Close (snd (ec_fd0 l)) (ec_goto EC_Child_Close l)
      | EC_Child_Close \<Rightarrow> Close (fst (ec_fd1 l)) (ec_goto EC_Child_Read l)
      | EC_Child_Read \<Rightarrow> Read (fst (ec_fd0 l)) ECHO_SIZE (ec_store l EC_Child_Close2)
      | EC_Child_Close2 \<Rightarrow> Close (snd (ec_fd0 l)) (ec_goto EC_Child_Write l)
      | EC_Child_Write \<Rightarrow>
          res_call (get_upper (ec_buffer l) (ec_upper l) 0) (\<lambda>upper.
          Write (snd (ec_fd1 l)) (take ECHO_SIZE upper) (l\<lparr>ec_upper := upper, ec_pc := EC_Child_Close3\<rparr>))
      | EC_Child_Close3 \<Rightarrow> Close (snd (ec_fd1 l)) (ec_goto (EC_Exit 0) l)
      | EC_Text \<Rightarrow>
          res_call (get_text (hd (ec_typed l)) (ec_buffer l)) (\<lambda>buf.
          Close (fst (ec_fd0 l)) (l\<lparr>ec_buffer := buf, ec_typed := tl (ec_typed l), ec_pc := EC_Close1\<rparr>))
      | EC_Close1 \<Rightarrow> Close (snd (ec_fd1 l)) (ec_goto EC_Write l)
      | EC_Write \<Rightarrow> res_call (cstr (ec_buffer l)) (\<lambda>s. Write (snd (ec_fd0 l)) s (ec_goto EC_Close2 l))
      | EC_Close2 \<Rightarrow> Close (snd (ec_fd0 l)) (ec_goto EC_Wait l)
      | EC_Wait \<Rightarrow> Wait (ec_goto EC_Read l)
      | EC_Read \<Rightarrow> Read (fst (ec_fd1 l)) ECHO_SIZE (ec_store l EC_Close3)
      | EC_Close3 \<Rightarrow> Close (fst (ec_fd1 l)) (ec_goto EC_Print l)
      | EC_Print \<Rightarrow> res_call (cstr (ec_buffer l)) (\<lambda>s. ec_printf s EC_Loop l)
      | EC_Exit n \<Rightarrow> ec_exit n l
      | EC_Quit n \<Rightarrow> Exit n
      | EC_Fail e \<Rightarrow> Fail e)"

text \<open>The system may fail to create a pipe or a process: \<open>pipe_ok\<close>, \<open>fork_ok\<close>.\<close>

definition ec_machine :: "ec_signal \<Rightarrow> (nat \<Rightarrow> bool) \<Rightarrow> (nat \<Rightarrow> bool) \<Rightarrow> ec machine" where
  "ec_machine g pipe_ok fork_ok = \<lparr>m_pipe_ok = pipe_ok, m_fork_ok = fork_ok, m_programs = (\<lambda>_. None), m_code = ec_code g\<rparr>"

definition zeros :: "char list" where
  "zeros = replicate (ECHO_SIZE + 1) NUL"

text \<open>The beginning of \<open>main\<close>: both buffers come from \<open>calloc\<close>, which may fail.\<close>

definition ec_boot :: "bool \<Rightarrow> bool \<Rightarrow> string list \<Rightarrow> ec kernel" where
  "ec_boot buffer_ok upper_ok typed =
     (if buffer_ok \<and> upper_ok
      then boot \<lparr>ec_pc = EC_Loop, ec_fd0 = (0, 0), ec_fd1 = (0, 0), ec_buffer = zeros, ec_upper = zeros, ec_typed = typed,
        ec_pid = 0, ec_int_flag = False, ec_line = []\<rparr>
      else (boot \<lparr>ec_pc = EC_Exit 1, ec_fd0 = (0, 0), ec_fd1 = (0, 0), ec_buffer = [], ec_upper = [], ec_typed = typed,
        ec_pid = 0, ec_int_flag = False, ec_line = []\<rparr>)
        \<lparr>k_out := ''Error: can'' @ [CHR 0x27] @ ''t allocate memory \<newline>''\<rparr>)"

section \<open>Upper case\<close>

definition upper_char :: "char \<Rightarrow> char" where
  "upper_char c = (let n = of_char c :: nat in if 97 \<le> n \<and> n < 123 then char_of (n - 32) else c)"

definition ascii :: "string \<Rightarrow> bool" where
  "ascii s \<longleftrightarrow> (\<forall>c\<in>set s. (of_char c :: nat) < 128 \<and> c \<noteq> NUL)"

lemma c_toupper_ascii: "(of_char c :: nat) < 128 \<Longrightarrow> c_toupper c = ok (upper_char c)"
  by (simp add: c_toupper_def upper_char_def Let_def)

lemma upper_not_nul: "c \<noteq> NUL \<Longrightarrow> upper_char c \<noteq> NUL"
proof
  assume c: "c \<noteq> NUL" "upper_char c = NUL"
  then have "97 \<le> (of_char c :: nat)" "char_of (of_char c - 32 :: nat) = NUL" "(of_char c :: nat) < 123"
    by (auto simp: upper_char_def Let_def split: if_splits)
  then have "(of_char (char_of (of_char c - 32 :: nat)) :: nat) = 0" by simp
  with \<open>97 \<le> (of_char c :: nat)\<close> \<open>(of_char c :: nat) < 123\<close> show False by simp
qed

declare get_upper.simps [simp del]

lemma get_upper_from:
  assumes "ascii s" "length s < length out" "length done_out = length done_in"
  shows "get_upper (done_in @ s @ NUL # r) (done_out @ out) (length done_in) =
    ok (done_out @ map upper_char s @ drop (length s) out)"
  using assms
proof (induction s arbitrary: done_in done_out out)
  case Nil
  then show ?case by (simp add: get_upper.simps)
next
  case (Cons c s)
  have c: "(of_char c :: nat) < 128" "c \<noteq> NUL" "ascii s" using Cons.prems(1) by (simp_all add: ascii_def)
  obtain b out' where out: "out = b # out'" using Cons.prems(2) by (cases out) auto
  have "get_upper (done_in @ (c # s) @ NUL # r) (done_out @ out) (length done_in) =
      get_upper ((done_in @ [c]) @ s @ NUL # r) ((done_out @ [upper_char c]) @ out') (length (done_in @ [c]))"
    using c Cons.prems(3) out
    by (subst get_upper.simps) (simp add: c_toupper_ascii nth_append list_update_append)
  with Cons.IH [of out' "done_out @ [upper_char c]" "done_in @ [c]"] c(3) Cons.prems(2,3) out show ?case by simp
qed

lemma get_upper_text:
  "ascii s \<Longrightarrow> length s < length out \<Longrightarrow> get_upper (over buf s) out 0 = ok (map upper_char s @ drop (length s) out)"
  unfolding over_def using get_upper_from [of s out "[]" "[]" "drop (Suc (length s)) buf"] by simp

lemma ascii_no_nul:
  assumes "ascii s"
  shows "NUL \<notin> set s" "NUL \<notin> set (map upper_char s)"
proof -
  show "NUL \<notin> set s" using assms by (auto simp: ascii_def)
  have "upper_char c \<noteq> NUL" if "c \<in> set s" for c using assms that upper_not_nul [of c] by (auto simp: ascii_def)
  then show "NUL \<notin> set (map upper_char s)" by (metis (no_types) in_set_conv_nth length_map nth_map)
qed

section \<open>Where the parent and the children can be\<close>

text \<open>
  In the turn after \<open>t\<close> others, the parent has made \<open>i\<close> of its 11 steps and the child, once there,
  \<open>j\<close> of its 8. The children of earlier turns have exited.
\<close>

definition echo :: "string \<Rightarrow> string" where
  "echo s = map upper_char s"

text \<open>The unfinished line before turn \<open>t\<close>, and what the terminal has shown before it.\<close>

fun line_at :: "string list \<Rightarrow> nat \<Rightarrow> string" where
  "line_at ts 0 = []"
| "line_at ts (Suc t) = open_line (line_at ts t @ echo (ts ! t))"

fun shown_at :: "string list \<Rightarrow> nat \<Rightarrow> string" where
  "shown_at ts 0 = []"
| "shown_at ts (Suc t) = shown_at ts t @ line_at ts t @ whole_lines (line_at ts t @ echo (ts ! t))"

text \<open>What the child writes, always 256 bytes, and the parent's buffer after a turn.\<close>

definition reply :: "string \<Rightarrow> char list" where
  "reply s = take ECHO_SIZE (echo s @ drop (length s) zeros)"

definition buffer_at :: "string list \<Rightarrow> nat \<Rightarrow> char list" where
  "buffer_at ts t = (if t = 0 then zeros else over zeros (reply (ts ! (t - 1))))"

definition ec_parent_fds :: "nat \<Rightarrow> nat \<Rightarrow> fd_table" where
  "ec_parent_fds q i =
     (if i = 0 \<or> 10 \<le> i then [] else if i = 1 then [(3, Read_End q), (4, Write_End q)]
      else if i < 4 then [(5, Read_End (Suc q)), (6, Write_End (Suc q)), (3, Read_End q), (4, Write_End q)]
      else if i = 4 then [(5, Read_End (Suc q)), (6, Write_End (Suc q)), (4, Write_End q)]
      else if i < 7 then [(5, Read_End (Suc q)), (4, Write_End q)]
      else [(5, Read_End (Suc q))]) @ std_fds"

definition ec_child_fds :: "nat \<Rightarrow> nat \<Rightarrow> fd_table" where
  "ec_child_fds q j =
     (if j = 0 then [(5, Read_End (Suc q)), (6, Write_End (Suc q)), (3, Read_End q), (4, Write_End q)] @ std_fds
      else if j = 1 then [(5, Read_End (Suc q)), (6, Write_End (Suc q)), (3, Read_End q)] @ std_fds
      else if j < 6 then [(6, Write_End (Suc q)), (3, Read_End q)] @ std_fds
      else if j < 8 then [(3, Read_End q)] @ std_fds else [])"

definition ec_loc :: "string \<Rightarrow> int \<Rightarrow> string list \<Rightarrow> nat \<Rightarrow> nat \<Rightarrow> char list \<Rightarrow> char list \<Rightarrow> ec_pc \<Rightarrow> ec" where
  "ec_loc c d ts t n buf upper pc = \<lparr>ec_pc = pc, ec_fd0 = (if t = 0 \<and> n = 0 then (0, 0) else (3, 4)),
     ec_fd1 = (if t = 0 \<and> n < 2 then (0, 0) else (5, 6)), ec_buffer = buf, ec_upper = upper, ec_typed = ts,
     ec_pid = d, ec_int_flag = False, ec_line = c\<rparr>"

definition ec_parent :: "string list \<Rightarrow> nat \<Rightarrow> nat \<Rightarrow> ec process" where
  "ec_parent ts t i =
     \<lparr>pr_status =
        (if i \<le> 3 then Runs (ec_loc (line_at ts t) (if i = 3 then int (Suc t) else int t) (drop t ts) t (min i 2) (buffer_at ts t) zeros ([EC_Loop, EC_Pipe1, EC_Fork, EC_Text] ! i))
         else if i \<le> 8 then Runs (ec_loc (line_at ts t) (int (Suc t)) (drop (Suc t) ts) t 2 (over (buffer_at ts t) (ts ! t)) zeros
           ([EC_Close1, EC_Write, EC_Close2, EC_Wait, EC_Read] ! (i - 4)))
         else Runs (ec_loc (line_at ts t) (int (Suc t)) (drop (Suc t) ts) t 2 (buffer_at ts (Suc t)) zeros ([EC_Close3, EC_Print] ! (i - 9)))),
      pr_fds = ec_parent_fds (2 * t) i, pr_parent = None\<rparr>"

definition ec_child :: "string list \<Rightarrow> nat \<Rightarrow> nat \<Rightarrow> ec process" where
  "ec_child ts t j =
     \<lparr>pr_status =
        (if j \<le> 2 then Runs (ec_loc (line_at ts t) 0 (drop t ts) t 2 (buffer_at ts t) zeros ([EC_Child, EC_Child_Close, EC_Child_Read] ! j))
         else if j \<le> 4 then Runs (ec_loc (line_at ts t) 0 (drop t ts) t 2 (over (buffer_at ts t) (ts ! t)) zeros
           ([EC_Child_Close2, EC_Child_Write] ! (j - 3)))
         else if j \<le> 6 then Runs (ec_loc (line_at ts t) 0 (drop t ts) t 2 (over (buffer_at ts t) (ts ! t))
           (echo (ts ! t) @ drop (length (ts ! t)) zeros) ([EC_Child_Close3, EC_Exit 0] ! (j - 5)))
         else if j = 7 then Runs (ec_loc [] 0 (drop t ts) t 2 (over (buffer_at ts t) (ts ! t))
           (echo (ts ! t) @ drop (length (ts ! t)) zeros) (EC_Quit 0))
         else Exited 0),
      pr_fds = ec_child_fds (2 * t) j, pr_parent = Some 0\<rparr>"

definition gone :: "ec process" where
  "gone = \<lparr>pr_status = Exited 0, pr_fds = [], pr_parent = Some 0\<rparr>"

definition ec_state :: "string list \<Rightarrow> nat \<Rightarrow> nat \<Rightarrow> nat \<Rightarrow> ec kernel" where
  "ec_state ts t i j =
     \<lparr>k_procs = ec_parent ts t i # replicate t gone @ (if 3 \<le> i then [ec_child ts t j] else []),
      k_pipes = replicate (2 * t) [] @
        (if 1 \<le> i then [if 6 \<le> i \<and> j \<le> 2 then ts ! t else []] else []) @
        (if 2 \<le> i then [if 5 \<le> j \<and> i \<le> 8 then reply (ts ! t) else []] else []),
      k_out = shown_at ts t @ (if 7 \<le> j then line_at ts t else [])\<rparr>"

text \<open>The end: the signal has arrived, the loop has been left, and the process has exited.\<close>

definition handler_line :: "ec_signal \<Rightarrow> string" where
  "handler_line g = (case g of Sigint \<Rightarrow> ''\<newline>SIGINT detected, quitting on next iteration... \<newline>''
     | Sigquit \<Rightarrow> ''\<newline>SIGQUIT detected, quitting on next iteration... \<newline>'')"

definition ec_out :: "ec_signal \<Rightarrow> string list \<Rightarrow> string" where
  "ec_out g ts = shown_at ts (length ts) @ (if ts = [] then [] else line_at ts (length ts) @ handler_line g)"

definition ec_closing :: "ec_signal \<Rightarrow> string list \<Rightarrow> nat \<Rightarrow> ec kernel" where
  "ec_closing g ts j =
     \<lparr>k_procs = \<lparr>pr_status = Runs ((ec_loc [] (int (length ts)) [] (length ts) 0 (buffer_at ts (length ts)) zeros
            ([EC_Loop, EC_Quit 0] ! j))\<lparr>ec_int_flag := True\<rparr>),
          pr_fds = std_fds, pr_parent = None\<rparr> # replicate (length ts) gone,
      k_pipes = replicate (2 * length ts) [], k_out = ec_out g ts\<rparr>"

definition ec_final :: "ec_signal \<Rightarrow> string list \<Rightarrow> ec kernel" where
  "ec_final g ts =
     \<lparr>k_procs = \<lparr>pr_status = Exited 0, pr_fds = [], pr_parent = None\<rparr> # replicate (length ts) gone,
      k_pipes = replicate (2 * length ts) [], k_out = ec_out g ts\<rparr>"

definition ec_order :: "string list \<Rightarrow> nat \<Rightarrow> nat \<Rightarrow> nat \<Rightarrow> bool" where
  "ec_order ts t i j \<longleftrightarrow> t \<le> length ts \<and> i \<le> 10 \<and> j \<le> 8 \<and> (i < 3 \<longrightarrow> j = 0) \<and> (3 \<le> j \<longrightarrow> 6 \<le> i) \<and> (8 \<le> i \<longrightarrow> j = 8) \<and>
     (t = length ts \<longrightarrow> i = 0)"

text \<open>The texts: ASCII, of at most 256 characters.\<close>

definition ec_pre :: "string list \<Rightarrow> bool" where
  "ec_pre ts \<longleftrightarrow> (\<forall>s\<in>set ts. ascii s \<and> length s \<le> ECHO_SIZE)"

section \<open>The steps\<close>

abbreviation ec_run :: "ec_signal \<Rightarrow> ec machine" where
  "ec_run g \<equiv> ec_machine g (\<lambda>_. True) (\<lambda>_. True)"

lemma zeros_length [simp]: "length zeros = 257"
  by (simp add: zeros_def ECHO_SIZE_def)

lemma text_facts:
  assumes "ec_pre ts" "t < length ts"
  shows "ascii (ts ! t)" "length (ts ! t) \<le> 256" "NUL \<notin> set (ts ! t)"
  using assms ascii_no_nul [of "ts ! t"] by (auto simp: ec_pre_def ECHO_SIZE_def)

lemma reply_length [simp]: "length (reply s) = 256"
  by (auto simp: reply_def ECHO_SIZE_def echo_def)

lemma over_zeros_length [simp]: "length (over zeros (reply s)) = 257"
  by (simp add: over_def)

lemma buffer_length: "length (buffer_at ts t) = 257"
  by (simp add: buffer_at_def)

text \<open>The buffer after a turn holds the reply, and its text is the echo.\<close>

lemma over_reply: "length buf = 257 \<Longrightarrow> over buf (reply s) = over zeros (reply s)"
  by (simp add: over_def)

lemma reply_text:
  assumes "ascii s" "length s \<le> 256"
  shows "cstr (over buf (reply s)) = ok (echo s)"
proof (cases "length s = 256")
  case True
  then have "reply s = echo s" by (simp add: reply_def ECHO_SIZE_def echo_def)
  with ascii_no_nul [OF assms(1)] show ?thesis by (simp add: echo_def)
next
  case False
  with assms(2) have "length s < 256" by simp
  then obtain n where n: "256 - length s = Suc n" by (cases "256 - length s") auto
  then have "257 - length s = Suc (Suc n)" using \<open>length s < 256\<close> by linarith
  then have "drop (length s) zeros = replicate (Suc (Suc n)) NUL" by (simp add: zeros_def ECHO_SIZE_def)
  then have "reply s = echo s @ NUL # replicate n NUL"
    using n \<open>length s < 256\<close>
    by (simp add: reply_def ECHO_SIZE_def echo_def del: replicate_Suc) simp
  with ascii_no_nul [OF assms(1)] show ?thesis by (simp add: over_def echo_def)
qed

lemma ec_procs:
  "k_procs (ec_state ts t i j) ! 0 = ec_parent ts t i"
  "3 \<le> i \<Longrightarrow> k_procs (ec_state ts t i j) ! Suc t = ec_child ts t j"
  "length (k_procs (ec_state ts t i j)) = (if 3 \<le> i then t + 2 else t + 1)"
  "\<lbrakk>0 < n; n \<le> t\<rbrakk> \<Longrightarrow> k_procs (ec_state ts t i j) ! n = gone"
  by (auto simp: ec_state_def nth_Cons' nth_append)

lemma ec_pipes:
  "2 \<le> i \<Longrightarrow> k_pipes (ec_state ts t i j) ! (2 * t) = (if 6 \<le> i \<and> j \<le> 2 then ts ! t else [])"
  "2 \<le> i \<Longrightarrow> k_pipes (ec_state ts t i j) ! Suc (2 * t) = (if 5 \<le> j \<and> i \<le> 8 then reply (ts ! t) else [])"
  "length (k_pipes (ec_state ts t i j)) = 2 * t + min i 2"
  by (auto simp: ec_state_def nth_append)

lemma ec_has_end:
  "has_end (ec_state ts t i j) e \<longleftrightarrow> e \<in> snd ` set (ec_parent_fds (2 * t) i) \<or> 3 \<le> i \<and> e \<in> snd ` set (ec_child_fds (2 * t) j)"
proof -
  have "pr_fds (ec_parent ts t i) = ec_parent_fds (2 * t) i" "pr_fds (ec_child ts t j) = ec_child_fds (2 * t) j" "pr_fds gone = []"
    by (simp_all add: ec_parent_def ec_child_def gone_def)
  then show ?thesis by (cases "t = 0") (simp_all add: has_end_def ec_state_def bex_Un)
qed

lemma set_ec_parent:
  "3 \<le> i \<Longrightarrow> i < 10 \<Longrightarrow> i \<noteq> 5 \<Longrightarrow> i \<noteq> 8 \<Longrightarrow>
    set_proc 0 (ec_parent ts t (Suc i)) (ec_state ts t i j) = ec_state ts t (Suc i) j"
  by (auto simp: ec_state_def set_proc_def)

lemma set_ec_child:
  "3 \<le> i \<Longrightarrow> j \<noteq> 2 \<Longrightarrow> j \<noteq> 4 \<Longrightarrow> j \<noteq> 6 \<Longrightarrow>
    set_proc (Suc t) (ec_child ts t (Suc j)) (ec_state ts t i j) = ec_state ts t i (Suc j)"
  by (auto simp: ec_state_def set_proc_def list_update_append)

lemma ec_step:
  assumes "n < length (k_procs k)" "k_procs k ! n = p" "pr_status p = Runs l"
  shows "kstep (ec_run g) n k = do_call (ec_run g) n (ec_code g l) k"
  using assms by (simp add: kstep_def ec_machine_def)

lemmas ec_at = ec_code_def ec_loc_def ec_goto_def

lemma echo_pipes:
  assumes "t < length ts" "i = 0 \<or> i = 1"
  shows "kstep (ec_run g) 0 (ec_state ts t i 0) = ok (ec_state ts t (Suc i) 0)"
proof -
  let ?k = "ec_state ts t i 0" and ?q = "2 * t + i"
  have ne: "drop t ts \<noteq> []" using assms(1) by simp
  have fd: "fd_free std_fds = 3" "fd_free ((3, e) # std_fds) = 4" "fd_free ((3, e) # (4, e') # std_fds) = 5"
    "fd_free ((5, e'') # (3, e) # (4, e') # std_fds) = 6" for e e' e''
    by (simp_all add: fd_free_def std_fds_def upt_rec [of 0] upt_rec [of "Suc _"])
  obtain l where l: "pr_status (ec_parent ts t i) = Runs l" using assms(2) by (auto simp: ec_parent_def)
  have new: "set_proc 0 (ec_parent ts t (Suc i)) (?k\<lparr>k_pipes := k_pipes ?k @ [[]]\<rparr>) = ec_state ts t (Suc i) 0"
    using assms(2) by (auto simp: ec_state_def set_proc_def)
  have "kstep (ec_run g) 0 ?k = do_call (ec_run g) 0 (ec_code g l) ?k"
    by (rule ec_step [OF _ ec_procs(1) l]) (simp add: ec_procs)
  also have "\<dots> = ok (set_proc 0 (ec_parent ts t (Suc i)) (?k\<lparr>k_pipes := k_pipes ?k @ [[]]\<rparr>))"
    using assms(2) l ne fd by (auto simp: ec_parent_def ec_at do_call_def ec_machine_def ec_parent_fds_def ec_pipes ec_procs Let_def)
  finally show ?thesis unfolding new .
qed

lemma echo_fork: "kstep (ec_run g) 0 (ec_state ts t 2 0) = ok (ec_state ts t 3 0)"
proof -
  let ?k = "ec_state ts t 2 0"
  have pid: "int (length (k_procs ?k)) = int (Suc t)" by (simp add: ec_procs)
  have c: "(ec_parent ts t 2)\<lparr>pr_status := Runs (ec_loc (line_at ts t) 0 (drop t ts) t 2 (buffer_at ts t) zeros EC_Child), pr_parent := Some 0\<rparr> =
      ec_child ts t 0"
    and p: "(ec_parent ts t 2)\<lparr>pr_status := Runs (ec_loc (line_at ts t) (int (Suc t)) (drop t ts) t 2 (buffer_at ts t) zeros EC_Text)\<rparr> = ec_parent ts t 3"
    by (simp_all add: ec_parent_def ec_child_def ec_parent_fds_def ec_child_fds_def)
  have new: "?k\<lparr>k_procs := (k_procs ?k)[0 := ec_parent ts t 3] @ [ec_child ts t 0]\<rparr> = ec_state ts t 3 0"
    by (simp add: ec_state_def)
  have l: "pr_status (ec_parent ts t 2) = Runs (ec_loc (line_at ts t) (int t) (drop t ts) t 2 (buffer_at ts t) zeros EC_Fork)" by (simp add: ec_parent_def)
  have code: "ec_code g (ec_loc c d xs t 2 buf up EC_Fork) =
      Fork (\<lambda>pid. ec_loc c pid xs t 2 buf up (if pid = -1 then EC_No_Fork else if pid = 0 then EC_Child else EC_Text))" for c d xs buf up
    by (auto simp: ec_at)
  have "kstep (ec_run g) 0 ?k = do_call (ec_run g) 0 (ec_code g (ec_loc (line_at ts t) (int t) (drop t ts) t 2 (buffer_at ts t) zeros EC_Fork)) ?k"
    by (rule ec_step [OF _ ec_procs(1) l]) (simp add: ec_procs)
  also have "\<dots> = ok (ec_state ts t 3 0)"
    unfolding code using pid c p new by (simp add: do_call_def ec_machine_def ec_procs(1))
  finally show ?thesis .
qed

lemma echo_text:
  assumes "ec_pre ts" "t < length ts"
  shows "kstep (ec_run g) 0 (ec_state ts t 3 j) = ok (ec_state ts t 4 j)"
proof -
  have h: "hd (drop t ts) = ts ! t" "tl (drop t ts) = drop (Suc t) ts" using assms(2) by (simp_all add: hd_drop_conv_nth drop_Suc tl_drop)
  have g: "get_text (ts ! t) (buffer_at ts t) = ok (over (buffer_at ts t) (ts ! t))"
    using text_facts(2) [OF assms] by (simp add: get_text_def buffer_length)
  have "kstep (ec_run g) 0 (ec_state ts t 3 j) = ok (set_proc 0 (ec_parent ts t 4) (ec_state ts t 3 j))"
    using g h by (simp add: ec_step [OF _ ec_procs(1)] ec_procs ec_parent_def ec_at do_call_def Let_def ec_parent_fds_def fd_close_def std_fds_def)
  then show ?thesis using set_ec_parent [of 3 ts t j] by simp
qed

lemma echo_closes:
  assumes "i = 4 \<or> i = 6 \<or> i = 9"
  shows "kstep (ec_run g) 0 (ec_state ts t i j) = ok (ec_state ts t (Suc i) j)"
proof -
  have "kstep (ec_run g) 0 (ec_state ts t i j) = ok (set_proc 0 (ec_parent ts t (Suc i)) (ec_state ts t i j))"
    using assms by (elim disjE)
      (simp_all add: ec_step [OF _ ec_procs(1)] ec_procs ec_parent_def ec_at do_call_def Let_def ec_parent_fds_def fd_close_def std_fds_def)
  then show ?thesis using set_ec_parent [of i ts t j] assms by auto
qed

lemma echo_write:
  assumes "ec_pre ts" "t < length ts" "j \<le> 2"
  shows "kstep (ec_run g) 0 (ec_state ts t 5 j) = ok (ec_state ts t 6 j)"
proof -
  let ?k = "ec_state ts t 5 j"
  have r: "has_end ?k (Read_End (2 * t))" using assms(3) by (auto simp: ec_has_end ec_child_fds_def)
  have "kstep (ec_run g) 0 ?k = ok (k_write 0 4 (ts ! t) (pr_status (ec_parent ts t 6)) ?k)"
    using text_facts(3) [OF assms(1,2)]
    by (simp add: ec_step [OF _ ec_procs(1)] ec_procs ec_parent_def ec_at do_call_def Let_def)
  also have "\<dots> = ok (set_proc 0 (ec_parent ts t 6) (?k\<lparr>k_pipes := (k_pipes ?k)[2 * t := ts ! t]\<rparr>))"
    using write_pipe [OF ec_procs(1), of ts t 5 4 "2 * t" j] r
    by (simp add: ec_pipes) (simp add: ec_parent_def ec_parent_fds_def std_fds_def)
  also have "set_proc 0 (ec_parent ts t 6) (?k\<lparr>k_pipes := (k_pipes ?k)[2 * t := ts ! t]\<rparr>) = ec_state ts t 6 j"
    using assms(3) by (simp add: ec_state_def set_proc_def list_update_append)
  finally show ?thesis .
qed

lemma echo_wait:
  assumes "j \<le> 8"
  shows "kstep (ec_run g) 0 (ec_state ts t 7 j) = (if j = 8 then ok (ec_state ts t 8 j) else None)"
proof -
  have "(case pr_status (ec_child ts t j) of Exited _ \<Rightarrow> False | _ \<Rightarrow> True) \<longleftrightarrow> j \<noteq> 8"
    using assms by (auto simp: ec_child_def)
  then have c: "has_child (ec_state ts t 7 j) 0 \<longleftrightarrow> j \<noteq> 8"
    by (cases "t = 0") (simp_all add: has_child_def ec_state_def bex_Un gone_def ec_parent_def, auto simp: ec_child_def)
  show ?thesis
    using set_ec_parent [of 7 ts t j] c
    by (auto simp: ec_step [OF _ ec_procs(1)] ec_procs ec_parent_def ec_at do_call_def Let_def ec_parent_fds_def)
qed

lemma text_buffer_length: "ec_pre ts \<Longrightarrow> t < length ts \<Longrightarrow> length (over (buffer_at ts t) (ts ! t)) = 257"
  using text_facts(2) [of ts t] by (simp add: buffer_length)

lemma echo_read:
  assumes "ec_pre ts" "t < length ts"
  shows "kstep (ec_run g) 0 (ec_state ts t 8 8) = ok (ec_state ts t 9 8)"
proof -
  let ?k = "ec_state ts t 8 8" and ?l = "ec_loc (line_at ts t) (int (Suc t)) (drop (Suc t) ts) t 2 (over (buffer_at ts t) (ts ! t)) zeros EC_Read"
  have ne: "reply (ts ! t) \<noteq> []" using reply_length [of "ts ! t"] by (metis length_0_conv zero_neq_numeral)
  have p: "k_procs ?k ! 0 = ec_parent ts t 8" by (simp add: ec_procs)
  have st: "kstep (ec_run g) 0 ?k = do_call (ec_run g) 0 (Read 5 256 (ec_store ?l EC_Close3)) ?k"
    by (simp add: ec_step [OF _ ec_procs(1)] ec_procs ec_parent_def ec_at ECHO_SIZE_def)
  have pipe: "k_pipes ?k ! Suc (2 * t) = reply (ts ! t)" by (simp add: ec_pipes)
  have fd: "map_of (pr_fds (ec_parent ts t 8)) 5 = Some (Read_End (Suc (2 * t)))"
    by (simp add: ec_parent_def ec_parent_fds_def)
  note buf = text_buffer_length [OF assms]
  have "ec_store ?l EC_Close3 (Some (reply (ts ! t))) = ec_loc (line_at ts t) (int (Suc t)) (drop (Suc t) ts) t 2 (buffer_at ts (Suc t)) zeros EC_Close3"
    using buf over_reply [OF buf, of "ts ! t"] by (simp add: ec_store_def store_read_def ec_loc_def buffer_at_def ok_def)
  then have fin: "(ec_parent ts t 8)\<lparr>pr_status := Runs (ec_store ?l EC_Close3 (Some (reply (ts ! t))))\<rparr> = ec_parent ts t 9"
    by (simp add: ec_parent_def ec_parent_fds_def)
  have new: "set_proc 0 (ec_parent ts t 9) (?k\<lparr>k_pipes := (k_pipes ?k)[Suc (2 * t) := []]\<rparr>) = ec_state ts t 9 8"
    by (simp add: ec_state_def set_proc_def list_update_append)
  show ?thesis unfolding st using ne fin new by (simp add: do_call_def p k_read_def fd pipe)
qed

lemma replicate_two: "replicate n a @ [a, a] = a # a # replicate n a"
  by (induction n) auto

lemma echo_print:
  assumes "ec_pre ts" "t < length ts"
  shows "kstep (ec_run g) 0 (ec_state ts t 10 8) = ok (ec_state ts (Suc t) 0 0)"
proof -
  let ?k = "ec_state ts t 10 8" and ?l = "ec_loc (line_at ts (Suc t)) (int (Suc t)) (drop (Suc t) ts) t 2 (buffer_at ts (Suc t)) zeros EC_Loop"
  let ?w = "whole_lines (line_at ts t @ echo (ts ! t))"
  have s: "cstr (buffer_at ts (Suc t)) = ok (echo (ts ! t))"
    using reply_text [OF text_facts(1,2) [OF assms], of zeros] by (simp add: buffer_at_def)
  have "kstep (ec_run g) 0 ?k = ok (k_write 0 1 ?w (Runs ?l) ?k)"
    using s by (simp add: ec_step [OF _ ec_procs(1)] ec_procs ec_parent_def ec_at ec_printf_def Let_def do_call_def)
  also have "\<dots> = ok (set_proc 0 (ec_parent ts (Suc t) 0) (?k\<lparr>k_out := k_out ?k @ ?w\<rparr>))"
    using write_terminal [OF ec_procs(1), of ts t 10 1 _ _ 8]
    by (simp add: ec_parent_def ec_parent_fds_def std_fds_def ec_loc_def)
  also have "set_proc 0 (ec_parent ts (Suc t) 0) (?k\<lparr>k_out := k_out ?k @ ?w\<rparr>) = ec_state ts (Suc t) 0 0"
  proof -
    have g: "ec_child ts t 8 = gone" by (simp add: ec_child_def gone_def ec_child_fds_def)
    have "replicate (2 * t) [] @ [[], []] = [] # [] # replicate (2 * t) []"
      by (rule replicate_two)
    then show ?thesis using assms(2) g
      by (simp add: ec_state_def set_proc_def replicate_append_same)
  qed
  finally show ?thesis .
qed

lemma no_line: "CHR 0x0A \<notin> set s \<Longrightarrow> whole_lines s = [] \<and> open_line s = s"
proof -
  assume "CHR 0x0A \<notin> set s"
  then have c: "\<And>c. c \<in> set (rev s) \<Longrightarrow> c \<noteq> CHR 0x0A" by auto
  have t: "takeWhile (\<lambda>c. c \<noteq> CHR 0x0A) (rev s) = rev s" by (subst takeWhile_eq_all_conv) (use c in blast)
  have d: "dropWhile (\<lambda>c. c \<noteq> CHR 0x0A) (rev s) = []" by (subst dropWhile_eq_Nil_conv) (use c in blast)
  show ?thesis unfolding whole_lines_def open_line_def t d by simp
qed

lemma complete_line: "s \<noteq> [] \<Longrightarrow> last s = CHR 0x0A \<Longrightarrow> whole_lines s = s \<and> open_line s = []"
  by (cases s rule: rev_cases) (simp_all add: whole_lines_def open_line_def)

text \<open>What a handler does at the loop: its line completes the unfinished one.\<close>

lemma handler_call:
  assumes "ec_pc l = EC_Loop" "\<not> ec_int_flag l" "ec_typed l = []"
  shows "ec_code g l = (if ec_pid l \<noteq> 0 then Print (ec_line l @ handler_line g) (l\<lparr>ec_int_flag := True, ec_line := []\<rparr>)
    else Print [] (l\<lparr>ec_int_flag := True\<rparr>))"
proof -
  have m: "handler_line g \<noteq> []" "last (handler_line g) = CHR 0x0A" by (cases g; simp add: handler_line_def)+
  have w: "whole_lines (ec_line l @ handler_line g) = ec_line l @ handler_line g" "open_line (ec_line l @ handler_line g) = []"
    using complete_line [of "ec_line l @ handler_line g"] m by simp_all
  have "ec_code g l = (if ec_pid l \<noteq> 0 then ec_printf (handler_line g) (ec_pc l) (l\<lparr>ec_int_flag := True\<rparr>)
      else Print [] (l\<lparr>ec_int_flag := True\<rparr>))"
    using assms by (cases g) (simp_all add: ec_code_def ec_int_handler_def ec_quit_handler_def handler_line_def)
  then show ?thesis using w by (simp add: ec_printf_def)
qed

lemma echo_signal: "kstep (ec_run g) 0 (ec_state ts (length ts) 0 0) = ok (ec_closing g ts 0)"
proof -
  let ?k = "ec_state ts (length ts) 0 0" and ?p = "ec_parent ts (length ts) 0"
  let ?l = "ec_loc (line_at ts (length ts)) (int (length ts)) [] (length ts) 0 (buffer_at ts (length ts)) zeros EC_Loop"
  let ?l' = "(ec_loc [] (int (length ts)) [] (length ts) 0 (buffer_at ts (length ts)) zeros EC_Loop)\<lparr>ec_int_flag := True\<rparr>"
  let ?s = "if ts = [] then [] else line_at ts (length ts) @ handler_line g"
  have l: "pr_status ?p = Runs ?l" by (simp add: ec_parent_def)
  have "ec_code g ?l = Print ?s ?l'"
    by (subst handler_call) (simp_all add: ec_loc_def)
  then have "kstep (ec_run g) 0 ?k = ok (k_write 0 1 ?s (Runs ?l') ?k)"
    using ec_step [OF _ ec_procs(1) l] by (simp add: ec_procs do_call_def)
  also have "\<dots> = ok (set_proc 0 (?p\<lparr>pr_status := Runs ?l'\<rparr>) (?k\<lparr>k_out := k_out ?k @ ?s\<rparr>))"
    using write_terminal [OF ec_procs(1), of ts "length ts" 0 1 _ _ 0]
    by (simp add: ec_parent_def ec_parent_fds_def std_fds_def)
  also have "\<dots> = ok (ec_closing g ts 0)"
    by (simp add: ec_state_def ec_closing_def ec_out_def set_proc_def ec_parent_def ec_parent_fds_def)
  finally show ?thesis .
qed

lemma echo_ends: "kstep (ec_run g) 0 (ec_closing g ts 0) = ok (ec_closing g ts 1)"
proof -
  have "kstep (ec_run g) 0 (ec_closing g ts 0) =
      ok (k_write 0 1 [] (pr_status (k_procs (ec_closing g ts 1) ! 0)) (ec_closing g ts 0))"
    by (simp add: kstep_def ec_closing_def ec_machine_def ec_code_def ec_loc_def ec_exit_def do_call_def)
  then show ?thesis
    by (simp add: k_write_def ec_closing_def set_proc_def std_fds_def)
qed

lemma echo_quits: "kstep (ec_run g) 0 (ec_closing g ts 1) = ok (ec_final g ts)"
  by (simp add: kstep_def ec_closing_def ec_final_def ec_machine_def ec_code_def ec_loc_def do_call_def proc_exit_def set_proc_def)

section \<open>The steps of the child\<close>

lemma child_closes:
  assumes "3 \<le> i" "j = 0 \<or> j = 1 \<or> j = 3 \<or> j = 5"
  shows "kstep (ec_run g) (Suc t) (ec_state ts t i j) = ok (ec_state ts t i (Suc j))"
proof -
  have "kstep (ec_run g) (Suc t) (ec_state ts t i j) = ok (set_proc (Suc t) (ec_child ts t (Suc j)) (ec_state ts t i j))"
    using assms by (elim disjE)
      (simp_all add: ec_step [OF _ ec_procs(2)] ec_procs ec_child_def ec_at do_call_def Let_def ec_child_fds_def fd_close_def std_fds_def)
  then show ?thesis using set_ec_child [of i j t ts] assms by auto
qed

lemma child_reads:
  assumes "ec_pre ts" "t < length ts" "3 \<le> i" "i \<le> 10"
  shows "kstep (ec_run g) (Suc t) (ec_state ts t i 2) =
    (if i < 6 \<or> ts ! t = [] \<and> i = 6 then None else ok (ec_state ts t i 3))"
proof -
  let ?k = "ec_state ts t i 2" and ?l = "ec_loc (line_at ts t) 0 (drop t ts) t 2 (buffer_at ts t) zeros EC_Child_Read"
  have st: "kstep (ec_run g) (Suc t) ?k = do_call (ec_run g) (Suc t) (Read 3 256 (ec_store ?l EC_Child_Close2)) ?k"
    using assms(3) by (simp add: ec_step [OF _ ec_procs(2)] ec_procs ec_child_def ec_at ECHO_SIZE_def)
  have p: "k_procs ?k ! Suc t = ec_child ts t 2" using assms(3) by (simp add: ec_procs)
  have fd: "map_of (pr_fds (ec_child ts t 2)) 3 = Some (Read_End (2 * t))" by (simp add: ec_child_def ec_child_fds_def)
  have pipe: "k_pipes ?k ! (2 * t) = (if 6 \<le> i then ts ! t else [])" using assms(3) by (simp add: ec_pipes)
  have "ec_store ?l EC_Child_Close2 (Some (ts ! t)) =
      ec_loc (line_at ts t) 0 (drop t ts) t 2 (over (buffer_at ts t) (ts ! t)) zeros EC_Child_Close2"
    using text_facts(2) [OF assms(1,2)] by (simp add: ec_store_def store_read_def ec_loc_def buffer_length ok_def)
  then have fin: "(ec_child ts t 2)\<lparr>pr_status := Runs (ec_store ?l EC_Child_Close2 (Some (ts ! t)))\<rparr> = ec_child ts t 3"
    by (simp add: ec_child_def ec_child_fds_def)
  have new: "set_proc (Suc t) (ec_child ts t 3) (?k\<lparr>k_pipes := (k_pipes ?k)[2 * t := []]\<rparr>) = ec_state ts t i 3"
    using assms(3) by (auto simp: ec_state_def set_proc_def list_update_append)
  have same: "?k\<lparr>k_pipes := (k_pipes ?k)[2 * t := []]\<rparr> = ?k" if "k_pipes ?k ! (2 * t) = []"
  proof -
    have "(k_pipes ?k)[2 * t := []] = k_pipes ?k" using that by (metis list_update_id)
    then show ?thesis by simp
  qed
  have w: "has_end ?k (Write_End (2 * t)) \<longleftrightarrow> i < 7"
    using assms(3) by (auto simp: ec_has_end ec_child_fds_def ec_parent_fds_def std_fds_def)
  have take: "take 256 (ts ! t) = ts ! t" "drop 256 (ts ! t) = []" using text_facts(2) [OF assms(1,2)] by simp_all
  consider "i < 6" | "6 \<le> i" "ts ! t = []" | "6 \<le> i" "ts ! t \<noteq> []" by linarith
  then show ?thesis
  proof cases
    case 1
    with w show ?thesis unfolding st by (simp add: do_call_def p k_read_def fd pipe)
  next
    case 2
    with w fin new same pipe show ?thesis unfolding st by (auto simp: do_call_def p k_read_def fd)
  next
    case 3
    with fin new show ?thesis unfolding st by (simp add: do_call_def p k_read_def fd pipe take)
  qed
qed

lemma child_writes:
  assumes "ec_pre ts" "t < length ts" "3 \<le> i" "i \<le> 8"
  shows "kstep (ec_run g) (Suc t) (ec_state ts t i 4) = ok (ec_state ts t i 5)"
proof -
  let ?k = "ec_state ts t i 4" and ?up = "echo (ts ! t) @ drop (length (ts ! t)) zeros"
  have up: "get_upper (over (buffer_at ts t) (ts ! t)) zeros 0 = ok ?up"
    using get_upper_text [OF text_facts(1) [OF assms(1,2)], of zeros "buffer_at ts t"] text_facts(2) [OF assms(1,2)]
    by (simp add: echo_def)
  have r: "has_end ?k (Read_End (Suc (2 * t)))" using assms(3,4) by (auto simp: ec_has_end ec_parent_fds_def)
  have "kstep (ec_run g) (Suc t) ?k = ok (k_write (Suc t) 6 (reply (ts ! t)) (pr_status (ec_child ts t 5)) ?k)"
    using up assms(3) by (simp add: ec_step [OF _ ec_procs(2)] ec_procs ec_child_def ec_at do_call_def reply_def)
  also have "\<dots> = ok (set_proc (Suc t) (ec_child ts t 5) (?k\<lparr>k_pipes := (k_pipes ?k)[Suc (2 * t) := reply (ts ! t)]\<rparr>))"
    using write_pipe [OF ec_procs(2) [OF assms(3)], of ts t 4 6 "Suc (2 * t)"] r assms(3)
    by (simp add: ec_pipes) (simp add: ec_child_def ec_child_fds_def)
  also have "set_proc (Suc t) (ec_child ts t 5) (?k\<lparr>k_pipes := (k_pipes ?k)[Suc (2 * t) := reply (ts ! t)]\<rparr>) = ec_state ts t i 5"
    using assms(3,4) by (auto simp: ec_state_def set_proc_def list_update_append)
  finally show ?thesis .
qed

lemma child_flushes:
  assumes "3 \<le> i"
  shows "kstep (ec_run g) (Suc t) (ec_state ts t i 6) = ok (ec_state ts t i 7)"
proof -
  let ?k = "ec_state ts t i 6"
  have "kstep (ec_run g) (Suc t) ?k = ok (k_write (Suc t) 1 (line_at ts t) (pr_status (ec_child ts t 7)) ?k)"
    using assms by (simp add: ec_step [OF _ ec_procs(2)] ec_procs ec_child_def ec_at ec_exit_def do_call_def)
  also have "\<dots> = ok (set_proc (Suc t) (ec_child ts t 7) (?k\<lparr>k_out := k_out ?k @ line_at ts t\<rparr>))"
    using write_terminal [OF ec_procs(2) [OF assms], of ts t 6 1]
    by (simp add: ec_child_def ec_child_fds_def std_fds_def)
  also have "set_proc (Suc t) (ec_child ts t 7) (?k\<lparr>k_out := k_out ?k @ line_at ts t\<rparr>) = ec_state ts t i 7"
    using assms by (simp add: ec_state_def set_proc_def list_update_append)
  finally show ?thesis .
qed

lemma child_exits:
  assumes "3 \<le> i"
  shows "kstep (ec_run g) (Suc t) (ec_state ts t i 7) = ok (ec_state ts t i 8)"
proof -
  have "kstep (ec_run g) (Suc t) (ec_state ts t i 7) = ok (set_proc (Suc t) (ec_child ts t 8) (ec_state ts t i 7))"
    using assms by (simp add: ec_step [OF _ ec_procs(2)] ec_procs ec_child_def ec_at do_call_def proc_exit_def ec_child_fds_def)
  then show ?thesis using set_ec_child [of i 7 t ts] assms by simp
qed

section \<open>Every schedule\<close>

lemma ec_parent_moves:
  assumes "ec_pre ts" "ec_order ts t i j" "t < length ts"
  shows "kstep (ec_run g) 0 (ec_state ts t i j) =
    (if i = 7 \<and> j \<noteq> 8 then None else ok (if i = 10 then ec_state ts (Suc t) 0 0 else ec_state ts t (Suc i) j))"
proof -
  have o: "i \<le> 10" "j \<le> 8" "i < 3 \<longrightarrow> j = 0" "i = 5 \<longrightarrow> j \<le> 2" "8 \<le> i \<longrightarrow> j = 8" using assms(2) by (auto simp: ec_order_def)
  have "i < 5 \<Longrightarrow> i = 0 \<or> i = 1 \<or> i = 2 \<or> i = 3 \<or> i = 4" by linarith
  moreover have "5 \<le> i \<Longrightarrow> i = 5 \<or> i = 6 \<or> i = 7 \<or> i = 8 \<or> i = 9 \<or> i = 10" using o(1) by linarith
  ultimately consider "i = 0 \<or> i = 1" | "i = 2" | "i = 3" | "i = 4 \<or> i = 6 \<or> i = 9" | "i = 5" | "i = 7" | "i = 8" | "i = 10"
    by (cases "i < 5") auto
  then show ?thesis
  proof cases
    case 1
    then show ?thesis using echo_pipes [OF assms(3) 1] o(3) by auto
  next
    case 2
    then show ?thesis using echo_fork [of g ts t] o(3) by simp
  next
    case 3
    then show ?thesis using echo_text [OF assms(1,3)] by simp
  next
    case 4
    then show ?thesis using echo_closes [OF 4] by auto
  next
    case 5
    then show ?thesis using echo_write [OF assms(1,3)] o(4) by simp
  next
    case 6
    then show ?thesis using echo_wait [OF o(2)] by simp
  next
    case 7
    then show ?thesis using echo_read [OF assms(1,3)] o(5) by simp
  next
    case 8
    then show ?thesis using echo_print [OF assms(1,3)] o(5) by simp
  qed
qed

lemma ec_child_moves:
  assumes "ec_pre ts" "ec_order ts t i j" "t < length ts"
  shows "kstep (ec_run g) (Suc t) (ec_state ts t i j) =
    (if i < 3 \<or> j = 8 \<or> j = 2 \<and> (i < 6 \<or> ts ! t = [] \<and> i = 6) then None else ok (ec_state ts t i (Suc j)))"
proof -
  have o: "i \<le> 10" "j \<le> 8" "8 \<le> i \<longrightarrow> j = 8" using assms(2) by (auto simp: ec_order_def)
  consider "i < 3" | "3 \<le> i" "j = 0 \<or> j = 1 \<or> j = 3 \<or> j = 5" | "3 \<le> i" "j = 2" | "3 \<le> i" "j = 4" | "3 \<le> i" "j = 6" | "3 \<le> i" "j = 7" | "3 \<le> i" "j = 8"
    using o(2) by linarith
  then show ?thesis
  proof cases
    case 1
    then show ?thesis by (simp add: kstep_def ec_procs)
  next
    case 2
    then show ?thesis using child_closes [OF 2] by auto
  next
    case 3
    then show ?thesis using child_reads [OF assms(1,3) 3(1) o(1)] by simp
  next
    case 4
    then have "i \<le> 8" using o(3) by linarith
    with 4 child_writes [OF assms(1,3) 4(1)] show ?thesis by simp
  next
    case 5
    then show ?thesis using child_flushes [OF 5(1)] by simp
  next
    case 6
    then show ?thesis using child_exits [OF 6(1)] by simp
  next
    case 7
    then show ?thesis by (simp add: kstep_def ec_procs ec_child_def)
  qed
qed

lemma gone_moves:
  assumes "n \<noteq> 0" "n \<noteq> Suc t"
  shows "kstep (ec_run g) n (ec_state ts t i j) = None"
proof (cases "n \<le> t")
  case True
  with assms(1) show ?thesis by (simp add: kstep_def ec_procs gone_def)
next
  case False
  with assms(2) show ?thesis by (simp add: kstep_def ec_procs)
qed

lemma final_moves: "kstep (ec_run g) n (ec_final h ts) = None"
  by (cases n) (auto simp: kstep_def ec_final_def gone_def nth_Cons')

lemma closing_moves:
  assumes "j \<le> 1"
  shows "kstep (ec_run g) n (ec_closing g ts j) = (if n \<noteq> 0 then None else if j = 0 then ok (ec_closing g ts 1) else ok (ec_final g ts))"
proof (cases n)
  case 0
  then show ?thesis using assms echo_ends [of g ts] echo_quits [of g ts] by (cases j) auto
next
  case (Suc m)
  then show ?thesis by (auto simp: kstep_def ec_closing_def gone_def nth_Cons')
qed

definition ec_inv :: "ec_signal \<Rightarrow> string list \<Rightarrow> nat \<Rightarrow> ec kernel \<Rightarrow> bool" where
  "ec_inv g ts r k \<longleftrightarrow> k = ec_final g ts \<or> (\<exists>j\<le>1. k = ec_closing g ts j \<and> 2 \<le> r + j) \<or>
     (\<exists>t i j. k = ec_state ts t i j \<and> ec_order ts t i j \<and> r + 19 * t + i + j = 19 * length ts + 3)"

definition ec_goal :: "ec_signal \<Rightarrow> string list \<Rightarrow> ec kernel \<Rightarrow> bool" where
  "ec_goal g ts k \<longleftrightarrow> k_out k = ec_out g ts \<and> (\<forall>p\<in>set (k_procs k). pr_status p = Exited 0) \<and> (\<forall>q\<in>set (k_pipes k). q = [])"

lemma order_steps:
  "ec_order ts t i j \<Longrightarrow> t < length ts \<Longrightarrow> i < 10 \<Longrightarrow> i \<noteq> 7 \<or> j = 8 \<Longrightarrow> ec_order ts t (Suc i) j"
  "t < length ts \<Longrightarrow> ec_order ts (Suc t) 0 0"
  "ec_order ts t i j \<Longrightarrow> t < length ts \<Longrightarrow> 3 \<le> i \<Longrightarrow> j \<noteq> 8 \<Longrightarrow> j = 2 \<longrightarrow> 6 \<le> i \<Longrightarrow> ec_order ts t i (Suc j)"
  unfolding ec_order_def by presburger+

lemma ec_state_step:
  assumes "ec_pre ts" "k = ec_state ts t i j" "ec_order ts t i j" "r + 19 * t + i + j = 19 * length ts + 3" "kstep (ec_run g) n k \<noteq> None"
  shows "\<exists>k' r'. kstep (ec_run g) n k = ok k' \<and> r' < r \<and> ec_inv g ts r' k'"
proof -
  note k = assms(2-4)
  have b: "i \<le> 10" "j \<le> 8" "t \<le> length ts" "8 \<le> i \<longrightarrow> j = 8" using k(2) by (simp_all add: ec_order_def)
  show ?thesis
  proof (cases "t = length ts")
    case True
    with k(2) have "i = 0" "j = 0" by (auto simp: ec_order_def)
    moreover have "n = 0"
    proof (rule ccontr)
      assume "n \<noteq> 0"
      then have "kstep (ec_run g) n k = None"
        using gone_moves [of n t g ts i j] \<open>i = 0\<close> by (cases "n = Suc t") (auto simp: k(1) kstep_def ec_procs)
      with assms(5) show False by simp
    qed
    ultimately have "kstep (ec_run g) n k = ok (ec_closing g ts 0)" "r = 3" using echo_signal [of g ts] True k(1,3) by auto
    moreover have "ec_inv g ts 2 (ec_closing g ts 0)" unfolding ec_inv_def by (intro disjI2 disjI1 exI [of _ 0]) simp
    ultimately show ?thesis by (intro exI [of _ "ec_closing g ts 0"] exI [of _ 2]) simp
  next
    case False
    with b(3) have t: "t < length ts" by simp
    note pm = ec_parent_moves [OF assms(1) k(2) t] and cm = ec_child_moves [OF assms(1) k(2) t]
    have "n = 0 \<or> n = Suc t" using gone_moves [of n t g ts i j] assms(5) unfolding k(1) by metis
    then consider "n = 0" | "n = Suc t" by blast
    then show ?thesis
    proof cases
      case 1
      with pm assms(5) have m: "kstep (ec_run g) n k = ok (if i = 10 then ec_state ts (Suc t) 0 0 else ec_state ts t (Suc i) j)"
        "i \<noteq> 7 \<or> j = 8" unfolding k(1) by (auto split: if_splits)
      show ?thesis
      proof (cases "i = 10")
        case True
        then have "j = 8" using b(4) by simp
        with True k(3) t have "r + 19 * t + 18 = 19 * length ts + 3" "0 < r" by linarith+
        then have "0 < r" "r - 1 + 19 * Suc t + 0 + 0 = 19 * length ts + 3" by simp_all
        with order_steps(2) [OF t] have "ec_inv g ts (r - 1) (ec_state ts (Suc t) 0 0)" "0 < r" unfolding ec_inv_def by blast+
        with m(1) True show ?thesis by (intro exI [of _ "ec_state ts (Suc t) 0 0"] exI [of _ "r - 1"]) simp
      next
        case False
        then have "ec_order ts t (Suc i) j" using order_steps(1) [OF k(2) t] b(1) m(2) by simp
        moreover have "0 < r" "r - 1 + 19 * t + Suc i + j = 19 * length ts + 3" using k(3) b t by linarith+
        ultimately have "ec_inv g ts (r - 1) (ec_state ts t (Suc i) j)" "0 < r" unfolding ec_inv_def by blast+
        with m(1) False show ?thesis by (intro exI [of _ "ec_state ts t (Suc i) j"] exI [of _ "r - 1"]) simp
      qed
    next
      case 2
      with cm assms(5) have m: "kstep (ec_run g) n k = ok (ec_state ts t i (Suc j))" "3 \<le> i" "j \<noteq> 8" "j = 2 \<longrightarrow> 6 \<le> i"
        unfolding k(1) by (auto split: if_splits)
      then have "ec_order ts t i (Suc j)" using order_steps(3) [OF k(2) t] by simp
      moreover have "0 < r" "r - 1 + 19 * t + i + Suc j = 19 * length ts + 3" using k(3) b m(3) t by linarith+
      ultimately have "ec_inv g ts (r - 1) (ec_state ts t i (Suc j))" "0 < r" unfolding ec_inv_def by blast+
      with m(1) show ?thesis by (intro exI [of _ "ec_state ts t i (Suc j)"] exI [of _ "r - 1"]) simp
    qed
  qed
qed

lemma ec_inv_step:
  assumes "ec_pre ts" "ec_inv g ts r k" "kstep (ec_run g) n k \<noteq> None"
  shows "\<exists>k' r'. kstep (ec_run g) n k = ok k' \<and> r' < r \<and> ec_inv g ts r' k'"
proof -
  consider j where "k = ec_closing g ts j" "j \<le> 1" "2 \<le> r + j" | t i j where "k = ec_state ts t i j" "ec_order ts t i j" "r + 19 * t + i + j = 19 * length ts + 3"
    using assms(2,3) by (auto simp: ec_inv_def final_moves)
  then show ?thesis
  proof cases
    case 1
    show ?thesis
    proof (cases "j = 0")
      case True
      with 1 assms(3) have "kstep (ec_run g) n k = ok (ec_closing g ts 1)" by (auto simp: closing_moves split: if_splits)
      moreover have "2 \<le> r - 1 + 1" using 1(3) True by simp
      then have "ec_inv g ts (r - 1) (ec_closing g ts 1)" unfolding ec_inv_def by blast
      ultimately show ?thesis using 1(3) True by (intro exI [of _ "ec_closing g ts 1"] exI [of _ "r - 1"]) simp
    next
      case False
      with 1 assms(3) have "kstep (ec_run g) n k = ok (ec_final g ts)" by (auto simp: closing_moves split: if_splits)
      moreover have "0 < r" using 1(2,3) False by linarith
      ultimately show ?thesis by (auto simp: ec_inv_def)
    qed
  next
    case k: 2
    show ?thesis by (rule ec_state_step [OF assms(1) k assms(3)])
  qed
qed
lemma ec_stuck:
  assumes "ec_pre ts" "ec_inv g ts r k" "stuck (ec_run g) k"
  shows "k = ec_final g ts"
proof (rule ccontr)
  assume "k \<noteq> ec_final g ts"
  moreover have "k \<noteq> ec_closing g ts j" if "j \<le> 1" for j
  proof
    assume "k = ec_closing g ts j"
    with assms(3) have "kstep (ec_run g) 0 (ec_closing g ts j) = None" by (simp add: stuck_def)
    with closing_moves [OF that, of g 0 ts] show False by (auto split: if_splits)
  qed
  ultimately obtain t i j where k: "k = ec_state ts t i j" "ec_order ts t i j"
    using assms(2) by (auto simp: ec_inv_def)
  have s: "kstep (ec_run g) n (ec_state ts t i j) = None" for n using assms(3) by (simp add: stuck_def k(1))
  have t: "t < length ts"
  proof (rule ccontr)
    assume "\<not> t < length ts"
    with k(2) have "t = length ts" "i = 0" "j = 0" by (auto simp: ec_order_def)
    with s [of 0] echo_signal [of g ts] show False by simp
  qed
  from s [of 0] have "i = 7 \<and> j \<noteq> 8" unfolding ec_parent_moves [OF assms(1) k(2) t] by (auto split: if_splits)
  with s [of "Suc t"] show False unfolding ec_child_moves [OF assms(1) k(2) t] by (auto split: if_splits)
qed

interpretation echo_chamber: any_schedule "\<lambda>_. ec_machine g (\<lambda>_. True) (\<lambda>_. True)" "ec_boot True True" ec_pre
  "\<lambda>ts. 19 * length ts + 3" "ec_inv g" "ec_goal g" for g
proof (unfold_locales, goal_cases)
  case (1 ts)
  have "ec_boot True True ts = ec_state ts 0 0 0"
    by (simp add: ec_boot_def boot_def ec_state_def ec_parent_def ec_loc_def buffer_at_def ec_parent_fds_def)
  moreover have "ec_order ts 0 0 0" by (simp add: ec_order_def)
  ultimately show ?case by (auto simp: ec_inv_def)
next
  case (2 ts r k i k')
  from ec_inv_step [OF 2(1,2), of i] 2(3) show ?case by auto
next
  case (3 ts r k i e)
  from ec_inv_step [OF 3, of i] show ?case by (cases "kstep (ec_run g) i k" rule: res_cases) auto
next
  case (4 ts r k)
  from ec_stuck [OF 4] show ?case by (auto simp: ec_goal_def ec_final_def gone_def)
qed

section \<open>What the program prints\<close>

text \<open>
  What a line-buffered terminal shows of the texts when \<open>c\<close> is an unfinished line: the child writes
  it out when it exits, and it is still there for the parent.
\<close>

fun shown :: "string \<Rightarrow> string list \<Rightarrow> string" where
  "shown c [] = c"
| "shown c (s # ss) = c @ whole_lines (c @ map upper_char s) @ shown (open_line (c @ map upper_char s)) ss"

lemma shown_from: "t \<le> length ts \<Longrightarrow> shown_at ts t @ shown (line_at ts t) (drop t ts) = shown [] ts"
proof (induction t)
  case (Suc t)
  then have "drop t ts = ts ! t # drop (Suc t) ts" by (simp add: Cons_nth_drop_Suc)
  with Suc show ?case by (simp add: echo_def)
qed simp

lemma shown_all: "shown_at ts (length ts) @ line_at ts (length ts) = shown [] ts"
  using shown_from [of "length ts" ts] by simp

lemma ec_out_shown: "ec_out g ts = (if ts = [] then [] else shown [] ts @ handler_line g)"
  by (simp add: ec_out_def shown_all [symmetric])

lemma upper_newline: "upper_char (CHR 0x0A) = CHR 0x0A"
  by (simp add: upper_char_def)

lemma whole_text: "s = [] \<or> last s = CHR 0x0A \<Longrightarrow> whole_lines (map upper_char s) = map upper_char s \<and> open_line (map upper_char s) = []"
  using complete_line [of "map upper_char s"] by (cases "s = []") (auto simp: whole_lines_def open_line_def last_map upper_newline)

lemma shown_lines: "\<forall>s\<in>set ts. s = [] \<or> last s = CHR 0x0A \<Longrightarrow> shown [] ts = concat (map (map upper_char) ts)"
  by (induction ts) (simp_all add: whole_text)

text \<open>
  C13: whatever texts of at most 256 ASCII characters are typed, in every schedule the program
  ends after at most 19 steps for each and three more, with no error, no process waiting for ever, all
  exited with status 0, and nothing left in the pipes, although the children write 256 bytes each
  time and without a terminator of their own. What the terminal has shown does not depend on the
  schedule; it is the texts in upper case, in the order typed, if each ends with a line, and the
  message of the signal handler, which is missing when the signal comes before the first turn.
\<close>

theorem echo_chamber_any_schedule:
  assumes "\<forall>s\<in>set ts. ascii s \<and> length s \<le> 256"
  shows "(\<forall>n k. runs (ec_machine g (\<lambda>_. True) (\<lambda>_. True)) n (ec_boot True True ts) k \<longrightarrow>
      n \<le> 19 * length ts + 3 \<and> (\<forall>i e. kstep (ec_machine g (\<lambda>_. True) (\<lambda>_. True)) i k \<noteq> err e) \<and>
      (stuck (ec_machine g (\<lambda>_. True) (\<lambda>_. True)) k \<longrightarrow> k_out k = (if ts = [] then [] else shown [] ts @ handler_line g) \<and>
        ((\<forall>s\<in>set ts. s = [] \<or> last s = CHR 0x0A) \<longrightarrow> ts \<noteq> [] \<longrightarrow> k_out k = concat (map (map upper_char) ts) @ handler_line g) \<and>
        (\<forall>p\<in>set (k_procs k). pr_status p = Exited 0) \<and> (\<forall>q\<in>set (k_pipes k). q = []))) \<and>
    (\<exists>n k. runs (ec_machine g (\<lambda>_. True) (\<lambda>_. True)) n (ec_boot True True ts) k \<and> stuck (ec_machine g (\<lambda>_. True) (\<lambda>_. True)) k)"
proof -
  have pre: "ec_pre ts" using assms by (simp add: ec_pre_def ECHO_SIZE_def)
  show ?thesis
    using echo_chamber.bounded [OF pre] echo_chamber.safe [OF pre] echo_chamber.at_goal [OF pre, unfolded ec_goal_def ec_out_shown]
      echo_chamber.always_at_goal [OF pre] shown_lines [of ts] by metis
qed

text \<open>
  A text that does not end with a line is shown twice: the next child gets a copy of the
  unfinished line, and writes it out when it exits.
\<close>

theorem echo_chamber_line_twice:
  assumes "ascii s" "length s \<le> 256" "CHR 0x0A \<notin> set s" "ascii t" "length t \<le> 256" "t \<noteq> []" "last t = CHR 0x0A"
    and "runs (ec_machine g (\<lambda>_. True) (\<lambda>_. True)) n (ec_boot True True [s, t]) k" "stuck (ec_machine g (\<lambda>_. True) (\<lambda>_. True)) k"
  shows "k_out k = map upper_char s @ map upper_char s @ map upper_char t @ handler_line g"
proof -
  have "ec_pre [s, t]" using assms by (simp add: ec_pre_def ECHO_SIZE_def)
  from echo_chamber.at_goal [OF this assms(8,9)] have o: "k_out k = shown [] [s, t] @ handler_line g"
    by (simp add: ec_goal_def ec_out_shown del: shown.simps line_at.simps shown_at.simps list.size)
  have "upper_char c \<noteq> CHR 0x0A" if "c \<noteq> CHR 0x0A" for c
  proof
    assume "upper_char c = CHR 0x0A"
    with that have "97 \<le> (of_char c :: nat)" "char_of (of_char c - 32 :: nat) = CHR 0x0A" "(of_char c :: nat) < 123"
      by (auto simp: upper_char_def Let_def split: if_splits)
    then have "(of_char (char_of (of_char c - 32 :: nat)) :: nat) = 10" by simp
    with \<open>97 \<le> (of_char c :: nat)\<close> \<open>(of_char c :: nat) < 123\<close> show False by simp
  qed
  then have "CHR 0x0A \<notin> set (map upper_char s)" using assms(3) by (metis (no_types) in_set_conv_nth length_map nth_map)
  moreover have "last (map upper_char s @ map upper_char t) = CHR 0x0A"
    using assms(6,7) by (simp add: last_map upper_newline)
  ultimately show ?thesis
    using no_line [of "map upper_char s"] complete_line [of "map upper_char s @ map upper_char t"] assms(6) by (simp add: o)
qed

section \<open>Errors\<close>

lemma alone_stuck: "map pr_status (k_procs k) = [Exited c] \<Longrightarrow> stuck m k"
  by (auto simp: stuck_def kstep_def nth_Cons')

lemma no_memory:
  assumes "\<not> (b \<and> u)"
  shows "\<exists>k. runs (ec_machine g P F) 2 (ec_boot b u ts) k \<and> stuck (ec_machine g P F) k \<and> map pr_status (k_procs k) = [Exited 1]"
proof -
  let ?l = "\<lparr>ec_pc = EC_Quit 1, ec_fd0 = (0, 0), ec_fd1 = (0, 0), ec_buffer = [], ec_upper = [], ec_typed = ts,
    ec_pid = 0, ec_int_flag = False, ec_line = []\<rparr>"
  let ?k = "ec_boot b u ts" and ?k1 = "k_write 0 1 [] (Runs ?l) (ec_boot b u ts)"
  have 1: "kstep (ec_machine g P F) 0 ?k = ok ?k1"
    using assms by (auto simp: ec_boot_def boot_def kstep_def ec_machine_def ec_code_def ec_exit_def do_call_def)
  have p: "k_procs ?k1 = [\<lparr>pr_status = Runs ?l, pr_fds = std_fds, pr_parent = None\<rparr>]"
    using assms by (auto simp: k_write_def ec_boot_def boot_def set_proc_def Let_def std_fds_def)
  have 2: "kstep (ec_machine g P F) 0 ?k1 = ok (proc_exit 0 1 ?k1)"
    by (simp add: kstep_def p [simplified] ec_machine_def ec_code_def do_call_def)
  have "runs (ec_machine g P F) 2 ?k (proc_exit 0 1 ?k1)"
    unfolding numeral_2_eq_2 by (rule runs_kstep [OF 1 runs_kstep [OF 2]]) simp
  moreover have "map pr_status (k_procs (proc_exit 0 1 ?k1)) = [Exited 1]"
    by (simp add: proc_exit_def set_proc_def p [simplified])
  ultimately show ?thesis using alone_stuck [of "proc_exit 0 1 ?k1" 1 "ec_machine g P F"]
    by (intro exI [of _ "proc_exit 0 1 ?k1"]) simp
qed

lemma no_pipe:
  assumes "\<not> P 0"
  shows "\<exists>k. runs (ec_machine g P F) 4 (ec_boot True True (s # ts)) k \<and> stuck (ec_machine g P F) k \<and>
      k_out k = ''Cannot create the pipes. Exiting the program. \<newline>'' \<and> map pr_status (k_procs k) = [Exited (-1)]"
proof -
  let ?m = "ec_machine g P F" and ?msg = "''Cannot create the pipes. Exiting the program. \<newline>''"
  let ?l = "\<lambda>pc. ec_loc [] 0 (s # ts) 0 0 zeros zeros pc"
  define k where "k st fds out = (\<lparr>k_procs = [\<lparr>pr_status = st, pr_fds = fds, pr_parent = None\<rparr>], k_pipes = [], k_out = out\<rparr> :: ec kernel)"
    for st fds out
  have w: "whole_lines ?msg = ?msg \<and> open_line ?msg = []" by (rule complete_line) simp_all
  have 1: "kstep ?m 0 (ec_boot True True (s # ts)) = ok (k (Runs (?l EC_No_Pipe)) std_fds [])"
    using assms by (simp add: ec_boot_def boot_def kstep_def ec_machine_def ec_code_def do_call_def ec_goto_def ec_loc_def set_proc_def k_def)
  have "ec_code g (?l EC_No_Pipe) = ec_printf ?msg (EC_Exit (-1)) (?l EC_No_Pipe)" by (simp add: ec_code_def ec_loc_def)
  also have "\<dots> = Print ?msg (?l (EC_Exit (-1)))" unfolding ec_printf_def using w by (simp add: ec_loc_def)
  finally have 2: "kstep ?m 0 (k (Runs (?l EC_No_Pipe)) std_fds []) = ok (k (Runs (?l (EC_Exit (-1)))) std_fds ?msg)"
    by (simp add: kstep_def ec_machine_def do_call_def set_proc_def k_def k_write_def std_fds_def)
  have 3: "kstep ?m 0 (k (Runs (?l (EC_Exit (-1)))) std_fds ?msg) = ok (k (Runs (?l (EC_Quit (-1)))) std_fds ?msg)"
    by (simp add: kstep_def ec_machine_def ec_code_def ec_exit_def ec_loc_def do_call_def set_proc_def k_def k_write_def std_fds_def)
  have 4: "kstep ?m 0 (k (Runs (?l (EC_Quit (-1)))) std_fds ?msg) = ok (k (Exited (-1)) [] ?msg)"
    by (simp add: kstep_def ec_machine_def ec_code_def do_call_def ec_loc_def set_proc_def k_def proc_exit_def)
  have n: "4 = Suc (Suc (Suc (Suc 0)))" by simp
  have "runs ?m 4 (ec_boot True True (s # ts)) (k (Exited (-1)) [] ?msg)"
    unfolding n by (rule runs_kstep [OF 1 runs_kstep [OF 2 runs_kstep [OF 3 runs_kstep [OF 4]]]]) simp
  moreover have "k_out (k (Exited (-1)) [] ?msg) = ?msg" "map pr_status (k_procs (k (Exited (-1)) [] ?msg)) = [Exited (-1)]"
    by (simp_all add: k_def)
  ultimately show ?thesis using alone_stuck [of "k (Exited (-1)) [] ?msg" "-1" ?m]
    by (intro exI [of _ "k (Exited (-1)) [] ?msg"] conjI)
qed

lemma typed_too_much:
  assumes "256 < length s"
  shows "\<exists>n k. runs (ec_run g) n (ec_boot True True (s # ts)) k \<and> kstep (ec_run g) 0 k = err Out_Of_Bounds"
proof -
  have b: "ec_boot True True (s # ts) = ec_state (s # ts) 0 0 0"
    by (simp add: ec_boot_def boot_def ec_state_def ec_parent_def ec_loc_def buffer_at_def ec_parent_fds_def)
  have "runs (ec_run g) 3 (ec_state (s # ts) 0 0 0) (ec_state (s # ts) 0 3 0)"
    unfolding numeral_3_eq_3
    by (rule runs_kstep [OF _ runs_kstep [OF _ runs_kstep]], rule echo_pipes, simp, simp, rule echo_pipes, simp, simp)
      (use echo_fork [of g "s # ts" 0] in \<open>simp_all add: numeral_2_eq_2 numeral_3_eq_3\<close>)
  moreover have "kstep (ec_run g) 0 (ec_state (s # ts) 0 3 0) = err Out_Of_Bounds"
    using assms by (simp add: ec_step [OF _ ec_procs(1)] ec_procs ec_parent_def ec_at do_call_def get_text_def buffer_length)
  ultimately show ?thesis unfolding b by blast
qed

text \<open>
  Without memory for the buffers, or without a first pipe, the program prints a message and exits; a
  first text of more than 256 characters overflows the buffer.
\<close>

theorem echo_chamber_errors:
  "(\<not> (b \<and> u) \<longrightarrow> (\<exists>k. runs (ec_machine g P F) 2 (ec_boot b u ts) k \<and> stuck (ec_machine g P F) k \<and>
      map pr_status (k_procs k) = [Exited 1])) \<and>
   (\<not> P 0 \<longrightarrow> (\<exists>k. runs (ec_machine g P F) 4 (ec_boot True True (s # ts)) k \<and> stuck (ec_machine g P F) k \<and>
      k_out k = ''Cannot create the pipes. Exiting the program. \<newline>'' \<and> map pr_status (k_procs k) = [Exited (-1)])) \<and>
   (256 < length s \<longrightarrow> (\<exists>n k. runs (ec_machine g (\<lambda>_. True) (\<lambda>_. True)) n (ec_boot True True (s # ts)) k \<and>
      kstep (ec_machine g (\<lambda>_. True) (\<lambda>_. True)) 0 k = err Out_Of_Bounds))"
  using no_memory [of b u g P F ts] no_pipe [of P g F s ts] typed_too_much [of s g ts] by simp

section \<open>Examples\<close>

lemma demo_ascii: "ascii ''Hello, 1\<newline>''" "ascii []" "ascii ''hi''"
  by (simp_all add: ascii_def)

lemma echo_chamber_any_schedule_witness:
  "\<exists>n k. runs (ec_machine Sigint (\<lambda>_. True) (\<lambda>_. True)) n (ec_boot True True [''Hello, 1\<newline>'', [], ''Hello, 1\<newline>'']) k \<and>
     stuck (ec_machine Sigint (\<lambda>_. True) (\<lambda>_. True)) k \<and> k_out k = ''HELLO, 1\<newline>HELLO, 1\<newline>'' @ handler_line Sigint \<and> n \<le> 60"
proof -
  have "map upper_char ''Hello, 1\<newline>'' = ''HELLO, 1\<newline>''" by code_simp
  then have out: "concat (map (map upper_char) [''Hello, 1\<newline>'', [], ''Hello, 1\<newline>'']) = ''HELLO, 1\<newline>HELLO, 1\<newline>''" by simp
  show ?thesis
    using echo_chamber_any_schedule [of "[''Hello, 1\<newline>'', [], ''Hello, 1\<newline>'']" Sigint, unfolded out] demo_ascii by auto
qed

lemma echo_chamber_line_twice_witness:
  "\<exists>n k. runs (ec_machine Sigint (\<lambda>_. True) (\<lambda>_. True)) n (ec_boot True True [''hi'', ''Hello, 1\<newline>'']) k \<and>
     stuck (ec_machine Sigint (\<lambda>_. True) (\<lambda>_. True)) k \<and> k_out k = ''HIHIHELLO, 1\<newline>'' @ handler_line Sigint"
proof -
  have u: "map upper_char ''Hello, 1\<newline>'' = ''HELLO, 1\<newline>''" "map upper_char ''hi'' = ''HI''" by code_simp+
  have pre: "ec_pre [''hi'', ''Hello, 1\<newline>'']" using demo_ascii by (simp add: ec_pre_def ECHO_SIZE_def)
  from echo_chamber.always_at_goal [OF this] obtain n k where r: "runs (ec_machine Sigint (\<lambda>_. True) (\<lambda>_. True)) n
      (ec_boot True True [''hi'', ''Hello, 1\<newline>'']) k" "stuck (ec_machine Sigint (\<lambda>_. True) (\<lambda>_. True)) k" by blast
  have "k_out k = map upper_char ''hi'' @ map upper_char ''hi'' @ map upper_char ''Hello, 1\<newline>'' @ handler_line Sigint"
    by (rule echo_chamber_line_twice [OF _ _ _ _ _ _ _ r]) (simp_all add: demo_ascii)
  with r show ?thesis unfolding u by auto
qed

lemma echo_chamber_errors_witness:
  "(\<exists>k. runs (ec_machine Sigint (\<lambda>_. True) (\<lambda>_. True)) 2 (ec_boot True False []) k \<and> map pr_status (k_procs k) = [Exited 1]) \<and>
   (\<exists>k. runs (ec_machine Sigint (\<lambda>_. False) (\<lambda>_. True)) 4 (ec_boot True True [''a'']) k \<and> map pr_status (k_procs k) = [Exited (-1)]) \<and>
   (\<exists>n k. runs (ec_machine Sigint (\<lambda>_. True) (\<lambda>_. True)) n (ec_boot True True [replicate 257 CHR ''a'']) k \<and>
      kstep (ec_machine Sigint (\<lambda>_. True) (\<lambda>_. True)) 0 k = err Out_Of_Bounds)"
  using echo_chamber_errors [of True False Sigint "\<lambda>_. True" "\<lambda>_. True" "[]" "[]"]
    echo_chamber_errors [of True True Sigint "\<lambda>_. False" "\<lambda>_. True" "[]" "''a''"]
    echo_chamber_errors [of True True Sigint "\<lambda>_. True" "\<lambda>_. True" "[]" "replicate 257 CHR ''a''"]
  by auto

end
