(* ===== verification/SimplePipe.thy ===== *)
theory SimplePipe
  imports Processes
begin

text \<open>
  \<open>test/main.c\<close>: the parent sends its argument to a child through a pipe and waits for the child,
  which prints it; and \<open>hw_1/main.c\<close>, where a child changes a variable its parent prints. The
  standard output is a terminal, so that lines appear as they are printed.
\<close>

section \<open>A string through a pipe\<close>

definition BUF_LEN :: nat where "BUF_LEN = 256"

datatype sp_pc =
    SP_Start
  | SP_Fork
  | SP_Parent
  | SP_Count
  | SP_Write
  | SP_Wait
  | SP_Report
  | SP_Child
  | SP_Read
  | SP_Show
  | SP_Exit int
  | SP_Fail c_error

record sp =
  sp_pc :: sp_pc
  sp_fd :: "nat \<times> nat"
  sp_buffer :: "char list"
  sp_argv :: "string list"

definition sp_goto :: "sp_pc \<Rightarrow> sp \<Rightarrow> sp" where
  "sp_goto pc l = l\<lparr>sp_pc := pc\<rparr>"

definition sp_store :: "sp \<Rightarrow> sp_pc \<Rightarrow> string option \<Rightarrow> sp" where
  "sp_store l pc r =
     (case store_read (sp_buffer l) r of
        Some (Inr buf) \<Rightarrow> l\<lparr>sp_buffer := buf, sp_pc := pc\<rparr>
      | Some (Inl e) \<Rightarrow> sp_goto (SP_Fail e) l
      | None \<Rightarrow> l)"

text \<open>
  The next call of a process at each place of \<open>main\<close>. What \<open>perror\<close> writes to the error output is
  left out.
\<close>

definition sp_code :: "sp \<Rightarrow> sp call" where
  "sp_code l =
     (case sp_pc l of
        SP_Start \<Rightarrow>
          if length (sp_argv l) < 2 then Print (''Usage: '' @ hd (sp_argv l) @ '' <string> \<newline>'') (sp_goto (SP_Exit 0) l)
          else Pipe (\<lambda>r. case r of None \<Rightarrow> sp_goto (SP_Exit 1) l | Some fd \<Rightarrow> l\<lparr>sp_fd := fd, sp_pc := SP_Fork\<rparr>)
      | SP_Fork \<Rightarrow> Fork (\<lambda>pid. sp_goto (if pid < 0 then SP_Exit 1 else if 0 < pid then SP_Parent else SP_Child) l)
      | SP_Parent \<Rightarrow>
          res_call (c_strcpy (sp_buffer l) (sp_argv l ! 1)) (\<lambda>buf.
          Close (fst (sp_fd l)) (l\<lparr>sp_buffer := buf, sp_pc := SP_Count\<rparr>))
      | SP_Count \<Rightarrow>
          res_call (cstr (sp_buffer l)) (\<lambda>s.
          Print (''PARENT: Writing '' @ dec_nat (length s) @ '' bytes to the pipe: \<newline>'') (sp_goto SP_Write l))
      | SP_Write \<Rightarrow> res_call (cstr (sp_buffer l)) (\<lambda>s. Write (snd (sp_fd l)) s (sp_goto SP_Wait l))
      | SP_Wait \<Rightarrow> Wait (sp_goto SP_Report l)
      | SP_Report \<Rightarrow> Print ''PARENT: Child has terminated. \<newline>'' (sp_goto (SP_Exit 0) l)
      | SP_Child \<Rightarrow> Close (snd (sp_fd l)) (sp_goto SP_Read l)
      | SP_Read \<Rightarrow> Read (fst (sp_fd l)) BUF_LEN (sp_store l SP_Show)
      | SP_Show \<Rightarrow> res_call (cstr (sp_buffer l)) (\<lambda>s. Print (''CHILD: '' @ s @ '' \<newline>'') (sp_goto (SP_Exit 0) l))
      | SP_Exit n \<Rightarrow> Exit n
      | SP_Fail e \<Rightarrow> Fail e)"

definition sp_machine :: "sp machine" where
  "sp_machine = \<lparr>m_pipe_ok = (\<lambda>_. True), m_fork_ok = (\<lambda>_. True), m_programs = (\<lambda>_. None), m_code = sp_code\<rparr>"

text \<open>\<open>junk\<close> is what is in the array on the stack.\<close>

definition sp_boot :: "char list \<Rightarrow> string list \<Rightarrow> sp kernel" where
  "sp_boot junk args = boot \<lparr>sp_pc = SP_Start, sp_fd = (0, 0), sp_buffer = junk, sp_argv = args\<rparr>"

section \<open>Where the two processes can be\<close>

record sp_input =
  si_junk :: "char list"
  si_args :: "string list"

definition si_arg :: "sp_input \<Rightarrow> string" where
  "si_arg x = si_args x ! 1"

definition sp_loc :: "sp_input \<Rightarrow> bool \<Rightarrow> char list \<Rightarrow> sp_pc \<Rightarrow> sp" where
  "sp_loc x opened buf pc = \<lparr>sp_pc = pc, sp_fd = (if opened then (3, 4) else (0, 0)), sp_buffer = buf, sp_argv = si_args x\<rparr>"

definition sp_parent :: "sp_input \<Rightarrow> nat \<Rightarrow> sp process" where
  "sp_parent x i =
     \<lparr>pr_status =
        (if i \<le> 2 then Runs (sp_loc x (1 \<le> i) (si_junk x) ([SP_Start, SP_Fork, SP_Parent] ! i))
         else if i \<le> 7 then Runs (sp_loc x True (over (si_junk x) (si_arg x)) ([SP_Count, SP_Write, SP_Wait, SP_Report, SP_Exit 0] ! (i - 3)))
         else Exited 0),
      pr_fds = (if i = 0 then std_fds else if i \<le> 2 then (3, Read_End 0) # (4, Write_End 0) # std_fds
                else if i \<le> 7 then (4, Write_End 0) # std_fds else []),
      pr_parent = None\<rparr>"

definition sp_child :: "sp_input \<Rightarrow> nat \<Rightarrow> sp process" where
  "sp_child x j =
     \<lparr>pr_status =
        (if j \<le> 1 then Runs (sp_loc x True (si_junk x) ([SP_Child, SP_Read] ! j))
         else if j \<le> 3 then Runs (sp_loc x True (over (si_junk x) (si_arg x)) ([SP_Show, SP_Exit 0] ! (j - 2)))
         else Exited 0),
      pr_fds = (if j = 0 then (3, Read_End 0) # (4, Write_End 0) # std_fds
                else if j \<le> 3 then (3, Read_End 0) # std_fds else []),
      pr_parent = Some 0\<rparr>"

definition sp_lines :: "sp_input \<Rightarrow> string list" where
  "sp_lines x =
     [''PARENT: Writing '' @ dec_nat (length (si_arg x)) @ '' bytes to the pipe: \<newline>'',
      ''CHILD: '' @ si_arg x @ '' \<newline>'', ''PARENT: Child has terminated. \<newline>'']"

definition sp_state :: "sp_input \<Rightarrow> nat \<Rightarrow> nat \<Rightarrow> sp kernel" where
  "sp_state x i j =
     \<lparr>k_procs = sp_parent x i # (if 2 \<le> i then [sp_child x j] else []),
      k_pipes = (if 1 \<le> i then [if 5 \<le> i \<and> j \<le> 1 then si_arg x else []] else []),
      k_out = (if 4 \<le> i then sp_lines x ! 0 else []) @ (if 3 \<le> j then sp_lines x ! 1 else []) @
        (if 7 \<le> i then sp_lines x ! 2 else [])\<rparr>"

definition sp_order :: "sp_input \<Rightarrow> nat \<Rightarrow> nat \<Rightarrow> bool" where
  "sp_order x i j \<longleftrightarrow> i \<le> 8 \<and> j \<le> 4 \<and> (0 < j \<longrightarrow> 2 \<le> i) \<and> (2 \<le> j \<longrightarrow> 5 \<le> i \<and> si_arg x \<noteq> []) \<and> (6 \<le> i \<longrightarrow> j = 4)"

definition sp_pre :: "sp_input \<Rightarrow> bool" where
  "sp_pre x \<longleftrightarrow> length (si_junk x) = BUF_LEN \<and> 2 \<le> length (si_args x) \<and> NUL \<notin> set (si_arg x) \<and> length (si_arg x) < BUF_LEN"

section \<open>The steps\<close>

lemma sp_step:
  assumes "n < length (k_procs k)" "k_procs k ! n = p" "pr_status p = Runs l"
  shows "kstep sp_machine n k = do_call sp_machine n (sp_code l) k"
  using assms by (simp add: kstep_def sp_machine_def)

lemma sp_procs:
  "k_procs (sp_state x i j) ! 0 = sp_parent x i" "2 \<le> i \<Longrightarrow> k_procs (sp_state x i j) ! Suc 0 = sp_child x j"
  "length (k_procs (sp_state x i j)) = (if 2 \<le> i then 2 else 1)"
  by (simp_all add: sp_state_def)

lemma sp_machine_simps [simp]: "m_pipe_ok sp_machine q" "m_fork_ok sp_machine n"
  by (simp_all add: sp_machine_def)

lemmas sp_at = sp_code_def sp_loc_def sp_goto_def do_call_def

lemma sp_has_end:
  "has_end (sp_state x i j) e \<longleftrightarrow> e \<in> snd ` set (pr_fds (sp_parent x i)) \<or> 2 \<le> i \<and> e \<in> snd ` set (pr_fds (sp_child x j))"
  by (simp add: has_end_def sp_state_def)

lemma sp_parent_starts:
  assumes "sp_pre x"
  shows "kstep sp_machine 0 (sp_state x 0 0) = ok (sp_state x 1 0)" "kstep sp_machine 0 (sp_state x 1 0) = ok (sp_state x 2 0)"
    "kstep sp_machine 0 (sp_state x 2 j) = ok (sp_state x 3 j)"
proof -
  have fd: "fd_free std_fds = 3" "fd_free ((3, e) # std_fds) = 4" for e
    by (simp_all add: fd_free_def std_fds_def upt_rec [of 0] upt_rec [of "Suc _"])
  have arg: "\<not> length (si_args x) < 2" "si_args x ! Suc 0 = si_arg x" "length (si_arg x) < length (si_junk x)"
    using assms by (simp_all add: sp_pre_def si_arg_def)
  show "kstep sp_machine 0 (sp_state x 0 0) = ok (sp_state x 1 0)"
    using arg fd by (simp add: sp_step [OF _ sp_procs(1)] sp_procs sp_parent_def sp_at Let_def)
      (simp add: sp_state_def sp_parent_def set_proc_def sp_loc_def)
  show "kstep sp_machine 0 (sp_state x 1 0) = ok (sp_state x 2 0)"
    by (simp add: sp_step [OF _ sp_procs(1)] sp_procs sp_parent_def sp_at Let_def)
      (simp add: sp_state_def sp_parent_def sp_child_def set_proc_def sp_loc_def)
  show "kstep sp_machine 0 (sp_state x 2 j) = ok (sp_state x 3 j)"
    using arg by (simp add: sp_step [OF _ sp_procs(1)] sp_procs sp_parent_def sp_at)
      (simp add: sp_state_def sp_parent_def set_proc_def sp_loc_def over_def fd_close_def std_fds_def)
qed

lemma sp_parent_count: "sp_pre x \<Longrightarrow> j \<le> 1 \<Longrightarrow> kstep sp_machine 0 (sp_state x 3 j) = ok (sp_state x 4 j)"
proof -
  assume "sp_pre x" "j \<le> 1"
  then have "cstr (over (si_junk x) (si_arg x)) = ok (si_arg x)" by (simp add: sp_pre_def)
  then have "kstep sp_machine 0 (sp_state x 3 j) = ok (k_write 0 1 (sp_lines x ! 0) (pr_status (sp_parent x 4)) (sp_state x 3 j))"
    by (simp add: sp_step [OF _ sp_procs(1)] sp_procs sp_parent_def sp_at sp_lines_def)
  with \<open>j \<le> 1\<close> show ?thesis
    using write_terminal [OF sp_procs(1), of x 3 1 "sp_lines x ! 0" "pr_status (sp_parent x 4)" j]
    by (simp add: sp_parent_def std_fds_def) (simp add: sp_state_def sp_parent_def set_proc_def std_fds_def)
qed

lemma sp_parent_write: "sp_pre x \<Longrightarrow> j \<le> 1 \<Longrightarrow> kstep sp_machine 0 (sp_state x 4 j) = ok (sp_state x 5 j)"
proof -
  assume "sp_pre x" "j \<le> 1"
  then have "cstr (over (si_junk x) (si_arg x)) = ok (si_arg x)" by (simp add: sp_pre_def)
  then have "kstep sp_machine 0 (sp_state x 4 j) = ok (k_write 0 4 (si_arg x) (pr_status (sp_parent x 5)) (sp_state x 4 j))"
    by (simp add: sp_step [OF _ sp_procs(1)] sp_procs sp_parent_def sp_at)
  moreover have "has_end (sp_state x 4 j) (Read_End 0)" using \<open>j \<le> 1\<close> by (auto simp: sp_has_end sp_child_def)
  ultimately show ?thesis
    using write_pipe [OF sp_procs(1), of x 4 4 0 j "si_arg x" "pr_status (sp_parent x 5)"] \<open>j \<le> 1\<close>
    by (simp add: sp_parent_def) (simp add: sp_state_def sp_parent_def set_proc_def)
qed

lemma sp_parent_wait: "j \<le> 4 \<Longrightarrow> kstep sp_machine 0 (sp_state x 5 j) = (if j = 4 then ok (sp_state x 6 j) else None)"
proof -
  assume "j \<le> 4"
  then have c: "has_child (sp_state x 5 j) 0 \<longleftrightarrow> j \<noteq> 4"
    by (auto simp: has_child_def sp_state_def sp_parent_def sp_child_def)
  show ?thesis
    by (simp add: sp_step [OF _ sp_procs(1)] sp_procs sp_parent_def sp_at c)
      (simp add: sp_state_def sp_parent_def set_proc_def sp_loc_def)
qed

lemma sp_parent_report: "kstep sp_machine 0 (sp_state x 6 4) = ok (sp_state x 7 4)"
proof -
  have "kstep sp_machine 0 (sp_state x 6 4) = ok (k_write 0 1 (sp_lines x ! 2) (pr_status (sp_parent x 7)) (sp_state x 6 4))"
    by (simp add: sp_step [OF _ sp_procs(1)] sp_procs sp_parent_def sp_at sp_lines_def)
  then show ?thesis
    using write_terminal [OF sp_procs(1), of x 6 1 "sp_lines x ! 2" "pr_status (sp_parent x 7)" 4]
    by (simp add: sp_parent_def std_fds_def) (simp add: sp_state_def sp_parent_def set_proc_def std_fds_def)
qed

lemma sp_parent_exit: "kstep sp_machine 0 (sp_state x 7 j) = ok (sp_state x 8 j)"
  by (simp add: sp_step [OF _ sp_procs(1)] sp_procs sp_parent_def sp_at proc_exit_def)
    (simp add: sp_state_def sp_parent_def set_proc_def)

lemma sp_child_close: "2 \<le> i \<Longrightarrow> kstep sp_machine 1 (sp_state x i 0) = ok (sp_state x i 1)"
  by (simp add: sp_step [OF _ sp_procs(2)] sp_procs sp_child_def sp_at)
    (simp add: sp_state_def sp_child_def set_proc_def sp_loc_def fd_close_def std_fds_def)

lemma sp_child_read:
  assumes "sp_pre x" "2 \<le> i" "i \<le> 7"
  shows "kstep sp_machine (Suc 0) (sp_state x i (Suc 0)) = (if i < 5 \<or> si_arg x = [] then None else ok (sp_state x i 2))"
proof -
  let ?k = "sp_state x i (Suc 0)" and ?l = "sp_loc x True (si_junk x) SP_Read"
  have st: "kstep sp_machine (Suc 0) ?k = do_call sp_machine (Suc 0) (Read 3 256 (sp_store ?l SP_Show)) ?k"
    using assms(2) by (simp add: sp_step [OF _ sp_procs(2)] sp_procs sp_child_def sp_code_def sp_loc_def BUF_LEN_def)
  have "sp_store ?l SP_Show (Some (si_arg x)) = sp_loc x True (over (si_junk x) (si_arg x)) SP_Show"
    using assms(1) by (simp add: sp_store_def store_read_def sp_loc_def ok_def sp_pre_def)
  then have fin: "(sp_child x (Suc 0))\<lparr>pr_status := Runs (sp_store ?l SP_Show (Some (si_arg x)))\<rparr> = sp_child x 2"
    by (simp add: sp_child_def)
  have p: "k_procs ?k ! Suc 0 = sp_child x (Suc 0)" using assms(2) by (simp add: sp_procs)
  have fd: "map_of (pr_fds (sp_child x (Suc 0))) 3 = Some (Read_End 0)" by (simp add: sp_child_def)
  have pipe: "k_pipes ?k ! 0 = (if 5 \<le> i then si_arg x else [])" using assms(2) by (simp add: sp_state_def)
  have w: "has_end ?k (Write_End 0)" using assms(2,3) by (auto simp: sp_has_end sp_parent_def)
  have take: "take 256 (si_arg x) = si_arg x" "drop 256 (si_arg x) = []" using assms(1) by (simp_all add: sp_pre_def BUF_LEN_def)
  have new: "set_proc (Suc 0) (sp_child x 2) (?k\<lparr>k_pipes := (k_pipes ?k)[0 := []]\<rparr>) = sp_state x i 2"
    using assms(2) by (simp add: sp_state_def set_proc_def)
  show ?thesis
  proof (cases "i < 5 \<or> si_arg x = []")
    case True
    with w show ?thesis unfolding st by (auto simp: do_call_def p k_read_def fd pipe)
  next
    case False
    then have "5 \<le> i" "si_arg x \<noteq> []" by auto
    with fin new show ?thesis unfolding st by (simp add: do_call_def p k_read_def fd pipe take)
  qed
qed

lemma sp_child_show:
  assumes "sp_pre x" "5 \<le> i" "i \<le> 5"
  shows "kstep sp_machine 1 (sp_state x i 2) = ok (sp_state x i 3)"
proof -
  have "cstr (over (si_junk x) (si_arg x)) = ok (si_arg x)" using assms(1) by (simp add: sp_pre_def)
  then have "kstep sp_machine (Suc 0) (sp_state x i 2) = ok (k_write (Suc 0) 1 (sp_lines x ! 1) (pr_status (sp_child x 3)) (sp_state x i 2))"
    using assms(2) by (simp add: sp_step [OF _ sp_procs(2)] sp_procs sp_child_def sp_at sp_lines_def)
  then show ?thesis
    using write_terminal [OF sp_procs(2), of i x 2 1 "sp_lines x ! 1" "pr_status (sp_child x 3)"] assms(2,3)
    by (simp add: sp_child_def std_fds_def) (simp add: sp_state_def sp_child_def set_proc_def std_fds_def)
qed

lemma sp_child_exit: "2 \<le> i \<Longrightarrow> kstep sp_machine 1 (sp_state x i 3) = ok (sp_state x i 4)"
  by (simp add: sp_step [OF _ sp_procs(2)] sp_procs sp_child_def sp_at proc_exit_def)
    (simp add: sp_state_def sp_child_def set_proc_def)

section \<open>Every schedule\<close>

lemma sp_parent_moves:
  assumes "sp_pre x" "sp_order x i j"
  shows "kstep sp_machine 0 (sp_state x i j) = (if i = 8 \<or> i = 5 \<and> j \<noteq> 4 then None else ok (sp_state x (Suc i) j))"
proof -
  have o: "i \<le> 8" "j \<le> 4" "i < 2 \<longrightarrow> j = 0" "i < 5 \<longrightarrow> j \<le> 1" "6 \<le> i \<longrightarrow> j = 4" using assms(2) by (auto simp: sp_order_def)
  have st: "kstep sp_machine 0 (sp_state x (Suc 0) 0) = ok (sp_state x (Suc (Suc 0)) 0)"
    using sp_parent_starts(2) [OF assms(1)] by (simp add: numeral_2_eq_2)
  have "i = 0 \<or> i = 1 \<or> i = 2 \<or> i = 3 \<or> i = 4 \<or> i = 5 \<or> i = 6 \<or> i = 7 \<or> i = 8" using o(1) by linarith
  then show ?thesis
  proof (elim disjE)
    assume "i = 8"
    then show ?thesis by (simp add: kstep_def sp_procs sp_parent_def)
  qed (use o st sp_parent_starts(1,3) [OF assms(1)] sp_parent_count [OF assms(1)] sp_parent_write [OF assms(1)] sp_parent_wait [of j x]
      sp_parent_report [of x] sp_parent_exit [of x j] in simp_all)
qed

lemma sp_child_moves:
  assumes "sp_pre x" "sp_order x i j"
  shows "kstep sp_machine 1 (sp_state x i j) =
    (if i < 2 \<or> j = 4 \<or> j = 1 \<and> (i < 5 \<or> si_arg x = []) then None else ok (sp_state x i (Suc j)))"
proof -
  have o: "i \<le> 8" "j \<le> 4" "i < 2 \<longrightarrow> j = 0" "2 \<le> j \<longrightarrow> 5 \<le> i" "6 \<le> i \<longrightarrow> j = 4" using assms(2) by (auto simp: sp_order_def)
  consider "i < 2" | "2 \<le> i" "j = 0" | "2 \<le> i" "j = 1" "i \<le> 7" | "5 \<le> i" "i \<le> 5" "j = 2" | "2 \<le> i" "j = 3" | "2 \<le> i" "j = 4"
    using o by linarith
  then show ?thesis
  proof cases
    case 1
    then show ?thesis by (simp add: kstep_def sp_procs)
  next
    case 2
    then show ?thesis using sp_child_close [OF 2(1)] by simp
  next
    case 3
    then show ?thesis using sp_child_read [OF assms(1) 3(1,3)] by (simp add: numeral_2_eq_2)
  next
    case 4
    then show ?thesis using sp_child_show [OF assms(1) 4(1,2)] by simp
  next
    case 5
    then show ?thesis using sp_child_exit [OF 5(1)] by simp
  next
    case 6
    then show ?thesis by (simp add: kstep_def sp_procs sp_child_def)
  qed
qed

lemma sp_order_steps:
  "sp_order x i j \<Longrightarrow> \<not> (i = 8 \<or> i = 5 \<and> j \<noteq> 4) \<Longrightarrow> sp_order x (Suc i) j"
  "sp_order x i j \<Longrightarrow> \<not> (i < 2 \<or> j = 4 \<or> j = 1 \<and> (i < 5 \<or> si_arg x = [])) \<Longrightarrow> sp_order x i (Suc j)"
  by (auto simp: sp_order_def)

definition sp_inv :: "sp_input \<Rightarrow> nat \<Rightarrow> sp kernel \<Rightarrow> bool" where
  "sp_inv x r k \<longleftrightarrow> (\<exists>i j. k = sp_state x i j \<and> sp_order x i j \<and> r + i + j = 12)"

definition sp_goal :: "sp_input \<Rightarrow> sp kernel \<Rightarrow> bool" where
  "sp_goal x k \<longleftrightarrow>
     (if si_arg x = [] then k = sp_state x 5 1
      else k_out k = concat (sp_lines x) \<and> (\<forall>p\<in>set (k_procs k). pr_status p = Exited 0))"

lemma sp_inv_step:
  assumes "sp_pre x" "sp_inv x r k" "kstep sp_machine n k \<noteq> None"
  shows "\<exists>k'. kstep sp_machine n k = ok k' \<and> 0 < r \<and> sp_inv x (r - 1) k'"
proof -
  from assms(2) obtain i j where k: "k = sp_state x i j" "sp_order x i j" "r + i + j = 12" by (auto simp: sp_inv_def)
  have "n = 0 \<or> n = 1" using assms(3) by (auto simp: k(1) kstep_def sp_procs split: if_splits)
  then show ?thesis
  proof
    assume n: "n = 0"
    with assms(3) have m: "\<not> (i = 8 \<or> i = 5 \<and> j \<noteq> 4)" "kstep sp_machine n k = ok (sp_state x (Suc i) j)"
      unfolding k(1) n sp_parent_moves [OF assms(1) k(2)] by (auto split: if_splits)
    note o = sp_order_steps(1) [OF k(2) m(1)]
    then have "0 < r" "r - 1 + Suc i + j = 12" using k(3) by (auto simp: sp_order_def)
    with o have "sp_inv x (r - 1) (sp_state x (Suc i) j)" unfolding sp_inv_def by blast
    with m(2) \<open>0 < r\<close> show ?thesis by blast
  next
    assume n: "n = 1"
    with assms(3) have m: "\<not> (i < 2 \<or> j = 4 \<or> j = 1 \<and> (i < 5 \<or> si_arg x = []))" "kstep sp_machine n k = ok (sp_state x i (Suc j))"
      unfolding k(1) n sp_child_moves [OF assms(1) k(2)] by (auto split: if_splits)
    note o = sp_order_steps(2) [OF k(2) m(1)]
    then have "0 < r" "r - 1 + i + Suc j = 12" using k(3) by (auto simp: sp_order_def)
    with o have "sp_inv x (r - 1) (sp_state x i (Suc j))" unfolding sp_inv_def by blast
    with m(2) \<open>0 < r\<close> show ?thesis by blast
  qed
qed

lemma sp_stuck:
  assumes "sp_pre x" "sp_order x i j" "stuck sp_machine (sp_state x i j)"
  shows "if si_arg x = [] then i = 5 \<and> j = 1 else i = 8 \<and> j = 4"
proof -
  have s: "kstep sp_machine n (sp_state x i j) = None" for n using assms(3) by (simp add: stuck_def)
  have "i = 8 \<or> i = 5 \<and> j \<noteq> 4" using s [of 0] unfolding sp_parent_moves [OF assms(1,2)] by (auto split: if_splits)
  moreover have "i < 2 \<or> j = 4 \<or> j = 1 \<and> (i < 5 \<or> si_arg x = [])"
    using s [of 1] unfolding sp_child_moves [OF assms(1,2)] by (auto split: if_splits)
  ultimately show ?thesis using assms(2) by (auto simp: sp_order_def)
qed

interpretation simple_pipe: any_schedule "\<lambda>_. sp_machine" "\<lambda>x. sp_boot (si_junk x) (si_args x)" sp_pre "\<lambda>_. 12" sp_inv sp_goal
proof (unfold_locales, goal_cases)
  case (1 x)
  have "sp_boot (si_junk x) (si_args x) = sp_state x 0 0"
    by (simp add: sp_boot_def boot_def sp_state_def sp_parent_def sp_loc_def)
  moreover have "sp_order x 0 0" by (simp add: sp_order_def)
  ultimately show ?case by (auto simp: sp_inv_def)
next
  case (2 x r k i k')
  from sp_inv_step [OF 2(1,2), of i] 2(3) show ?case by (intro exI [of _ "r - 1"]) auto
next
  case (3 x r k i e)
  from sp_inv_step [OF 3, of i] show ?case by (cases "kstep sp_machine i k" rule: res_cases) auto
next
  case (4 x r k)
  from 4(2) obtain i j where k: "k = sp_state x i j" "sp_order x i j" by (auto simp: sp_inv_def)
  have "stuck sp_machine (sp_state x i j)" using 4(3) k(1) by simp
  note s = sp_stuck [OF 4(1) k(2) this]
  show ?case
  proof (cases "si_arg x = []")
    case False
    with s have "k = sp_state x 8 4" by (simp add: k(1))
    then show ?thesis using False by (simp add: sp_goal_def sp_state_def sp_parent_def sp_child_def sp_lines_def)
  qed (use s in \<open>simp add: sp_goal_def k(1)\<close>)
qed

section \<open>What the program prints\<close>

text \<open>
  C31: with an argument of 1 to 255 characters every schedule prints the three lines in one order,
  with the argument in the second, and both processes exit with status 0, within 12 steps.
\<close>

theorem simple_pipe_any_schedule:
  assumes "length junk = 256" "arg \<noteq> []" "NUL \<notin> set arg" "length arg < 256"
  shows "(\<forall>n k. runs sp_machine n (sp_boot junk (name # arg # rest)) k \<longrightarrow>
      n \<le> 12 \<and> (\<forall>i e. kstep sp_machine i k \<noteq> err e) \<and>
      (stuck sp_machine k \<longrightarrow>
        k_out k = ''PARENT: Writing '' @ dec_nat (length arg) @ '' bytes to the pipe: \<newline>'' @ ''CHILD: '' @ arg @ '' \<newline>'' @
          ''PARENT: Child has terminated. \<newline>'' \<and> (\<forall>p\<in>set (k_procs k). pr_status p = Exited 0))) \<and>
    (\<exists>n k. runs sp_machine n (sp_boot junk (name # arg # rest)) k \<and> stuck sp_machine k)"
proof -
  define x where "x = \<lparr>si_junk = junk, si_args = name # arg # rest\<rparr>"
  have s: "si_junk x = junk" "si_args x = name # arg # rest" "si_arg x = arg" by (simp_all add: x_def si_arg_def)
  have pre: "sp_pre x" using assms by (simp add: sp_pre_def s BUF_LEN_def)
  have out: "concat (sp_lines x) = ''PARENT: Writing '' @ dec_nat (length arg) @ '' bytes to the pipe: \<newline>'' @ ''CHILD: '' @ arg @ '' \<newline>'' @
          ''PARENT: Child has terminated. \<newline>''" by (simp add: sp_lines_def s)
  have goal: "sp_goal x k \<longleftrightarrow> k_out k = concat (sp_lines x) \<and> (\<forall>p\<in>set (k_procs k). pr_status p = Exited 0)" for k
    using assms(2) by (simp add: sp_goal_def s)
  show ?thesis unfolding out [symmetric]
    using simple_pipe.bounded [OF pre] simple_pipe.safe [OF pre] simple_pipe.at_goal [OF pre, unfolded goal]
      simple_pipe.always_at_goal [OF pre] unfolding s by blast
qed

text \<open>
  With an empty argument every schedule ends in a deadlock. The parent never closes its writing
  end and waits for the child, which waits for the end of the file.
\<close>

theorem simple_pipe_deadlock:
  assumes "length junk = 256"
  shows "(\<forall>n k. runs sp_machine n (sp_boot junk [name, []]) k \<longrightarrow> n \<le> 12 \<and>
      (stuck sp_machine k \<longrightarrow> k_out k = ''PARENT: Writing 0 bytes to the pipe: \<newline>'' \<and>
        (\<exists>l l'. map pr_status (k_procs k) = [Runs l, Runs l'] \<and> sp_pc l = SP_Wait \<and> sp_pc l' = SP_Read))) \<and>
    (\<exists>n k. runs sp_machine n (sp_boot junk [name, []]) k \<and> stuck sp_machine k)"
proof -
  define x where "x = \<lparr>si_junk = junk, si_args = [name, []]\<rparr>"
  have s: "si_junk x = junk" "si_args x = [name, []]" "si_arg x = []" by (simp_all add: x_def si_arg_def)
  have pre: "sp_pre x" using assms by (simp add: sp_pre_def s BUF_LEN_def)
  have goal: "k_out k = ''PARENT: Writing 0 bytes to the pipe: \<newline>'' \<and>
      (\<exists>l l'. map pr_status (k_procs k) = [Runs l, Runs l'] \<and> sp_pc l = SP_Wait \<and> sp_pc l' = SP_Read)" if "sp_goal x k" for k
  proof -
    have "dec_nat 0 = ''0''" by code_simp
    moreover have "k = sp_state x 5 1" using that by (simp add: sp_goal_def s)
    ultimately show ?thesis by (simp add: sp_state_def sp_lines_def s sp_parent_def sp_child_def sp_loc_def)
  qed
  show ?thesis
    using simple_pipe.bounded [OF pre] simple_pipe.at_goal [OF pre, THEN goal] simple_pipe.always_at_goal [OF pre]
    unfolding s by blast
qed

lemma simple_pipe_any_schedule_witness:
  "\<exists>n k. runs sp_machine n (sp_boot (replicate 256 CHR ''x'') [''simple_pipe'', ''hi'']) k \<and> stuck sp_machine k \<and>
     k_out k = ''PARENT: Writing 2 bytes to the pipe: \<newline>CHILD: hi \<newline>PARENT: Child has terminated. \<newline>''"
proof -
  have "dec_nat 2 = ''2''" by code_simp
  then show ?thesis
    using simple_pipe_any_schedule [of "replicate 256 CHR ''x''" "''hi''" "''simple_pipe''" "[]"] by (auto simp: numeral_2_eq_2)
qed

lemma simple_pipe_deadlock_witness:
  "\<exists>n k. runs sp_machine n (sp_boot (replicate 256 CHR ''x'') [''simple_pipe'', []]) k \<and> stuck sp_machine k \<and>
     k_out k = ''PARENT: Writing 0 bytes to the pipe: \<newline>''"
  using simple_pipe_deadlock [of "replicate 256 CHR ''x''" "''simple_pipe''"] by auto

section \<open>A variable after fork\<close>

text \<open>\<open>hw_1/main.c\<close>. Control that reaches the end of \<open>main\<close> returns 0.\<close>

datatype hw_pc = HW_Start | HW_Wait | HW_Print | HW_Return

record hw =
  hw_pc :: hw_pc
  hw_value :: int

definition hw_code :: "hw \<Rightarrow> hw call" where
  "hw_code l =
     (case hw_pc l of
        HW_Start \<Rightarrow>
          Fork (\<lambda>pid. if pid = 0 then l\<lparr>hw_value := hw_value l + 15, hw_pc := HW_Return\<rparr>
                      else if 0 < pid then l\<lparr>hw_pc := HW_Wait\<rparr> else l\<lparr>hw_pc := HW_Return\<rparr>)
      | HW_Wait \<Rightarrow> Wait (l\<lparr>hw_pc := HW_Print\<rparr>)
      | HW_Print \<Rightarrow> Print (''PARENT: value = '' @ dec_int (hw_value l) @ '' \<newline>'') (l\<lparr>hw_pc := HW_Return\<rparr>)
      | HW_Return \<Rightarrow> Exit 0)"

definition hw_machine :: "hw machine" where
  "hw_machine = \<lparr>m_pipe_ok = (\<lambda>_. True), m_fork_ok = (\<lambda>_. True), m_programs = (\<lambda>_. None), m_code = hw_code\<rparr>"

definition hw_boot :: "hw kernel" where
  "hw_boot = boot \<lparr>hw_pc = HW_Start, hw_value = 5\<rparr>"

definition hw_state :: "nat \<Rightarrow> nat \<Rightarrow> hw kernel" where
  "hw_state i j =
     \<lparr>k_procs =
        \<lparr>pr_status = (if i < 4 then Runs \<lparr>hw_pc = [HW_Start, HW_Wait, HW_Print, HW_Return] ! i, hw_value = 5\<rparr> else Exited 0),
         pr_fds = (if i < 4 then std_fds else []), pr_parent = None\<rparr> #
        (if 1 \<le> i then [\<lparr>pr_status = (if j = 0 then Runs \<lparr>hw_pc = HW_Return, hw_value = 20\<rparr> else Exited 0),
           pr_fds = (if j = 0 then std_fds else []), pr_parent = Some 0\<rparr>] else []),
      k_pipes = [], k_out = (if 3 \<le> i then ''PARENT: value = 5 \<newline>'' else [])\<rparr>"

definition hw_order :: "nat \<Rightarrow> nat \<Rightarrow> bool" where
  "hw_order i j \<longleftrightarrow> i \<le> 4 \<and> j \<le> 1 \<and> (0 < j \<longrightarrow> 1 \<le> i) \<and> (2 \<le> i \<longrightarrow> j = 1)"

lemma hw_parent_moves:
  assumes "hw_order i j"
  shows "kstep hw_machine 0 (hw_state i j) = (if i = 4 \<or> i = 1 \<and> j = 0 then None else ok (hw_state (Suc i) j))"
proof -
  have v: "dec_int 5 = ''5''" by code_simp
  have "i = 0 \<or> i = 1 \<or> i = 2 \<or> i = 3 \<or> i = 4" using assms by (auto simp: hw_order_def)
  then show ?thesis using assms
    by (elim disjE) (simp_all add: hw_order_def kstep_def hw_state_def hw_machine_def hw_code_def do_call_def set_proc_def has_child_def
        proc_exit_def k_write_def std_fds_def Let_def v)
qed

lemma hw_child_moves:
  assumes "hw_order i j"
  shows "kstep hw_machine 1 (hw_state i j) = (if i = 0 \<or> j = 1 then None else ok (hw_state i (Suc j)))"
  using assms by (cases "i = 0"; cases "j = 0")
    (simp_all add: hw_order_def kstep_def hw_state_def hw_machine_def hw_code_def do_call_def set_proc_def proc_exit_def Let_def)

definition hw_inv :: "unit \<Rightarrow> nat \<Rightarrow> hw kernel \<Rightarrow> bool" where
  "hw_inv x r k \<longleftrightarrow> (\<exists>i j. k = hw_state i j \<and> hw_order i j \<and> r + i + j = 5)"

lemma hw_inv_step:
  assumes "hw_inv x r k" "kstep hw_machine n k \<noteq> None"
  shows "\<exists>k'. kstep hw_machine n k = ok k' \<and> 0 < r \<and> hw_inv x (r - 1) k'"
proof -
  from assms(1) obtain i j where k: "k = hw_state i j" "hw_order i j" "r + i + j = 5" by (auto simp: hw_inv_def)
  have "n = 0 \<or> n = 1" using assms(2) by (auto simp: k(1) kstep_def hw_state_def split: if_splits)
  then show ?thesis
  proof
    assume n: "n = 0"
    with assms(2) have m: "kstep hw_machine n k = ok (hw_state (Suc i) j)" "\<not> (i = 4 \<or> i = 1 \<and> j = 0)"
      unfolding k(1) n hw_parent_moves [OF k(2)] by (auto split: if_splits)
    then have "hw_order (Suc i) j" "0 < r" "r - 1 + Suc i + j = 5" using k(2,3) by (auto simp: hw_order_def)
    then have "hw_inv x (r - 1) (hw_state (Suc i) j)" unfolding hw_inv_def by blast
    with m(1) \<open>0 < r\<close> show ?thesis by blast
  next
    assume n: "n = 1"
    with assms(2) have m: "kstep hw_machine n k = ok (hw_state i (Suc j))" "\<not> (i = 0 \<or> j = 1)"
      unfolding k(1) n hw_child_moves [OF k(2)] by (auto split: if_splits)
    then have "hw_order i (Suc j)" "0 < r" "r - 1 + i + Suc j = 5" using k(2,3) by (auto simp: hw_order_def)
    then have "hw_inv x (r - 1) (hw_state i (Suc j))" unfolding hw_inv_def by blast
    with m(1) \<open>0 < r\<close> show ?thesis by blast
  qed
qed

interpretation fork_value: any_schedule "\<lambda>_. hw_machine" "\<lambda>_. hw_boot" "\<lambda>_. True" "\<lambda>_. 5" hw_inv
  "\<lambda>_ k. k_out k = ''PARENT: value = 5 \<newline>'' \<and> map pr_status (k_procs k) = [Exited 0, Exited 0]"
proof (unfold_locales, goal_cases)
  case (1 x)
  have "hw_boot = hw_state 0 0" "hw_order 0 0" by (simp_all add: hw_boot_def boot_def hw_state_def hw_order_def)
  then show ?case by (auto simp: hw_inv_def)
next
  case (2 x r k i k')
  from hw_inv_step [OF 2(2), of i] 2(3) show ?case by (intro exI [of _ "r - 1"]) auto
next
  case (3 x r k i e)
  from hw_inv_step [OF 3(2), of i] show ?case by (cases "kstep hw_machine i k" rule: res_cases) auto
next
  case (4 x r k)
  from 4(2) obtain i j where k: "k = hw_state i j" "hw_order i j" by (auto simp: hw_inv_def)
  have s: "kstep hw_machine n (hw_state i j) = None" for n using 4(3) by (simp add: stuck_def k(1))
  have "i = 4" "j = 1" using s [of 0] s [of 1] k(2) unfolding hw_parent_moves [OF k(2)] hw_child_moves [OF k(2)]
    by (auto simp: hw_order_def split: if_splits)
  then show ?case by (simp add: k(1) hw_state_def)
qed

text \<open>In every schedule the parent prints the value from before the fork: the child adds to a copy.\<close>

theorem fork_copies_value:
  "(\<forall>n k. runs hw_machine n hw_boot k \<longrightarrow> n \<le> 5 \<and> (\<forall>i e. kstep hw_machine i k \<noteq> err e) \<and>
      (stuck hw_machine k \<longrightarrow> k_out k = ''PARENT: value = 5 \<newline>'' \<and> map pr_status (k_procs k) = [Exited 0, Exited 0])) \<and>
   (\<exists>n k. runs hw_machine n hw_boot k \<and> stuck hw_machine k)"
  using fork_value.bounded fork_value.safe fork_value.at_goal fork_value.always_at_goal by blast

end
