(* ===== verification/SeqNum.thy ===== *)
theory SeqNum
  imports Prelude
begin

text \<open>
  The sequence number service (\<open>pp_1/server.c\<close>, \<open>pp_1/client.c\<close>, \<open>pp_1/fifo_seqnum.h\<close>): clients ask
  through a named pipe for ranges of numbers, the server answers with the first of the range. The
  pipes are the environment. The client calls \<open>unmask\<close>, which is no function of the library; it is
  taken for \<open>umask\<close>.
\<close>

section \<open>Messages\<close>

record seq_request =
  sr_pid :: int
  sr_seq_len :: int

definition seq_fifo_prefix :: string where
  "seq_fifo_prefix = ''/tmp/seqnum_client.''"

definition SEQ_FIFO_NAME_LEN :: nat where
  "SEQ_FIFO_NAME_LEN = length (seq_fifo_prefix @ ''%ld'') + 1 + 20"

definition seq_fifo_name :: "int \<Rightarrow> string" where
  "seq_fifo_name pid = take (SEQ_FIFO_NAME_LEN - 1) (seq_fifo_prefix @ dec_int pid)"

section \<open>The server\<close>

text \<open>
  One turn of the loop: what is read, \<open>None\<close> for a short or failed read, how the FIFO of the client
  opens, and whether the response is written. Errors of the write and of \<open>close\<close> are only reported.
\<close>

record seq_event =
  ev_read :: "seq_request option"
  ev_open :: open_result
  ev_write_ok :: bool

text \<open>The server: its sequence number, and what it has written to which FIFO.\<close>

record seq_server =
  seq_num :: int
  seq_out :: "(string \<times> int) list"

definition seq_turn :: "seq_event \<Rightarrow> seq_server \<Rightarrow> seq_server res" where
  "seq_turn ev s =
     (case ev_read ev of
        None \<Rightarrow> ok s
      | Some req \<Rightarrow>
          (case ev_open ev of
             Open_Fails \<Rightarrow> ok s
           | Open_Blocks \<Rightarrow> None
           | Opened \<Rightarrow>
               (let s1 = (if ev_write_ok ev then s\<lparr>seq_out := seq_out s @ [(seq_fifo_name (sr_pid req), seq_num s)]\<rparr> else s) in
                rbind (c_add (seq_num s1) (sr_seq_len req)) (\<lambda>n. ok (s1\<lparr>seq_num := n\<rparr>)))))"

text \<open>The loop over the events so far; after them the server waits in \<open>read\<close>.\<close>

fun seq_loop :: "seq_event list \<Rightarrow> seq_server \<Rightarrow> seq_server res" where
  "seq_loop [] s = ok s"
| "seq_loop (ev # evs) s = rbind (seq_turn ev s) (seq_loop evs)"

record seq_setup =
  su_mkfifo_ok :: bool     \<comment> \<open>\<open>mkfifo\<close> succeeds, or fails with \<open>EEXIST\<close>\<close>
  su_open :: open_result
  su_dummy_ok :: bool
  su_signal_ok :: bool

definition seq_server_main :: "seq_setup \<Rightarrow> seq_event list \<Rightarrow> seq_server res" where
  "seq_server_main su evs =
     (if \<not> su_mkfifo_ok su then err (Exit_Call 1)
      else case su_open su of
        Open_Fails \<Rightarrow> err (Exit_Call 1)
      | Open_Blocks \<Rightarrow> None
      | Opened \<Rightarrow>
          if \<not> su_dummy_ok su then err (Exit_Call 1)
          else if \<not> su_signal_ok su then err (Exit_Call 1)
          else seq_loop evs \<lparr>seq_num = 0, seq_out = []\<rparr>)"

section \<open>The client\<close>

text \<open>
  The client's environment: the first steps, how the two FIFOs open and what comes out of its own.
  \<open>pid\<close> is the client's process id; \<open>req0\<close> is what happens to be in \<open>req\<close>, which the client never
  fills in.
\<close>

record seq_client_env =
  sc_mkfifo_ok :: bool
  sc_atexit_ok :: bool
  sc_server :: open_result
  sc_write_ok :: bool
  sc_own :: open_result
  sc_read :: "int option"

text \<open>What the client leaves: its status, its request, the number it prints, the FIFO it removes.\<close>

record seq_client_end =
  ce_status :: int
  ce_sent :: "seq_request option"
  ce_printed :: "int option"
  ce_removed :: "string option"

definition remove_seq_fifo :: "int \<Rightarrow> string" where
  "remove_seq_fifo pid = seq_fifo_name pid"

definition seq_client_main :: "string list \<Rightarrow> int \<Rightarrow> seq_client_env \<Rightarrow> seq_request \<Rightarrow> seq_client_end res" where
  "seq_client_main argv pid e req0 =
     (let quit = \<lparr>ce_status = 1, ce_sent = None, ce_printed = None, ce_removed = None\<rparr>;
          cleaned = quit\<lparr>ce_removed := Some (remove_seq_fifo pid)\<rparr> in
      if 1 < length argv \<and> argv ! 1 = ''--help'' then ok (quit\<lparr>ce_status := 0\<rparr>)
      else if \<not> sc_mkfifo_ok e then ok quit
      else if \<not> sc_atexit_ok e then ok quit
      else case sc_server e of
        Open_Blocks \<Rightarrow> None
      | Open_Fails \<Rightarrow> ok cleaned
      | Opened \<Rightarrow>
          if \<not> sc_write_ok e then ok cleaned
          else let asked = cleaned\<lparr>ce_sent := Some req0\<rparr> in
            case sc_own e of
              Open_Blocks \<Rightarrow> None
            | Open_Fails \<Rightarrow> ok asked
            | Opened \<Rightarrow>
                (case sc_read e of
                   None \<Rightarrow> ok asked
                 | Some n \<Rightarrow> ok (asked\<lparr>ce_status := 0, ce_printed := Some n\<rparr>)))"

section \<open>The numbers handed out\<close>

definition served :: "seq_event list \<Rightarrow> seq_request list" where
  "served evs = map (the \<circ> ev_read) (filter (\<lambda>ev. ev_read ev \<noteq> None \<and> ev_open ev = Opened) evs)"

definition lens :: "seq_event list \<Rightarrow> int list" where
  "lens evs = map sr_seq_len (served evs)"

lemma served_simps:
  "served [] = []"
  "served (ev # evs) = (if ev_read ev \<noteq> None \<and> ev_open ev = Opened then the (ev_read ev) # served evs else served evs)"
  by (simp_all add: served_def)

lemma seq_loop_answers:
  assumes "\<forall>ev\<in>set evs. ev_open ev \<noteq> Open_Blocks \<and> ev_write_ok ev" "\<forall>n\<in>set (lens evs). 0 \<le> n"
    and "0 \<le> seq_num s" "seq_num s + sum_list (lens evs) \<le> INT_MAX"
  shows "\<exists>s'. seq_loop evs s = ok s' \<and> seq_num s' = seq_num s + sum_list (lens evs) \<and>
    seq_out s' = seq_out s @ map (\<lambda>k. (seq_fifo_name (sr_pid (served evs ! k)), seq_num s + sum_list (take k (lens evs))))
      [0..<length (served evs)]"
  using assms
proof (induction evs arbitrary: s)
  case Nil
  then show ?case by (simp add: served_simps lens_def)
next
  case (Cons ev evs)
  show ?case
  proof (cases "ev_read ev \<noteq> None \<and> ev_open ev = Opened")
    case False
    then have "seq_turn ev s = ok s" "served (ev # evs) = served evs" "lens (ev # evs) = lens evs"
      using Cons.prems(1) by (auto simp: seq_turn_def served_simps lens_def split: option.splits open_result.splits)
    with Cons.IH [of s] Cons.prems show ?thesis by simp
  next
    case True
    then obtain req where req: "ev_read ev = Some req" by auto
    let ?s = "s\<lparr>seq_num := seq_num s + sr_seq_len req, seq_out := seq_out s @ [(seq_fifo_name (sr_pid req), seq_num s)]\<rparr>"
    have l: "served (ev # evs) = req # served evs" "lens (ev # evs) = sr_seq_len req # lens evs"
      using True req by (simp_all add: served_simps lens_def)
    have pos: "0 \<le> sr_seq_len req" "0 \<le> sum_list (lens evs)"
      using Cons.prems(2) by (auto simp: l intro!: sum_list_nonneg)
    have "int_ok (seq_num s + sr_seq_len req)" using pos Cons.prems(3,4) by (simp add: l int_ok_def INT_MIN_def)
    then have turn: "seq_turn ev s = ok ?s" using True req Cons.prems(1) by (simp add: seq_turn_def)
    have "\<exists>s'. seq_loop evs ?s = ok s' \<and> seq_num s' = seq_num ?s + sum_list (lens evs) \<and>
      seq_out s' = seq_out ?s @ map (\<lambda>k. (seq_fifo_name (sr_pid (served evs ! k)), seq_num ?s + sum_list (take k (lens evs))))
        [0..<length (served evs)]"
      by (rule Cons.IH) (use Cons.prems pos in \<open>simp_all add: l\<close>)
    then obtain s' where s': "seq_loop evs ?s = ok s'" "seq_num s' = seq_num s + sr_seq_len req + sum_list (lens evs)"
      "seq_out s' = seq_out ?s @ map (\<lambda>k. (seq_fifo_name (sr_pid (served evs ! k)), seq_num s + sr_seq_len req + sum_list (take k (lens evs))))
        [0..<length (served evs)]" by auto
    have "[0..<length (served (ev # evs))] = 0 # map Suc [0..<length (served evs)]"
      by (simp add: l map_Suc_upt upt_conv_Cons del: upt_Suc)
    with s' turn show ?thesis by (simp add: l o_def add.assoc)
  qed
qed

lemma take_sums_disjoint:
  fixes xs :: "int list"
  assumes "\<forall>n\<in>set xs. 0 \<le> n" "i < j" "j \<le> length xs"
  shows "sum_list (take i xs) + xs ! i \<le> sum_list (take j xs)"
proof -
  have "sum_list (take j xs) = sum_list (take (Suc i) xs) + sum_list (drop (Suc i) (take j xs))"
    using assms(2) by (metis append_take_drop_id less_eq_Suc_le min.absorb1 sum_list_append take_take)
  moreover have "0 \<le> sum_list (drop (Suc i) (take j xs))"
    using assms(1) by (intro sum_list_nonneg) (meson in_set_dropD in_set_takeD)
  moreover have "sum_list (take (Suc i) xs) = sum_list (take i xs) + xs ! i"
    using assms(2,3) by (simp add: take_Suc_conv_app_nth)
  ultimately show ?thesis by linarith
qed

lemma seq_fifo_name_whole: "int_ok pid \<Longrightarrow> seq_fifo_name pid = seq_fifo_prefix @ dec_int pid"
  using dec_int_length [of pid]
  by (simp add: seq_fifo_name_def SEQ_FIFO_NAME_LEN_def seq_fifo_prefix_def)

lemma seq_fifo_name_inject: "int_ok p \<Longrightarrow> int_ok q \<Longrightarrow> seq_fifo_name p = seq_fifo_name q \<longleftrightarrow> p = q"
  by (auto simp: seq_fifo_name_whole dest: dec_int_inject)

section \<open>Properties\<close>

text \<open>
  C23: suppose all calls at the start work, no \<open>open\<close> of a client's FIFO waits for ever and every write
  succeeds, and the lengths asked for are not negative and their sum is an \<open>int\<close>. Then the server
  answers every request it can deliver, in order and each to the FIFO named after the process id in
  the request, with the sum of the lengths asked for before; so a later range begins at or after the
  end of every earlier one. For other lengths this is false (\<open>seq_lengths_unchecked\<close>).
\<close>

theorem seq_ranges_disjoint:
  assumes "su_mkfifo_ok su" "su_open su = Opened" "su_dummy_ok su" "su_signal_ok su"
    and "\<forall>ev\<in>set evs. ev_open ev \<noteq> Open_Blocks \<and> ev_write_ok ev"
    and "\<forall>n\<in>set (lens evs). 0 \<le> n" "sum_list (lens evs) \<le> INT_MAX"
  shows "\<exists>s. seq_server_main su evs = ok s \<and> length (seq_out s) = length (served evs) \<and>
    (\<forall>k < length (served evs). seq_out s ! k = (seq_fifo_name (sr_pid (served evs ! k)), sum_list (take k (lens evs)))) \<and>
    (\<forall>j < length (served evs). \<forall>i < j. snd (seq_out s ! i) + sr_seq_len (served evs ! i) \<le> snd (seq_out s ! j))"
proof -
  obtain s where s: "seq_loop evs \<lparr>seq_num = 0, seq_out = []\<rparr> = ok s"
    "seq_out s = map (\<lambda>k. (seq_fifo_name (sr_pid (served evs ! k)), sum_list (take k (lens evs)))) [0..<length (served evs)]"
    using seq_loop_answers [of evs "\<lparr>seq_num = 0, seq_out = []\<rparr>"] assms(5-7) by auto
  have len: "length (lens evs) = length (served evs)" by (simp add: lens_def)
  have "snd (seq_out s ! i) + sr_seq_len (served evs ! i) \<le> snd (seq_out s ! j)"
    if "j < length (served evs)" "i < j" for i j
    using take_sums_disjoint [OF assms(6) that(2), unfolded len] that by (simp add: s(2) lens_def)
  then show ?thesis using s assms(1-4) by (simp add: seq_server_main_def)
qed

definition demo_setup :: seq_setup where
  "demo_setup = \<lparr>su_mkfifo_ok = True, su_open = Opened, su_dummy_ok = True, su_signal_ok = True\<rparr>"

definition asks :: "int \<Rightarrow> int \<Rightarrow> seq_event" where
  "asks pid n = \<lparr>ev_read = Some \<lparr>sr_pid = pid, sr_seq_len = n\<rparr>, ev_open = Opened, ev_write_ok = True\<rparr>"

theorem seq_ranges_disjoint_witness:
  "\<exists>s. seq_server_main demo_setup [asks 7 3, asks 8 2] = ok s \<and> snd (seq_out s ! 0) + 3 \<le> snd (seq_out s ! 1)"
  using seq_ranges_disjoint [of demo_setup "[asks 7 3, asks 8 2]"]
  by (auto simp: demo_setup_def asks_def served_simps lens_def INT_MAX_def)

text \<open>
  The lengths are not checked. A request whose length takes the number past the largest \<open>int\<close> is
  undefined behaviour of the server, after it has answered; and after a request for minus what was
  handed out before, the same numbers are handed out again.
\<close>

theorem seq_lengths_unchecked:
  assumes "su_mkfifo_ok su" "su_open su = Opened" "su_dummy_ok su" "su_signal_ok su" "0 \<le> n" "n \<le> INT_MAX"
  shows "(INT_MAX < n + m \<longrightarrow> seq_server_main su [asks p n, asks q m] = err Signed_Overflow) \<and>
    (int_ok k \<longrightarrow> seq_server_main su [asks p n, asks q (- n), asks r k] =
      ok \<lparr>seq_num = k, seq_out = [(seq_fifo_name p, 0), (seq_fifo_name q, n), (seq_fifo_name r, 0)]\<rparr>)"
proof -
  have n: "int_ok n" using assms(5,6) by (simp add: int_ok_def INT_MIN_def)
  have 0: "int_ok 0" by (simp add: int_ok_small)
  have main: "seq_server_main su evs = seq_loop evs \<lparr>seq_num = 0, seq_out = []\<rparr>" for evs
    using assms(1-4) by (simp add: seq_server_main_def)
  have turn: "seq_turn (asks a l) s = rbind (c_add (seq_num s) l)
      (\<lambda>v. ok (s\<lparr>seq_out := seq_out s @ [(seq_fifo_name a, seq_num s)], seq_num := v\<rparr>))" for a l s
    by (simp add: seq_turn_def asks_def Let_def)
  have "INT_MAX < n + m \<Longrightarrow> \<not> int_ok (n + m)" by (simp add: int_ok_def)
  then show ?thesis by (simp add: main turn c_add_def n 0)
qed

theorem seq_lengths_unchecked_witness:
  "seq_server_main demo_setup [asks 7 3, asks 8 INT_MAX] = err Signed_Overflow \<and>
   seq_server_main demo_setup [asks 7 3, asks 8 (- 3), asks 9 1] =
     ok \<lparr>seq_num = 1, seq_out = [(seq_fifo_name 7, 0), (seq_fifo_name 8, 3), (seq_fifo_name 9, 0)]\<rparr>"
  using seq_lengths_unchecked [of demo_setup 3 INT_MAX 7 8 1 9]
  by (simp add: demo_setup_def INT_MAX_def int_ok_small)

text \<open>
  The client never fills in its request, so what it sends is what was in that memory. The server
  answers to the FIFO of the process id it finds there, which is the client's own FIFO only if that
  memory happened to hold the client's process id.
\<close>

theorem seq_client_request_unset:
  assumes "seq_client_main argv pid e req0 = ok r" "ce_sent r = Some req"
    and "seq_turn \<lparr>ev_read = Some req, ev_open = Opened, ev_write_ok = True\<rparr> s = ok s'"
    and "int_ok pid" "int_ok (sr_pid req0)"
  shows "seq_out s' = seq_out s @ [(seq_fifo_name (sr_pid req0), seq_num s)] \<and>
    seq_num s' = seq_num s + sr_seq_len req0 \<and>
    ce_removed r = Some (seq_fifo_name pid) \<and>
    (fst (last (seq_out s')) = seq_fifo_name pid \<longleftrightarrow> sr_pid req0 = pid)"
proof -
  have "req = req0 \<and> ce_removed r = Some (seq_fifo_name pid)" using assms(1,2)
    by (auto simp: seq_client_main_def Let_def remove_seq_fifo_def split: if_splits open_result.splits option.splits)
  moreover from this assms(3) have "seq_out s' = seq_out s @ [(seq_fifo_name (sr_pid req0), seq_num s)] \<and>
    seq_num s' = seq_num s + sr_seq_len req0"
    by (auto simp: seq_turn_def Let_def rbind_eq_ok c_add_eq_ok)
  ultimately show ?thesis using seq_fifo_name_inject [OF assms(5,4)] by simp
qed

definition demo_client :: seq_client_env where
  "demo_client = \<lparr>sc_mkfifo_ok = True, sc_atexit_ok = True, sc_server = Opened, sc_write_ok = True,
     sc_own = Opened, sc_read = Some 5\<rparr>"

theorem seq_client_request_unset_witness:
  "\<exists>s'. seq_turn (asks 0 1) \<lparr>seq_num = 5, seq_out = []\<rparr> = ok s' \<and> fst (last (seq_out s')) \<noteq> seq_fifo_name 7"
proof -
  have c: "seq_client_main [''client''] 7 demo_client \<lparr>sr_pid = 0, sr_seq_len = 1\<rparr> =
      ok \<lparr>ce_status = 0, ce_sent = Some \<lparr>sr_pid = 0, sr_seq_len = 1\<rparr>, ce_printed = Some 5, ce_removed = Some (seq_fifo_name 7)\<rparr>"
    by (simp add: seq_client_main_def demo_client_def remove_seq_fifo_def)
  have t: "seq_turn \<lparr>ev_read = Some \<lparr>sr_pid = 0, sr_seq_len = 1\<rparr>, ev_open = Opened, ev_write_ok = True\<rparr>
      \<lparr>seq_num = 5, seq_out = []\<rparr> = ok \<lparr>seq_num = 6, seq_out = [(seq_fifo_name 0, 5)]\<rparr>"
    by (simp add: seq_turn_def c_add_def int_ok_small)
  show ?thesis using seq_client_request_unset [OF c _ t] t
    by (simp add: asks_def int_ok_small)
qed

end
