(* ===== verification/LongJump.thy ===== *)
theory LongJump
  imports Prelude
begin

text \<open>
  The experiment with non-local jumps (\<open>hw_1_2/main.c\<close>). One global \<open>jmp_buf\<close> remembers the call
  of a function that called \<open>setjmp\<close> last; \<open>longjmp\<close> is defined only while that call is active.
\<close>

text \<open>The functions of the program, for the calls that are active.\<close>

datatype frame = Main | F1 | F2 | Some_Function

text \<open>The innermost call is the first of \<open>frames\<close>.\<close>

record jumps =
  jmp_env :: "frame option"
  frames :: "frame list"
  said :: "string list"

definition say :: "string \<Rightarrow> jumps \<Rightarrow> jumps" where
  "say s j = j\<lparr>said := said j @ [s]\<rparr>"

definition enter :: "frame \<Rightarrow> jumps \<Rightarrow> jumps" where
  "enter f j = j\<lparr>frames := f # frames j\<rparr>"

definition leave :: "jumps \<Rightarrow> jumps" where
  "leave j = j\<lparr>frames := tl (frames j)\<rparr>"

definition c_setjmp :: "jumps \<Rightarrow> jumps" where
  "c_setjmp j = j\<lparr>jmp_env := Some (hd (frames j))\<rparr>"

text \<open>The value \<open>setjmp\<close> returns with for the second time; the calls further in are gone.\<close>

definition c_longjmp :: "int \<Rightarrow> jumps \<Rightarrow> (int \<times> jumps) res" where
  "c_longjmp v j =
     (case jmp_env j of
        None \<Rightarrow> err Uninit_Read
      | Some f \<Rightarrow>
          if f \<in> set (frames j) then ok (if v = 0 then 1 else v, j\<lparr>frames := dropWhile (\<lambda>g. g \<noteq> f) (frames j)\<rparr>)
          else err Bad_Longjmp)"

text \<open>\<open>setjmp\<close> returns 0 here; both branches print the same.\<close>

definition someFunction :: "jumps \<Rightarrow> int \<times> jumps" where
  "someFunction j = (0, leave (say ''You got here somehow!'' (c_setjmp (enter Some_Function j))))"

text \<open>Neither of these returns: they end with a jump, to the value and the state it arrives with.\<close>

definition f2 :: "jumps \<Rightarrow> (int \<times> jumps) res" where
  "f2 j = (case someFunction (enter F2 j) of (num, j1) \<Rightarrow> c_longjmp 2 j1)"

definition f1 :: "int \<Rightarrow> jumps \<Rightarrow> (int \<times> jumps) res" where
  "f1 argc j = (let j1 = enter F1 j in if argc = 1 then c_longjmp 1 j1 else f2 j1)"

definition jump_main :: "int \<Rightarrow> jumps res" where
  "jump_main argc =
     (let j0 = c_setjmp \<lparr>jmp_env = None, frames = [Main], said = []\<rparr> in
      rbind (f1 argc (say ''Calling f1() after initial setjmp().'' j0)) (\<lambda>(v, j).
      ok (if v = 1 then say ''We jumped back from f1().'' j
          else if v = 2 then say ''We jumped back from f2().'' j
          else say ''Unknown jump!'' j)))"

text \<open>
  Called without arguments, the program jumps back from \<open>f1\<close> to \<open>main\<close>. With an argument
  \<open>f2\<close> jumps into the call of \<open>someFunction\<close> that has returned, since that call has overwritten
  the buffer: undefined behaviour, in place of the jump back from \<open>f2\<close> the code prepares for.
\<close>

theorem jump_main_result:
  "jump_main argc =
     (if argc = 1
      then ok \<lparr>jmp_env = Some Main, frames = [Main],
        said = [''Calling f1() after initial setjmp().'', ''We jumped back from f1().'']\<rparr>
      else err Bad_Longjmp)"
  by (simp add: jump_main_def f1_def f2_def someFunction_def c_longjmp_def c_setjmp_def enter_def leave_def say_def)

text \<open>Without the call of \<open>someFunction\<close> the jump out of \<open>f2\<close> would arrive in \<open>main\<close>.\<close>

lemma f2_without_call: "jmp_env j = Some Main \<Longrightarrow> frames j = [F1, Main] \<Longrightarrow> c_longjmp 2 (enter F2 j) = ok (2, j\<lparr>frames := [Main]\<rparr>)"
  by (simp add: c_longjmp_def enter_def)

end
