(* ===== verification/SignalThread.thy ===== *)
theory SignalThread
  imports Prelude
begin

text \<open>
  The thread that handles the signals of a process (\<open>test_2/signal_handler_thread.c\<close>). What
  \<open>sigwait\<close> returns is the environment: a signal number, or \<open>None\<close> for an error.
\<close>

definition SIGINT :: int where "SIGINT = 2"
definition SIGUSR1 :: int where "SIGUSR1 = 10"
definition SIGUSR2 :: int where "SIGUSR2 = 12"

text \<open>After the signals so far: the thread waits, it has ended, or the process has exited.\<close>

datatype handler_end = Waits | Thread_Ends | Exits int

fun signal_handler :: "int option list \<Rightarrow> string list \<times> handler_end" where
  "signal_handler [] = ([], Waits)"
| "signal_handler (None # evs) = ([], Thread_Ends)"
| "signal_handler (Some s # evs) =
     (if s = SIGINT then ([''Ctrl+C received ... quiting''], Exits 0)
      else apfst ((#) (if s = SIGUSR1 then ''Received SIGUSR1 signal''
                       else if s = SIGUSR2 then ''Received SIGUSR2 signal'' else ''Received some signal''))
        (signal_handler evs))"

text \<open>The signals are blocked before the thread is created, so they wait for it; without the thread the process exits.\<close>

definition signal_handler_init :: "bool \<Rightarrow> int option list \<Rightarrow> string list \<times> handler_end" where
  "signal_handler_init created evs = (if created then signal_handler evs else ([], Exits 1))"

definition handled_on :: "int option \<Rightarrow> bool" where
  "handled_on ev \<longleftrightarrow> ev \<noteq> None \<and> ev \<noteq> Some SIGINT"

lemma signal_handler_prefix:
  "handled_on ev \<Longrightarrow> signal_handler (ev # evs) = apfst ((@) (fst (signal_handler [ev]))) (signal_handler evs)"
  by (cases ev; cases "signal_handler evs") (auto simp: handled_on_def)

text \<open>
  The thread prints a line for each signal up to the first \<open>SIGINT\<close> or error of \<open>sigwait\<close>, in the
  order of the signals; \<open>SIGINT\<close> ends the process with status 0, an error only the thread, and no
  other signal ends anything.
\<close>

theorem signal_handler_result:
  "length (fst (signal_handler evs)) =
     length (takeWhile handled_on evs) + (case dropWhile handled_on evs of Some _ # _ \<Rightarrow> 1 | _ \<Rightarrow> 0) \<and>
   snd (signal_handler evs) = (case dropWhile handled_on evs of [] \<Rightarrow> Waits | None # _ \<Rightarrow> Thread_Ends | Some _ # _ \<Rightarrow> Exits 0) \<and>
   take (length (takeWhile handled_on evs)) (fst (signal_handler evs)) =
     concat (map (\<lambda>ev. fst (signal_handler [ev])) (takeWhile handled_on evs))"
  by (induction evs rule: signal_handler.induct) (auto simp: handled_on_def split: option.splits)

end
