(* ===== verification/Spec2Isabelle.thy ===== *)
theory Spec2Isabelle
  imports ChatSystem ClientRuns ChatOpens GrepMain QueueTest PcWhole Primes GenFilter EchoChamber SimplePipe SeqNum LongJump SignalThread
begin

text \<open>
  A verification of the C programs of a systems programming course. The repository holds a dozen
  small programs under \<open>src/\<close>; each is modelled by theories of its own, as functions and step
  relations translated from the code, with the theorems that make it correct, or that show where
  it is not. This theory imports all of them.

  \<^bold>\<open>The programs, and where they are modelled.\<close>

  \<^item> The chat room (\<open>pp_1_server\<close>, \<open>pp_1_client\<close>). A server reads requests from a named pipe and writes
    responses to one named pipe per client. ChatList models \<open>list.c\<close>, the doubly linked list of clients,
    over an explicit heap of nodes and blocks; ChatServer models \<open>server.c\<close>: the responses, the replies
    and each handler (\<open>handle_new_client\<close>, \<open>handle_disconnect\<close>, \<open>handle_global\<close>, \<open>handle_direct\<close>), composed in
    \<open>handle_request\<close> and \<open>server_main\<close> as \<open>main\<close> composes them. ChatSpec states the abstract chat room and
    the simulation. ChatClient models \<open>client.c\<close>, from the keyboard to the requests, and joins one client
    and the server. ChatSystem lets the server and all clients move in any order, a client writing its
    request and reading the verdict in two steps, as \<open>check_sys_response\<close> follows the write in \<open>client_send\<close>.
    ClientRuns cuts \<open>main\<close> of the client into places between its calls, to speak of runs that fail or
    never end and of signals anywhere. ChatOpens looks at the exchanges of one client and the server
    more closely: every \<open>open\<close>, \<open>read\<close>, \<open>write\<close> and \<open>close\<close> of the client's FIFO is a step, so that who
    waits for whom follows from the programs.
  \<^item> mini_grep (\<open>pp_2\<close>). WorkQueue models \<open>queue.h\<close> and \<open>queue_utils.c\<close> over a heap; GrepText how one file
    is searched (\<open>fgets\<close>, \<open>strtok\<close>, \<open>strstr\<close>); MiniGrep \<open>serial_search\<close>; WorkerPool what both parallel searches
    share (threads as steps over the shared heap, the distribution of the elements); StaticGrep and
    DynamicGrep the two parallel searches; GrepMain \<open>main\<close>, which runs a serial and a parallel search and
    prints both counts. QueueTest models \<open>test.c\<close>.
  \<^item> Producer and consumers (\<open>pe_3\<close>). ProdCons models the loops of \<open>producer.c\<close> and \<open>consumer.c\<close> over the shared
    buffer and three semaphores, a step of the system being a step of one process. NamedSems models how
    the processes get there and how they leave: names of semaphores and memory, left-over objects,
    starts in any order, \<open>unlink_all\<close>; and with the same objects \<open>test_2/produce.c\<close> and
    \<open>test_2/consume.c\<close>. PcWhole composes starts, loops and ends of \<open>pe_3\<close>.
  \<^item> Programs on \<open>fork\<close> and \<open>pipe\<close>. Processes gives descriptors, pipes, processes and their calls;
    GenFilter (\<open>pe_2/pipes_gen_filter.c\<close>), EchoChamber (\<open>pe_2/echo_chamber.c\<close>) and SimplePipe
    (\<open>test/main.c\<close>, \<open>hw_1/main.c\<close>) give the code of \<open>main\<close> as the next call at each place, for parents and
    children alike, since \<open>fork\<close> copies the local state.
  \<^item> Primes (\<open>pa_1/primes.c\<close>): trial division, the circular buffer, the search and its signal handlers.
  \<^item> SeqNum (\<open>pp_1\<close>): the sequence number server and its client over named pipes.
  \<^item> LongJump (\<open>hw_1_2/main.c\<close>) and SignalThread (\<open>test_2/signal_handler_thread.c\<close>).

  \<^bold>\<open>How code is modelled.\<close> Prelude has the result type \<open>'a res\<close>: \<open>ok\<close> with a value, \<open>err\<close> with an error of
  C (null or dangling pointer, access out of bounds, signed overflow, uninitialised read, \<open>exit\<close> with a
  status), or \<open>None\<close> for a call that does not return. Records are the structs and the state of a
  program, heaps are maps from addresses that only grow (\<open>malloc\<close> fails when a number of cells is used
  up), character arrays are lists of bytes. An \<open>int\<close> is an integer with checked additions (\<open>c_add\<close>);
  unsigned and 64 bit numbers that wrap are words. Loops that may not end are \<open>partial_function\<close>, so that
  not returning is a value, and no fuel is used anywhere. Processes and threads are program counters or
  calls with continuations, and a run is any interleaving of their steps.

  \<^bold>\<open>Parameters.\<close> The file system of mini_grep does not change while a search runs; how each named pipe
  opens and whether writes succeed, what is typed, when signals arrive, whether \<open>malloc\<close>, \<open>pthread_create\<close>,
  \<open>sem_open\<close> and the like succeed, the programs the filters execute, random numbers, and the contents of
  uninitialised memory are arguments of the definitions. Theorems say what they assume of them, and their
  witnesses give concrete ones.

  \<^bold>\<open>What the theorems show.\<close>

  \<^item> Chat: the server refines the abstract chat room from start to end, keeps its registry well formed
    under any input, and delivers broadcasts to all but the sender in order. Every request the client
    writes is well formed, in every run and whatever happens; a typed text arrives as typed, with a
    library that reads on after the end of file; and a client with nothing unread learns the verdict of
    the room. In every interleaving of the server and its clients, as long as the server finds every
    client's FIFO open and with room, each client finds in its FIFO, in order, what the room says to it,
    verdicts arrive in the order of the requests, and nobody can forge the sender of a message. The
    errors: from the second exchange on a client may wait for ever in \<open>open\<close>, or take the connection for
    lost; a broadcast to a client that has gone frees a node and reads it; a client that does not read
    stops the server; a waiting message is taken for a verdict; a long text overflows.
  \<^item> mini_grep: the queue is a FIFO queue; one file is searched as the plain definition of matching words
    says; the serial search returns on every file system and counts the matches below the root; both
    parallel searches return the same under every fair schedule, and nothing else under any schedule.
  \<^item> Producer and consumers: mutual exclusion; and, when the local variables \<open>finished\<close> that the programs
    read uninitialised start as false, no item lost or duplicated, no deadlock before the end when
    there is a consumer, and the end is declared when all is consumed; but a consumer woken at the end
    reads out of bounds. The starts agree with the initial state of the loops whatever was left
    before, and processes that start in any order share the same objects, unless a consumer overtakes the removal of old names.
    Where no old names are left, every run of the whole programs is a run of the loops and loses no
    item, whoever starts or ends while others loop.
  \<^item> Processes: the locale \<open>any_schedule\<close> (an invariant with a rank that every step lowers) gives for each
    program that every schedule ends, within a number of steps given in the theorem, without error, and
    with the output stated; the interpretations carry the invariants, which describe every reachable
    state by the positions of the processes. The errors: deadlock for an empty argument, writes outside
    buffers, a child that goes on with its parent's code, lines shown twice.
  \<^item> Primes: \<open>is_prime\<close> decides primality of 32 bit numbers; the buffer is a FIFO queue for five pushes; the
    search finds the primes below 13 and ends in undefined behaviour at 13, its sixth prime, unless a
    signal ends it before. Sequence numbers: ranges handed out are disjoint for lengths that are not
    negative and sum up to an \<open>int\<close>; the client sends an uninitialised request.

  \<^bold>\<open>Interfaces.\<close> \<open>seq_store\<close> and \<open>deque_store\<close> (ChatList) are what the server needs of its list, \<open>work_queue\<close>
  (WorkQueue) what the searches need of their queue, \<open>thread_pool\<close> (WorkerPool) what a pool of searching
  threads does, interpreted for the static search and both pools of the dynamic one, and \<open>any_schedule\<close>
  (Processes) what the programs on pipes have in common.

  \<^bold>\<open>Bounds.\<close> A fair schedule of mini_grep gives the main thread a turn for each thread it creates, and
  then each thread two turns more than there are paths below the root; that is enough, since every
  turn but the first and the last of a thread uses up a path. The runs of the chat system have at most
  40000 requests: one request makes the server send at most 101 responses, each advances \<open>seq_num\<close> by
  the 528 bytes of a request, and 40000 times that is still an \<open>int\<close>. Counts are assumed to fit an \<open>int\<close>
  where the theorem says so; the programs overflow otherwise, which the models show as an error.

  \<^bold>\<open>Not modelled.\<close> \<open>test_2/list.c\<close> and \<open>test_2/list.h\<close> repeat \<open>pp_1_server/list.c\<close> line for line; \<open>style.h\<close> and
  the text of progress messages only decorate the output; \<open>create_shared_memory\<close> (producer),
  \<open>child_setup_pipe\<close> (filters) and \<open>create_sync_channel\<close> (echo chamber) are never called; rests and timing
  do nothing that other interleavings do not do.

  \<^bold>\<open>Where the models are coarser than the code.\<close>

  \<^item> Signals of the echo chamber arrive at the test of the loop of the parent, and those of primes between
    turns of the search (\<open>primes_interrupted\<close>). In \<open>client_turn\<close> they arrive at the connection check or at
    the prompt; in ClientRuns at any place between two calls.
  \<^item> What the programs write to pipes is at most 256 bytes, so that no write waits. In the chat a client
    that does not read lets its FIFO fill, with 124 responses, and the next write of the server waits:
    the environment says so with the outcome \<open>Open_Blocks\<close>, which stands for an \<open>open\<close> or a write that does
    not return. The theorems on the chat that assume \<open>reaches\<close> exclude both.
  \<^item> The \<open>open\<close> of a client before it reads a verdict is an input in ChatClient and is taken to return in
    ChatSystem; ChatOpens derives when it does not.
  \<^item> Memory runs out once and for all: after the first \<open>malloc\<close> that fails all fail, and \<open>free\<close> gives nothing
    back. The chat client, which checks no \<open>malloc\<close>, is taken to have its few blocks.
  \<^item> The programs that the pipe of filters executes are not under \<open>src/\<close>. They are arguments: functions
    from arguments and input to output, which read all input before they write. The message of a child
    whose \<open>execl\<close> fails is written at once, without the buffer of \<open>stdout\<close>.
  \<^item> In the loops of producer and consumers a post never fails for want of room in the semaphore, which
    would need a value of \<open>SEM_VALUE_MAX\<close>.
\<close>

end
